(* ===== verification/Prelude.thy ===== *)
theory Prelude
  imports Main "HOL-Library.Word" "HOL-Library.Multiset"
begin

text \<open>
  Shared ground of the development.  Pointers and \<^verbatim>\<open>size_t\<close> values are natural numbers below
  \<open>2 ^ 64\<close>; additions and subtractions that can leave that range in the source are written with
  \<open>uadd64\<close> and \<open>usub64\<close>, which wrap.  Memory is a function from addresses to bytes, read and
  written in ranges by \<open>rd\<close> and \<open>wr\<close>; a struct field of several bytes is a little-endian number
  (\<open>ldn\<close>, \<open>le_bytes\<close>).  A call that ends the process, or that the language leaves undefined, is a
  value of \<open>fault\<close> on the left of a sum.
\<close>

named_theorems mem_simps
named_theorems res_simps

type_synonym byte = "8 word"
type_synonym addr = nat
type_synonym mem = "nat \<Rightarrow> byte"

subsection \<open>Outcomes\<close>

datatype fault =
    ExitFailure      \<comment> \<open>exit(1)\<close>
  | ExitSuccess      \<comment> \<open>exit(0)\<close>
  | AssertFailed     \<comment> \<open>NVSL\_ASSERT, assert or lpo\_assert\<close>
  | NullDeref        \<comment> \<open>a member access through a null pointer\<close>
  | Uncaught         \<comment> \<open>a C++ exception\<close>
  | OutOfBounds      \<comment> \<open>an array access the source does not guard\<close>
  | DivByZero        \<comment> \<open>an integer division or remainder by zero\<close>

type_synonym 'a res = "fault + 'a"

definition bindR :: "'a res \<Rightarrow> ('a \<Rightarrow> 'b res) \<Rightarrow> 'b res" where
  "bindR r k = (case r of Inl e \<Rightarrow> Inl e | Inr x \<Rightarrow> k x)"

definition guardR :: "bool \<Rightarrow> fault \<Rightarrow> 'a res \<Rightarrow> 'a res" where
  "guardR b e r = (if b then r else Inl e)"

lemma bindR_Inl [simp, res_simps]: "bindR (Inl e) k = Inl e"
  by (simp add: bindR_def)

lemma bindR_Inr [simp, res_simps]: "bindR (Inr x) k = k x"
  by (simp add: bindR_def)

lemma guardR_True [simp, res_simps]: "guardR True e r = r"
  by (simp add: guardR_def)

lemma guardR_False [simp, res_simps]: "guardR False e r = Inl e"
  by (simp add: guardR_def)

lemma bindR_eq_Inr: "bindR r k = Inr y \<longleftrightarrow> (\<exists>x. r = Inr x \<and> k x = Inr y)"
  by (cases r) auto

lemma guardR_eq_Inr: "guardR b e r = Inr y \<longleftrightarrow> b \<and> r = Inr y"
  by (cases b) auto

text \<open>
  A call with a loop that may not end is a \<open>run\<close>: \<open>None\<close> when it does not return.
\<close>

type_synonym 'a run = "'a res option"

definition ret :: "'a \<Rightarrow> 'a run" where
  "ret x = Some (Inr x)"

definition bindX :: "'a run \<Rightarrow> ('a \<Rightarrow> 'b run) \<Rightarrow> 'b run" where
  "bindX r k = (case r of None \<Rightarrow> None | Some (Inl e) \<Rightarrow> Some (Inl e) | Some (Inr x) \<Rightarrow> k x)"

definition guardX :: "bool \<Rightarrow> fault \<Rightarrow> 'a run \<Rightarrow> 'a run" where
  "guardX b e r = (if b then r else Some (Inl e))"

lemma bindX_simps [simp, res_simps]:
  "bindX None k = None" "bindX (Some (Inl e)) k = Some (Inl e)" "bindX (Some (Inr x)) k = k x"
  "bindX (ret x) k = k x"
  by (simp_all add: bindX_def ret_def)

lemma guardX_simps [simp, res_simps]: "guardX True e r = r" "guardX False e r = Some (Inl e)"
  by (simp_all add: guardX_def)

lemma bindX_eq_ret: "bindX r k = Some (Inr y) \<longleftrightarrow> (\<exists>x. r = Some (Inr x) \<and> k x = Some (Inr y))"
  by (auto simp: bindX_def split: option.splits sum.splits)

lemma guardX_eq_ret: "guardX b e r = Some (Inr y) \<longleftrightarrow> b \<and> r = Some (Inr y)"
  by (cases b) auto

lemma bindX_mono [partial_function_mono]:
  assumes "mono_option B" and "\<And>y. mono_option (\<lambda>f. C y f)"
  shows "mono_option (\<lambda>f. bindX (B f) (\<lambda>y. C y f))"
proof -
  have "(\<lambda>f. bindX (B f) (\<lambda>y. C y f)) =
      (\<lambda>f. Option.bind (B f) (\<lambda>r. case r of Inl e \<Rightarrow> Some (Inl e) | Inr y \<Rightarrow> C y f))"
    by (rule ext) (simp add: bindX_def split: option.split sum.split)
  moreover have "mono_option (\<lambda>f. case r of Inl e \<Rightarrow> Some (Inl e) | Inr y \<Rightarrow> C y f)" for r
    using assms(2) by (cases r) (simp_all add: option.const_mono)
  ultimately show ?thesis using assms(1) by (simp add: bind_mono)
qed

lemma guardX_mono [partial_function_mono]:
  "mono_option B \<Longrightarrow> mono_option (\<lambda>f. guardX b e (B f))"
  by (cases b) (simp_all add: option.const_mono)

fun is_ok :: "'a res \<Rightarrow> bool" where
  "is_ok (Inl e) = False"
| "is_ok (Inr x) = True"

subsection \<open>Unsigned 64-bit arithmetic\<close>

definition uadd64 :: "nat \<Rightarrow> nat \<Rightarrow> nat" where
  "uadd64 a b = (a + b) mod 2 ^ 64"

definition usub64 :: "nat \<Rightarrow> nat \<Rightarrow> nat" where
  "usub64 a b = (a + (2 ^ 64 - b mod 2 ^ 64)) mod 2 ^ 64"

lemma uadd64_small: "a + b < 2 ^ 64 \<Longrightarrow> uadd64 a b = a + b"
  by (simp add: uadd64_def)

lemma usub64_ge: "b \<le> a \<Longrightarrow> a < 2 ^ 64 \<Longrightarrow> usub64 a b = a - b"
proof -
  assume ab: "b \<le> a" and a: "a < 2 ^ 64"
  have "usub64 a b = ((a - b) + 2 ^ 64) mod 2 ^ 64"
    using ab a by (simp add: usub64_def)
  also have "\<dots> = a - b"
    using a by (subst mod_add_self2) simp
  finally show ?thesis .
qed

lemma usub64_less: "a < b \<Longrightarrow> b < 2 ^ 64 \<Longrightarrow> usub64 a b = 2 ^ 64 - (b - a)"
  by (simp add: usub64_def)

lemma usub64_bound: "usub64 a b < 2 ^ 64"
  by (simp add: usub64_def)

text \<open>
  The test \<open>x - s \<le> d\<close> on unsigned operands is the closed-interval test \<open>s \<le> x \<le> s + d\<close>, as long as
  the interval itself does not wrap.
\<close>

lemma usub64_interval:
  assumes "x < 2 ^ 64" and "s + d < 2 ^ 64"
  shows "usub64 x s \<le> d \<longleftrightarrow> s \<le> x \<and> x \<le> s + d"
proof (cases "s \<le> x")
  case True
  then show ?thesis using assms by (auto simp: usub64_ge)
next
  case False
  then have "usub64 x s = 2 ^ 64 - (s - x)" using assms by (simp add: usub64_less)
  then show ?thesis using False assms by auto
qed

subsection \<open>Byte ranges of memory\<close>

definition inr :: "addr \<Rightarrow> nat \<Rightarrow> addr \<Rightarrow> bool" where
  "inr a n x \<longleftrightarrow> a \<le> x \<and> x < a + n"

definition rd :: "mem \<Rightarrow> addr \<Rightarrow> nat \<Rightarrow> byte list" where
  "rd m a n = map (\<lambda>i. m (a + i)) [0..<n]"

definition wr :: "mem \<Rightarrow> addr \<Rightarrow> byte list \<Rightarrow> mem" where
  "wr m a bs = (\<lambda>x. if inr a (length bs) x then bs ! (x - a) else m x)"

lemma length_rd [simp]: "length (rd m a n) = n"
  by (simp add: rd_def)

lemma nth_rd [simp]: "i < n \<Longrightarrow> rd m a n ! i = m (a + i)"
  by (simp add: rd_def)

lemma rd_0 [simp]: "rd m a 0 = []"
  by (simp add: rd_def)

lemma rd_eq_iff: "rd m a n = rd m' b n \<longleftrightarrow> (\<forall>i<n. m (a + i) = m' (b + i))"
  by (auto simp: list_eq_iff_nth_eq)

lemma rd_cong [mem_simps]: "(\<And>x. inr a n x \<Longrightarrow> m x = m' x) \<Longrightarrow> rd m a n = rd m' a n"
  by (simp add: rd_eq_iff inr_def)

lemma wr_apply_in: "inr a (length bs) x \<Longrightarrow> wr m a bs x = bs ! (x - a)"
  by (simp add: wr_def)

lemma wr_apply_out: "\<not> inr a (length bs) x \<Longrightarrow> wr m a bs x = m x"
  by (simp add: wr_def)

lemma wr_Nil [simp]: "wr m a [] = m"
  by (auto simp: wr_def inr_def fun_eq_iff)

lemma rd_wr_same [simp, mem_simps]: "length bs = n \<Longrightarrow> rd (wr m a bs) a n = bs"
  by (auto simp: list_eq_iff_nth_eq wr_def inr_def)

lemma rd_wr_disj [mem_simps]:
  "a + n \<le> b \<or> b + length bs \<le> a \<Longrightarrow> rd (wr m b bs) a n = rd m a n"
  by (rule rd_cong) (auto simp: wr_def inr_def)

lemma wr_rd_id [simp, mem_simps]: "wr m a (rd m a n) = m"
  by (auto simp: wr_def inr_def fun_eq_iff)

lemma rd_append: "rd m a (n + k) = rd m a n @ rd m (a + n) k"
  by (auto simp: list_eq_iff_nth_eq nth_append)

lemma take_rd: "k \<le> n \<Longrightarrow> take k (rd m a n) = rd m a k"
  by (auto simp: list_eq_iff_nth_eq)

lemma wr_append: "wr m a (xs @ ys) = wr (wr m a xs) (a + length xs) ys"
  by (auto simp: wr_def inr_def fun_eq_iff nth_append)

subsection \<open>Little-endian numbers\<close>

fun le_bytes :: "nat \<Rightarrow> nat \<Rightarrow> byte list" where
  "le_bytes 0 v = []"
| "le_bytes (Suc k) v = word_of_nat v # le_bytes k (v div 256)"

fun le_val :: "byte list \<Rightarrow> nat" where
  "le_val [] = 0"
| "le_val (b # bs) = unat b + 256 * le_val bs"

definition ldn :: "mem \<Rightarrow> addr \<Rightarrow> nat \<Rightarrow> nat" where
  "ldn m a k = le_val (rd m a k)"

lemma length_le_bytes [simp]: "length (le_bytes k v) = k"
  by (induction k v rule: le_bytes.induct) auto

lemma le_val_le_bytes [simp]: "le_val (le_bytes k v) = v mod 256 ^ k"
proof (induction k v rule: le_bytes.induct)
  case (1 v)
  then show ?case by simp
next
  case (2 k v)
  have "unat (word_of_nat v :: byte) = v mod 256" by (simp add: unat_of_nat)
  then show ?case using 2 by (simp add: mod_mult2_eq)
qed

lemma le_val_bound: "le_val bs < 256 ^ length bs"
proof (induction bs)
  case Nil
  then show ?case by simp
next
  case (Cons b bs)
  have "unat b < 256" using unsigned_less [of b] by simp
  then show ?case using Cons by simp
qed

lemma ldn_bound: "ldn m a k < 256 ^ k"
  using le_val_bound [of "rd m a k"] by (simp add: ldn_def)

lemma ldn_wr_same [simp, mem_simps]: "ldn (wr m a (le_bytes k v)) a k = v mod 256 ^ k"
  by (simp add: ldn_def)

lemma ldn_wr_disj [mem_simps]:
  "a + k \<le> b \<or> b + length bs \<le> a \<Longrightarrow> ldn (wr m b bs) a k = ldn m a k"
  by (simp add: ldn_def rd_wr_disj)

lemma ldn_cong: "(\<And>x. inr a k x \<Longrightarrow> m x = m' x) \<Longrightarrow> ldn m a k = ldn m' a k"
  by (simp add: ldn_def rd_cong [of a k m m'])

subsection \<open>Powers of two\<close>

fun flog2 :: "nat \<Rightarrow> nat" where
  "flog2 n = (if n < 2 then 0 else Suc (flog2 (n div 2)))"

declare flog2.simps [simp del]

lemma flog2_bounds: "0 < n \<Longrightarrow> 2 ^ flog2 n \<le> n \<and> n < 2 ^ Suc (flog2 n)"
proof (induction n rule: flog2.induct)
  case (1 n)
  show ?case
  proof (cases "n < 2")
    case True
    then show ?thesis using 1 by (simp add: flog2.simps [of n])
  next
    case False
    then have "2 ^ flog2 (n div 2) \<le> n div 2 \<and> n div 2 < 2 ^ Suc (flog2 (n div 2))" using 1 by simp
    then show ?thesis using False by (simp add: flog2.simps [of n]) linarith
  qed
qed

subsection \<open>Lists\<close>

lemma foldl_invariant:
  assumes "I s" and "\<And>s x. I s \<Longrightarrow> x \<in> set xs \<Longrightarrow> I (f s x)"
  shows "I (foldl f s xs)"
  using assms by (induction xs arbitrary: s) auto

subsection \<open>Characters\<close>

definition is_digit_char :: "char \<Rightarrow> bool" where
  "is_digit_char c \<longleftrightarrow> (let n = of_char c :: nat in 48 \<le> n \<and> n \<le> 57)"

definition is_space_char :: "char \<Rightarrow> bool" where
  "is_space_char c \<longleftrightarrow> (let n = of_char c :: nat in n = 32 \<or> (9 \<le> n \<and> n \<le> 13))"

definition dec_val :: "string \<Rightarrow> nat" where
  "dec_val ds = foldl (\<lambda>v c. v * 10 + (of_char c - 48)) 0 ds"

end
