(* ===== verification/PMem.thy ===== *)
theory PMem
  imports Prelude
begin

text \<open>
  The machine the library runs on.  \<open>cpu\<close> is what a load returns.  \<open>media\<close> is, for every byte, the
  set of values the persistence domain may hold if power fails now: a plain store adds its value,
  because the line may be written back at any later moment.  \<open>inflight\<close> marks the bytes whose line has
  been flushed or streamed and that the next drain makes durable.

  \<^verbatim>\<open>nvsl::PMemOps\<close> (the submodule vendor/cpp-common) is not part of the repository.  The library reaches
  it through three virtual calls, so it is a parameter, the record \<open>pmem_ops\<close>; \<open>pmem_ops_ok\<close> states the
  behaviour of flush, streaming write and drain that the code relies on: clwb works on 64-byte
  lines and sfence orders what was flushed before it.  \<open>clwb_ops\<close> is an instance.
\<close>

record mach =
  cpu :: mem
  media :: "nat \<Rightarrow> byte set"
  inflight :: "nat \<Rightarrow> bool"

subsection \<open>Loads and stores\<close>

definition store :: "addr \<Rightarrow> byte list \<Rightarrow> mach \<Rightarrow> mach" where
  "store a bs m =
     m\<lparr>cpu := wr (cpu m) a bs,
       media := (\<lambda>x. if inr a (length bs) x then insert (bs ! (x - a)) (media m x) else media m x),
       inflight := (\<lambda>x. inflight m x \<and> \<not> inr a (length bs) x)\<rparr>"

definition st64 :: "addr \<Rightarrow> nat \<Rightarrow> mach \<Rightarrow> mach" where
  "st64 a v = store a (le_bytes 8 v)"

definition ld64 :: "mach \<Rightarrow> addr \<Rightarrow> nat" where
  "ld64 m a = ldn (cpu m) a 8"

text \<open>\<^verbatim>\<open>real_memcpy\<close>, \<^verbatim>\<open>real_memmove\<close> and \<^verbatim>\<open>real_memset\<close> are the C library's.\<close>

definition c_memmove :: "addr \<Rightarrow> addr \<Rightarrow> nat \<Rightarrow> mach \<Rightarrow> mach" where
  "c_memmove dst src n m = store dst (rd (cpu m) src n) m"

definition c_memset :: "addr \<Rightarrow> byte \<Rightarrow> nat \<Rightarrow> mach \<Rightarrow> mach" where
  "c_memset s c n m = store s (replicate n c) m"

subsection \<open>The persistence primitives\<close>

record pmem_ops =
  po_flush :: "addr \<Rightarrow> nat \<Rightarrow> mach \<Rightarrow> mach"
  po_streaming_wr :: "addr \<Rightarrow> byte list \<Rightarrow> mach \<Rightarrow> mach"
  po_drain :: "mach \<Rightarrow> mach"

definition in_lines :: "addr \<Rightarrow> nat \<Rightarrow> addr \<Rightarrow> bool" where
  "in_lines a n x \<longleftrightarrow> 0 < n \<and> a div 64 \<le> x div 64 \<and> x div 64 \<le> (a + n - 1) div 64"

definition flush_ok :: "(addr \<Rightarrow> nat \<Rightarrow> mach \<Rightarrow> mach) \<Rightarrow> bool" where
  "flush_ok f \<longleftrightarrow> (\<forall>a n m. cpu (f a n m) = cpu m \<and> media (f a n m) = media m \<and>
     (\<forall>x. inflight m x \<or> in_lines a n x \<longrightarrow> inflight (f a n m) x))"

definition streaming_wr_ok :: "(addr \<Rightarrow> byte list \<Rightarrow> mach \<Rightarrow> mach) \<Rightarrow> bool" where
  "streaming_wr_ok f \<longleftrightarrow> (\<forall>d bs m. cpu (f d bs m) = wr (cpu m) d bs \<and>
     (\<forall>x. media (f d bs m) x =
        (if inr d (length bs) x then insert (bs ! (x - d)) (media m x) else media m x)) \<and>
     (\<forall>x. inflight m x \<or> inr d (length bs) x \<longrightarrow> inflight (f d bs m) x))"

definition drain_ok :: "(mach \<Rightarrow> mach) \<Rightarrow> bool" where
  "drain_ok f \<longleftrightarrow> (\<forall>m. cpu (f m) = cpu m \<and>
     (\<forall>x. media (f m) x = (if inflight m x then {cpu m x} else media m x)) \<and>
     (\<forall>x. inflight (f m) x \<longrightarrow> inflight m x))"

definition pmem_ops_ok :: "pmem_ops \<Rightarrow> bool" where
  "pmem_ops_ok ops \<longleftrightarrow> flush_ok (po_flush ops) \<and> streaming_wr_ok (po_streaming_wr ops) \<and>
     drain_ok (po_drain ops)"

definition clwb_flush :: "addr \<Rightarrow> nat \<Rightarrow> mach \<Rightarrow> mach" where
  "clwb_flush a n m = m\<lparr>inflight := (\<lambda>x. inflight m x \<or> in_lines a n x)\<rparr>"

definition clwb_streaming_wr :: "addr \<Rightarrow> byte list \<Rightarrow> mach \<Rightarrow> mach" where
  "clwb_streaming_wr d bs m =
     (store d bs m)\<lparr>inflight := (\<lambda>x. inflight m x \<or> inr d (length bs) x)\<rparr>"

definition clwb_drain :: "mach \<Rightarrow> mach" where
  "clwb_drain m = m\<lparr>media := (\<lambda>x. if inflight m x then {cpu m x} else media m x),
                    inflight := (\<lambda>x. False)\<rparr>"

definition clwb_ops :: pmem_ops where
  "clwb_ops = \<lparr>po_flush = clwb_flush, po_streaming_wr = clwb_streaming_wr, po_drain = clwb_drain\<rparr>"

subsection \<open>Durability\<close>

definition durable :: "mach \<Rightarrow> addr \<Rightarrow> bool" where
  "durable m x \<longleftrightarrow> media m x = {cpu m x}"

definition crash_image :: "mach \<Rightarrow> mem \<Rightarrow> bool" where
  "crash_image m im \<longleftrightarrow> (\<forall>x. im x \<in> media m x)"

lemma clwb_ops_ok: "pmem_ops_ok clwb_ops"
  by (auto simp: pmem_ops_ok_def clwb_ops_def flush_ok_def streaming_wr_ok_def drain_ok_def
      clwb_flush_def clwb_streaming_wr_def clwb_drain_def store_def)

lemma cpu_store [simp, mem_simps]: "cpu (store a bs m) = wr (cpu m) a bs"
  by (simp add: store_def)

lemma media_store: "media (store a bs m) x =
    (if inr a (length bs) x then insert (bs ! (x - a)) (media m x) else media m x)"
  by (simp add: store_def)

lemma inflight_store: "inflight (store a bs m) x \<longleftrightarrow> inflight m x \<and> \<not> inr a (length bs) x"
  by (simp add: store_def)

lemma cpu_st64 [simp, mem_simps]: "cpu (st64 a v m) = wr (cpu m) a (le_bytes 8 v)"
  by (simp add: st64_def)

lemma cpu_c_memmove [simp, mem_simps]: "cpu (c_memmove d s n m) = wr (cpu m) d (rd (cpu m) s n)"
  by (simp add: c_memmove_def)

lemma cpu_c_memset [simp, mem_simps]: "cpu (c_memset s c n m) = wr (cpu m) s (replicate n c)"
  by (simp add: c_memset_def)

lemma ld64_st64_same: "v < 2 ^ 64 \<Longrightarrow> ld64 (st64 a v m) a = v"
  by (simp add: ld64_def)

lemma ld64_st64_disj: "a + 8 \<le> b \<or> b + 8 \<le> a \<Longrightarrow> ld64 (st64 b v m) a = ld64 m a"
  by (simp add: ld64_def ldn_wr_disj)

lemma ld64_bound: "ld64 m a < 2 ^ 64"
  using ldn_bound [of "cpu m" a 8] by (simp add: ld64_def)

text \<open>What a client may use of the primitives, given that they behave.\<close>

lemma pmem_cpu:
  assumes "pmem_ops_ok ops"
  shows "cpu (po_flush ops a n m) = cpu m"
    and "cpu (po_drain ops m) = cpu m"
    and "cpu (po_streaming_wr ops d bs m) = wr (cpu m) d bs"
  using assms by (auto simp: pmem_ops_ok_def flush_ok_def drain_ok_def streaming_wr_ok_def)

lemma pmem_media:
  assumes "pmem_ops_ok ops"
  shows "media (po_flush ops a n m) = media m"
    and "media (po_drain ops m) x = (if inflight m x then {cpu m x} else media m x)"
    and "media (po_streaming_wr ops d bs m) x =
      (if inr d (length bs) x then insert (bs ! (x - d)) (media m x) else media m x)"
  using assms by (auto simp: pmem_ops_ok_def flush_ok_def drain_ok_def streaming_wr_ok_def)

lemma pmem_inflight:
  assumes "pmem_ops_ok ops"
  shows "inflight m x \<or> in_lines a n x \<Longrightarrow> inflight (po_flush ops a n m) x"
    and "inflight m x \<or> inr d (length bs) x \<Longrightarrow> inflight (po_streaming_wr ops d bs m) x"
  using assms by (auto simp: pmem_ops_ok_def flush_ok_def streaming_wr_ok_def)

lemma inr_in_lines: "inr a n x \<Longrightarrow> in_lines a n x"
  by (auto simp: inr_def in_lines_def intro: div_le_mono)

lemma durable_drain:
  "pmem_ops_ok ops \<Longrightarrow> inflight m x \<Longrightarrow> durable (po_drain ops m) x"
  by (simp add: durable_def pmem_cpu pmem_media)

lemma crash_image_durable: "crash_image m im \<Longrightarrow> durable m x \<Longrightarrow> im x = cpu m x"
  unfolding crash_image_def durable_def by (metis singletonD)

end
