(* ===== verification/JobQueues.thy ===== *)
theory JobQueues
  imports PMem
begin

text \<open>
  The two background workers: bgflush.cc, which flushes ranges that the library pushes, and libdsaemu.cc, which emulates a copy
  engine.  Both are a ring-less queue with a head, a tail and a worker thread that polls them.

  bgflush is modelled at the granularity of its shared-memory accesses, as a step relation of the client and the worker: a push stores
  the address, stores the length and increments the tail, and an iteration of the worker compares head and tail, takes the slot,
  flushes it and increments the head.  The lemmas follow which slots the worker takes.
\<close>

subsection \<open>bgflush\<close>

definition BGF_JOB_QUEUE_MAX_LEN :: nat where
  "BGF_JOB_QUEUE_MAX_LEN = 128"

record bgf_job_t =
  job_addr :: addr
  job_bytes :: nat

datatype push_pc = PIdle | PBytes bgf_job_t | PTail
datatype work_pc = WTest | WTake | WFlush nat | WHead

record bgflush =
  queue_head :: nat
  queue_tail :: nat
  job_queue :: "bgf_job_t list"
  bg_client :: push_pc
  bg_worker :: work_pc
  bg_mach :: mach
  bg_flushed :: "nat list"

definition bg_clear :: "bgflush \<Rightarrow> bgflush" where
  "bg_clear q = q\<lparr>queue_head := 0, queue_tail := 0\<rparr>"

definition bg_launch :: "bgflush \<Rightarrow> bgflush" where
  "bg_launch q = (bg_clear q)\<lparr>bg_worker := WTest\<rparr>"

definition bg_drained :: "bgflush \<Rightarrow> bool" where
  "bg_drained q \<longleftrightarrow> queue_head q = queue_tail q"

text \<open>A push by the client: the three assignments in order.  The slot is not checked against the length of the array.\<close>

definition push_addr :: "bgf_job_t \<Rightarrow> bgflush \<Rightarrow> bgflush res" where
  "push_addr j q =
     guardR (queue_tail q < length (job_queue q)) OutOfBounds
       (Inr (q\<lparr>job_queue := (job_queue q)[queue_tail q := (job_queue q ! queue_tail q)\<lparr>job_addr := job_addr j\<rparr>], bg_client := PBytes j\<rparr>))"

definition push_bytes :: "bgf_job_t \<Rightarrow> bgflush \<Rightarrow> bgflush res" where
  "push_bytes j q =
     guardR (queue_tail q < length (job_queue q)) OutOfBounds
       (Inr (q\<lparr>job_queue := (job_queue q)[queue_tail q := (job_queue q ! queue_tail q)\<lparr>job_bytes := job_bytes j\<rparr>], bg_client := PTail\<rparr>))"

definition push_tail :: "bgflush \<Rightarrow> bgflush" where
  "push_tail q = q\<lparr>queue_tail := uadd64 (queue_tail q) 1, bg_client := PIdle\<rparr>"

text \<open>An iteration of the worker.\<close>

definition work_test :: "bgflush \<Rightarrow> bgflush" where
  "work_test q = q\<lparr>bg_worker := (if queue_head q \<noteq> queue_tail q then WTake else WTest)\<rparr>"

definition work_take :: "bgflush \<Rightarrow> bgflush" where
  "work_take q = q\<lparr>bg_worker := WFlush (queue_tail q)\<rparr>"

definition work_flush :: "pmem_ops \<Rightarrow> nat \<Rightarrow> bgflush \<Rightarrow> bgflush res" where
  "work_flush ops i q =
     guardR (i < length (job_queue q)) OutOfBounds
       (Inr (q\<lparr>bg_mach := po_flush ops (job_addr (job_queue q ! i)) (job_bytes (job_queue q ! i)) (bg_mach q),
               bg_flushed := bg_flushed q @ [i], bg_worker := WHead\<rparr>))"

definition work_head :: "bgflush \<Rightarrow> bgflush" where
  "work_head q = q\<lparr>queue_head := uadd64 (queue_head q) 1, bg_worker := WTest\<rparr>"

inductive bg_step :: "pmem_ops \<Rightarrow> bgflush \<Rightarrow> bgflush \<Rightarrow> bool" for ops where
  client_addr: "bg_client q = PIdle \<Longrightarrow> push_addr j q = Inr q' \<Longrightarrow> bg_step ops q q'"
| client_bytes: "bg_client q = PBytes j \<Longrightarrow> push_bytes j q = Inr q' \<Longrightarrow> bg_step ops q q'"
| client_tail: "bg_client q = PTail \<Longrightarrow> bg_step ops q (push_tail q)"
| worker_test: "bg_worker q = WTest \<Longrightarrow> bg_step ops q (work_test q)"
| worker_take: "bg_worker q = WTake \<Longrightarrow> bg_step ops q (work_take q)"
| worker_flush: "bg_worker q = WFlush i \<Longrightarrow> work_flush ops i q = Inr q' \<Longrightarrow> bg_step ops q q'"
| worker_head: "bg_worker q = WHead \<Longrightarrow> bg_step ops q (work_head q)"

definition bg_reach :: "pmem_ops \<Rightarrow> bgflush \<Rightarrow> bgflush \<Rightarrow> bool" where
  "bg_reach ops = (bg_step ops)\<^sup>*\<^sup>*"

lemmas bg_op_defs = push_addr_def push_bytes_def push_tail_def work_test_def work_take_def work_flush_def work_head_def

subsection \<open>libdsaemu\<close>

definition QSIZE :: nat where
  "QSIZE = 1024"

record jobdesc_t =
  jd_src :: addr
  jd_dst :: addr
  jd_bytes :: nat
  jd_flags :: nat

record dsa =
  dsa_head :: nat
  dsa_tail :: nat
  dsa_queue :: "jobdesc_t list"
  dsa_mach :: mach

definition dsa_run_job :: "pmem_ops \<Rightarrow> jobdesc_t \<Rightarrow> mach \<Rightarrow> mach" where
  "dsa_run_job ops j m =
     (let m1 = c_memmove (jd_dst j) (jd_src j) (jd_bytes j) m;
          m2 = (if jd_flags j mod 2 = 1 then po_flush ops (jd_dst j) (jd_bytes j) m1 else m1)
      in if jd_flags j div 2 mod 2 = 1 then po_drain ops m2 else m2)"

definition dsa_logic_loop :: "pmem_ops \<Rightarrow> dsa \<Rightarrow> dsa res" where
  "dsa_logic_loop ops d =
     (if dsa_head d \<noteq> dsa_tail d
      then guardR (dsa_tail d < length (dsa_queue d)) OutOfBounds
        (Inr (d\<lparr>dsa_mach := dsa_run_job ops (dsa_queue d ! dsa_tail d) (dsa_mach d), dsa_head := uadd64 (dsa_head d) 1\<rparr>))
      else Inr d)"

definition libdsaemu_ctor :: "dsa \<Rightarrow> dsa" where
  "libdsaemu_ctor d = d\<lparr>dsa_queue := replicate QSIZE \<lparr>jd_src = 0, jd_dst = 0, jd_bytes = 0, jd_flags = 0\<rparr>, dsa_head := 0, dsa_tail := 0\<rparr>"

definition clear_queue :: "dsa \<Rightarrow> dsa" where
  "clear_queue d = d\<lparr>dsa_head := 0, dsa_tail := 0\<rparr>"

text \<open>A client of the copy engine, as in the example dummy.cc: the job goes to the slot at the head, and the head is incremented.\<close>

definition dsa_submit :: "jobdesc_t \<Rightarrow> dsa \<Rightarrow> dsa res" where
  "dsa_submit j d =
     guardR (dsa_head d < length (dsa_queue d)) OutOfBounds
       (Inr (d\<lparr>dsa_queue := (dsa_queue d)[dsa_head d := j], dsa_head := uadd64 (dsa_head d) 1\<rparr>))"

fun dsa_iterate :: "pmem_ops \<Rightarrow> nat \<Rightarrow> dsa \<Rightarrow> dsa res" where
  "dsa_iterate ops 0 d = Inr d"
| "dsa_iterate ops (Suc n) d = bindR (dsa_iterate ops n d) (dsa_logic_loop ops)"

subsection \<open>Which slots the worker takes\<close>

lemma bg_step_length: "bg_step ops q q' \<Longrightarrow> length (job_queue q') = length (job_queue q)"
  by (erule bg_step.cases) (auto simp: bg_op_defs guardR_eq_Inr)

text \<open>
  After launch the tail never passes the length of the array by more than one, and a worker that has seen the queue non-empty
  takes a slot that is not the first.
\<close>

definition bg_inv :: "bgflush \<Rightarrow> bool" where
  "bg_inv q \<longleftrightarrow> length (job_queue q) = BGF_JOB_QUEUE_MAX_LEN \<and> queue_tail q \<le> BGF_JOB_QUEUE_MAX_LEN \<and>
     (bg_client q \<noteq> PIdle \<longrightarrow> queue_tail q < BGF_JOB_QUEUE_MAX_LEN) \<and> queue_head q < 2 ^ 64 \<and>
     queue_head q + (if bg_worker q = WTest then 0 else 1) \<le> queue_tail q \<and>
     (\<forall>i. bg_worker q = WFlush i \<longrightarrow> 0 < i) \<and> (\<forall>i\<in>set (bg_flushed q). 0 < i)"

lemma bg_step_inv:
  assumes "bg_step ops q q'" and "bg_inv q"
  shows "bg_inv q'"
  using assms
  by (induction rule: bg_step.induct)
    (auto simp: bg_inv_def bg_op_defs guardR_eq_Inr uadd64_small BGF_JOB_QUEUE_MAX_LEN_def)

lemma bg_reach_inv: "bg_reach ops q q' \<Longrightarrow> bg_inv q \<Longrightarrow> bg_inv q'"
  unfolding bg_reach_def by (induction rule: rtranclp_induct) (auto intro: bg_step_inv)

text \<open>
  C21: the background flusher misses the first job.  In every interleaving of pushes and the worker, from the launch on, the worker
  takes a slot other than the first: it indexes the array with the tail, which is past the jobs that wait.  The head never passes
  the tail, so \<open>drain\<close> can return, with the job in the first slot never flushed.
\<close>

theorem bg_first_job_missed:
  assumes "length (job_queue q) = BGF_JOB_QUEUE_MAX_LEN" and "bg_client q = PIdle" and "bg_flushed q = []" and "bg_reach ops (bg_launch q) q'"
  shows "0 \<notin> set (bg_flushed q') \<and> queue_head q' \<le> queue_tail q' \<and> queue_tail q' \<le> BGF_JOB_QUEUE_MAX_LEN"
proof -
  have "bg_inv (bg_launch q)" using assms(1-3) by (simp add: bg_inv_def bg_launch_def bg_clear_def)
  then have "bg_inv q'" by (rule bg_reach_inv [OF assms(4)])
  then show ?thesis by (auto simp: bg_inv_def split: if_split_asm)
qed

definition idle_queue :: bgflush where
  "idle_queue = \<lparr>queue_head = 0, queue_tail = 0, job_queue = replicate BGF_JOB_QUEUE_MAX_LEN \<lparr>job_addr = 0, job_bytes = 0\<rparr>, bg_client = PIdle,
     bg_worker = WTest, bg_mach = \<lparr>cpu = (\<lambda>x. 0), media = (\<lambda>x. {0}), inflight = (\<lambda>x. False)\<rparr>, bg_flushed = []\<rparr>"

text \<open>One push and one iteration of the worker: the queue is drained, the job is in the first slot, and nothing is in flight.\<close>

definition pushed_queue :: bgflush where
  "pushed_queue = idle_queue\<lparr>queue_head := 1, queue_tail := 1, job_queue := (job_queue idle_queue)[0 := \<lparr>job_addr = 4096, job_bytes = 64\<rparr>],
     bg_mach := clwb_flush 0 0 (bg_mach idle_queue), bg_flushed := [1]\<rparr>"

lemma pushed_queue_reach: "bg_reach clwb_ops (bg_launch idle_queue) pushed_queue"
proof -
  let ?j = "\<lparr>job_addr = 4096, job_bytes = 64\<rparr>"
  define q0 where "q0 = bg_launch idle_queue"
  define q1 where "q1 = q0\<lparr>job_queue := (job_queue q0)[0 := (job_queue q0 ! 0)\<lparr>job_addr := 4096\<rparr>], bg_client := PBytes ?j\<rparr>"
  define q2 where "q2 = q1\<lparr>job_queue := (job_queue q1)[0 := (job_queue q1 ! 0)\<lparr>job_bytes := 64\<rparr>], bg_client := PTail\<rparr>"
  define q3 where "q3 = work_take (work_test (push_tail q2))"
  define q4 where "q4 = q3\<lparr>bg_mach := po_flush clwb_ops 0 0 (bg_mach q3), bg_flushed := [1], bg_worker := WHead\<rparr>"
  note d = q0_def q1_def q2_def q3_def q4_def bg_launch_def bg_clear_def idle_queue_def BGF_JOB_QUEUE_MAX_LEN_def bg_op_defs uadd64_def
  have s1: "bg_step clwb_ops q0 q1" by (rule client_addr [of _ ?j]) (simp_all add: d)
  have s2: "bg_step clwb_ops q1 q2" by (rule client_bytes [of _ ?j]) (simp_all add: d)
  have s3: "bg_step clwb_ops q2 (push_tail q2)" by (rule client_tail) (simp add: d)
  have s4: "bg_step clwb_ops (push_tail q2) (work_test (push_tail q2))" by (rule worker_test) (simp add: d)
  have s5: "bg_step clwb_ops (work_test (push_tail q2)) q3" unfolding q3_def by (rule worker_take) (simp add: d)
  have s6: "bg_step clwb_ops q3 q4" by (rule worker_flush [of _ 1]) (simp_all add: d)
  have s7: "bg_step clwb_ops q4 (work_head q4)" by (rule worker_head) (simp add: d)
  have e: "work_head q4 = pushed_queue" by (simp add: d pushed_queue_def clwb_ops_def)
  show ?thesis
    unfolding bg_reach_def using s1 s2 s3 s4 s5 s6 s7 [unfolded e] q0_def by (meson converse_rtranclp_into_rtranclp rtranclp.rtrancl_refl)
qed

theorem bg_first_job_missed_witness:
  "bg_reach clwb_ops (bg_launch idle_queue) pushed_queue \<and> bg_drained pushed_queue \<and> 0 \<notin> set (bg_flushed pushed_queue) \<and>
   job_queue pushed_queue ! 0 = \<lparr>job_addr = 4096, job_bytes = 64\<rparr> \<and> \<not> inflight (bg_mach pushed_queue) 4096"
proof -
  have "length (job_queue idle_queue) = BGF_JOB_QUEUE_MAX_LEN" "bg_client idle_queue = PIdle" "bg_flushed idle_queue = []"
    by (simp_all add: idle_queue_def)
  from bg_first_job_missed [OF this pushed_queue_reach] show ?thesis
    using pushed_queue_reach by (simp add: bg_drained_def pushed_queue_def idle_queue_def BGF_JOB_QUEUE_MAX_LEN_def clwb_flush_def in_lines_def)
qed

subsection \<open>The copy engine\<close>

lemma dsa_iterate_same:
  assumes "dsa_head d = h" and "h \<noteq> 0" and "dsa_tail d = 0" and "0 < length (dsa_queue d)" and "h + n < 2 ^ 64"
  shows "\<exists>m. dsa_iterate ops n d = Inr (d\<lparr>dsa_head := h + n, dsa_mach := m\<rparr>) \<and>
    m = ((dsa_run_job ops (dsa_queue d ! 0)) ^^ n) (dsa_mach d)"
  using assms(5)
proof (induction n)
  case 0
  then show ?case using assms(1) by simp
next
  case (Suc n)
  then show ?case using assms(2-4) by (auto simp: dsa_logic_loop_def uadd64_small)
qed

text \<open>
  C38: the copy engine runs the first job it is given, and then runs it again and again.  The worker increments the index the client
  uses to insert and not the one it reads from, so after any number of iterations the queue is not empty, and the job it
  would run next is still the first.
\<close>

theorem dsa_first_job_repeats:
  assumes "dsa_submit j (libdsaemu_ctor d) = Inr d1" and "n + 1 < 2 ^ 64"
  shows "\<exists>d2. dsa_iterate ops n d1 = Inr d2 \<and> dsa_mach d2 = ((dsa_run_job ops j) ^^ n) (dsa_mach d) \<and> dsa_head d2 = n + 1 \<and>
    dsa_head d2 \<noteq> dsa_tail d2 \<and> dsa_queue d2 ! dsa_tail d2 = j"
proof -
  have d1: "dsa_head d1 = 1" "dsa_tail d1 = 0" "dsa_queue d1 = (replicate QSIZE \<lparr>jd_src = 0, jd_dst = 0, jd_bytes = 0, jd_flags = 0\<rparr>)[0 := j]"
    "dsa_mach d1 = dsa_mach d"
    using assms(1) by (auto simp: dsa_submit_def libdsaemu_ctor_def guardR_eq_Inr uadd64_def)
  have q: "0 < length (dsa_queue d1)" "dsa_queue d1 ! 0 = j" by (simp_all add: d1(3) QSIZE_def)
  obtain m where "dsa_iterate ops n d1 = Inr (d1\<lparr>dsa_head := 1 + n, dsa_mach := m\<rparr>)" "m = ((dsa_run_job ops j) ^^ n) (dsa_mach d)"
    using dsa_iterate_same [OF d1(1) _ d1(2) q(1), of n ops] assms(2) q(2) d1(4) by auto
  then show ?thesis using d1(2) q(2) by simp
qed

definition demo_dsa :: dsa where
  "demo_dsa = \<lparr>dsa_head = 0, dsa_tail = 0, dsa_queue = [], dsa_mach = store 4096 [35] \<lparr>cpu = (\<lambda>x. 0), media = (\<lambda>x. {0}), inflight = (\<lambda>x. False)\<rparr>\<rparr>"

theorem dsa_first_job_repeats_witness:
  "\<exists>d1 d2. dsa_submit \<lparr>jd_src = 4096, jd_dst = 8192, jd_bytes = 1, jd_flags = 0\<rparr> (libdsaemu_ctor demo_dsa) = Inr d1 \<and>
     dsa_iterate clwb_ops 3 d1 = Inr d2 \<and> cpu (dsa_mach d2) 8192 = 35 \<and> dsa_head d2 \<noteq> dsa_tail d2"
proof -
  let ?j = "\<lparr>jd_src = 4096, jd_dst = 8192, jd_bytes = 1, jd_flags = 0\<rparr>"
  obtain d1 where d1: "dsa_submit ?j (libdsaemu_ctor demo_dsa) = Inr d1" by (simp add: dsa_submit_def libdsaemu_ctor_def QSIZE_def)
  have r: "cpu (((dsa_run_job clwb_ops ?j) ^^ 3) (dsa_mach demo_dsa)) 8192 = 35"
    by (simp add: numeral_3_eq_3 dsa_run_job_def Let_def demo_dsa_def wr_def rd_def inr_def)
  then show ?thesis using d1 dsa_first_job_repeats [OF d1, of 3 clwb_ops] by auto
qed

end
