(* ===== verification/BTree.thy ===== *)
theory BTree
  imports Prelude
begin

text \<open>
  The B-tree of the map example (src/src/examples/btree/btree.cc and btree.hh): nodes of seven items and
  eight child pointers in the memory of a \<open>managed_mapped_file\<close>. The nodes live in an explicit store from
  addresses to node records, because the code updates a node, its parent and its siblings through
  pointers. \<open>tls_res->allocate\<close> is Boost code: it is the parameter \<open>al\<close>, which picks the address and the
  contents of the block it hands out from the blocks in use. The recursive members follow child pointers,
  so they are partial functions whose value is \<open>None\<close> when the pointers have a cycle.
\<close>

section \<open>The B-tree example\<close>

subsection \<open>Nodes\<close>

definition BTREE_ORDER :: nat where
  "BTREE_ORDER = 8"

definition BTREE_MIN :: nat where
  "BTREE_MIN = BTREE_ORDER div 2 - 1"

record btree_node_item_t =
  ikey :: nat
  ival :: nat

record btree_node_t =
  ncount :: nat
  items :: "btree_node_item_t list"
  children :: "nat list"

record btree_t =
  root :: nat
  nodes :: "nat \<Rightarrow> btree_node_t option"

type_synonym node_alloc = "(nat \<Rightarrow> btree_node_t option) \<Rightarrow> (nat \<times> btree_node_t) option"

definition zero_item :: btree_node_item_t where
  "zero_item = \<lparr>ikey = 0, ival = 0\<rparr>"

definition node_init :: "btree_node_t \<Rightarrow> btree_node_t" where
  "node_init nd = nd\<lparr>ncount := 0\<rparr>"

definition set_item :: "nat \<Rightarrow> btree_node_item_t \<Rightarrow> btree_node_t \<Rightarrow> btree_node_t res" where
  "set_item pos it nd =
     guardR (pos < BTREE_ORDER - 1) OutOfBounds
       (Inr (nd\<lparr>items := (items nd)[pos := it], ncount := uadd64 (ncount nd) 1\<rparr>))"

definition clear_item :: "nat \<Rightarrow> btree_node_t \<Rightarrow> btree_node_t res" where
  "clear_item pos nd =
     guardR (pos < BTREE_ORDER - 1) OutOfBounds (Inr (nd\<lparr>items := (items nd)[pos := zero_item]\<rparr>))"

text \<open>
  \<open>arr_move\<close> is a \<open>memmove\<close> of \<open>n\<close> elements inside one array; \<open>arr_copy\<close> copies from another one.
  The leaf case of the removal reads one item past the array when the leaf is full. Those bytes are
  the first two child pointers, which follow the items in the struct.
\<close>

definition arr_copy :: "nat \<Rightarrow> nat \<Rightarrow> nat \<Rightarrow> 'a list \<Rightarrow> 'a list \<Rightarrow> 'a list res" where
  "arr_copy dst src n ys xs =
     guardR (dst + n \<le> length xs \<and> src + n \<le> length ys) OutOfBounds
       (Inr (take dst xs @ take n (drop src ys) @ drop (dst + n) xs))"

definition arr_move :: "nat \<Rightarrow> nat \<Rightarrow> nat \<Rightarrow> 'a list \<Rightarrow> 'a list res" where
  "arr_move dst src n xs = arr_copy dst src n xs xs"

definition items_past :: "btree_node_t \<Rightarrow> btree_node_item_t list" where
  "items_past nd = items nd @ [\<lparr>ikey = children nd ! 0, ival = children nd ! 1\<rparr>]"

subsection \<open>The store of nodes\<close>

definition node_at :: "btree_t \<Rightarrow> nat \<Rightarrow> btree_node_t res" where
  "node_at s p = (case nodes s p of None \<Rightarrow> Inl NullDeref | Some nd \<Rightarrow> Inr nd)"

definition put_node :: "nat \<Rightarrow> btree_node_t \<Rightarrow> btree_t \<Rightarrow> btree_t" where
  "put_node p nd s = s\<lparr>nodes := (nodes s)(p \<mapsto> nd)\<rparr>"

definition upd_node :: "nat \<Rightarrow> (btree_node_t \<Rightarrow> btree_node_t res) \<Rightarrow> btree_t \<Rightarrow> btree_t res" where
  "upd_node p f s = bindR (node_at s p) (\<lambda>nd. bindR (f nd) (\<lambda>nd'. Inr (put_node p nd' s)))"

definition alloc_node :: "node_alloc \<Rightarrow> btree_t \<Rightarrow> (nat \<times> btree_t) res" where
  "alloc_node al s =
     (case al (nodes s) of None \<Rightarrow> Inl Uncaught | Some (p, nd) \<Rightarrow> Inr (p, put_node p nd s))"

definition dealloc_node :: "nat \<Rightarrow> btree_t \<Rightarrow> btree_t" where
  "dealloc_node p s = s\<lparr>nodes := (nodes s)(p := None)\<rparr>"

definition btree_init :: "btree_t \<Rightarrow> btree_t" where
  "btree_init s = s\<lparr>root := 0\<rparr>"

subsection \<open>Clearing\<close>

text \<open>The argument \<open>i\<close> is the loop counter: \<open>clear_node\<close> of the source is \<open>clear_node p 0\<close>.\<close>

partial_function (option) clear_node :: "nat \<Rightarrow> nat \<Rightarrow> btree_t \<Rightarrow> btree_t run" where
  "clear_node p i s =
     (if p = 0 then ret s
      else bindX (Some (node_at s p)) (\<lambda>nd.
        if i < ncount nd
        then guardX (i < BTREE_ORDER) OutOfBounds
               (bindX (clear_node (children nd ! i) 0 s) (\<lambda>s'. clear_node p (Suc i) s'))
        else ret (dealloc_node p s)))"

definition btree_clear :: "btree_t \<Rightarrow> (int \<times> btree_t) run" where
  "btree_clear s = bindX (clear_node (root s) 0 s) (\<lambda>s'. ret (0, s'\<lparr>root := 0\<rparr>))"

subsection \<open>Insertion\<close>

definition insert_node_empty_tree ::
  "node_alloc \<Rightarrow> btree_node_item_t \<Rightarrow> btree_t \<Rightarrow> btree_t res" where
  "insert_node_empty_tree al it s =
     bindR (if root s = 0
            then bindR (alloc_node al s) (\<lambda>(p, s'). Inr (s'\<lparr>root := p\<rparr>))
            else Inr s)
       (\<lambda>s. upd_node (root s) (\<lambda>nd. set_item 0 it (node_init nd)) s)"

definition insert_node ::
  "nat \<Rightarrow> nat \<Rightarrow> btree_node_item_t \<Rightarrow> nat \<Rightarrow> nat \<Rightarrow> btree_t \<Rightarrow> btree_t res" where
  "insert_node p pos it left right s =
     upd_node p (\<lambda>nd.
       guardR (pos < BTREE_ORDER - 1) OutOfBounds
         (bindR (if ikey (items nd ! pos) \<noteq> 0
                 then bindR (arr_move (pos + 1) pos (BTREE_ORDER - 2 - pos) (items nd)) (\<lambda>its.
                      bindR (arr_move (pos + 1) pos (BTREE_ORDER - 1 - pos) (children nd)) (\<lambda>cs.
                        Inr (nd\<lparr>items := its, children := cs\<rparr>)))
                 else Inr nd)
            (\<lambda>nd. set_item pos it (nd\<lparr>children := (children nd)[pos := left, pos + 1 := right]\<rparr>)))) s"

definition split_step ::
  "nat \<Rightarrow> btree_node_t \<times> btree_node_t \<Rightarrow> btree_node_t \<times> btree_node_t" where
  "split_step i nr =
     (let nd = fst nr; rt = snd nr; c = BTREE_ORDER div 2;
          rt1 = (if i \<noteq> BTREE_ORDER - 1
                 then rt\<lparr>items := (items rt)[ncount rt := items nd ! i], ncount := ncount rt + 1\<rparr>
                 else rt);
          nd1 = (if i \<noteq> BTREE_ORDER - 1 then nd\<lparr>items := (items nd)[i := zero_item]\<rparr> else nd)
      in (nd1\<lparr>children := (children nd1)[i := 0]\<rparr>,
          rt1\<lparr>children := (children rt1)[i - c := children nd1 ! i]\<rparr>))"

definition split_node ::
  "node_alloc \<Rightarrow> nat \<Rightarrow> btree_t \<Rightarrow> (nat \<times> btree_node_item_t \<times> btree_t) res" where
  "split_node al p s =
     bindR (alloc_node al s) (\<lambda>(q, s).
     bindR (upd_node q (\<lambda>rt. Inr (node_init rt)) s) (\<lambda>s.
     bindR (node_at s p) (\<lambda>nd.
     let c = BTREE_ORDER div 2; it = items nd ! (c - 1) in
     bindR (clear_item (c - 1) nd) (\<lambda>nd.
     bindR (node_at s q) (\<lambda>rt.
     let (nd', rt') = fold split_step [c..<BTREE_ORDER] (nd, rt)
     in Inr (q, it, put_node p (nd'\<lparr>ncount := c - 1\<rparr>) (put_node q rt' s)))))))"

text \<open>
  \<open>split_full\<close> is the head of \<open>find_dest_node\<close>, which splits a full node and selects the node to go on
  with; \<open>dest_pos\<close> is its loop, which looks for the first slot to the right of the key.
\<close>

definition split_full ::
  "node_alloc \<Rightarrow> nat \<Rightarrow> nat \<Rightarrow> nat \<Rightarrow> nat \<Rightarrow> btree_t \<Rightarrow> (nat \<times> btree_t) res" where
  "split_full al p parent key pos s =
     bindR (node_at s p) (\<lambda>nd.
     if ncount nd = BTREE_ORDER - 1
     then bindR (split_node al p s) (\<lambda>(right, m, s).
       if parent \<noteq> 0
       then bindR (insert_node parent pos m p right s) (\<lambda>s.
              Inr (if key > ikey m then right else p, s))
       else bindR (alloc_node al s) (\<lambda>(up, s).
            bindR (upd_node up (\<lambda>nd. Inr (nd\<lparr>ncount := 1, items := (items nd)[0 := m],
                                           children := (children nd)[0 := p, 1 := right]\<rparr>)) s) (\<lambda>s.
              Inr (up, s\<lparr>root := up\<rparr>))))
     else Inr (p, s))"

fun dest_pos :: "btree_node_t \<Rightarrow> nat \<Rightarrow> nat list \<Rightarrow> nat option" where
  "dest_pos nd key [] = None"
| "dest_pos nd key (i # js) =
     (if ncount nd = i \<or> ikey (items nd ! i) > key then Some i else dest_pos nd key js)"

partial_function (option) find_dest_node ::
  "node_alloc \<Rightarrow> nat \<Rightarrow> nat \<Rightarrow> nat \<Rightarrow> nat \<Rightarrow> btree_t \<Rightarrow> (nat \<times> nat \<times> btree_t) run" where
  "find_dest_node al p parent key pos s =
     bindX (Some (split_full al p parent key pos s)) (\<lambda>ps.
     bindX (Some (node_at (snd ps) (fst ps))) (\<lambda>nd.
     case dest_pos nd key [0..<BTREE_ORDER - 1] of
       Some i \<Rightarrow>
         if children nd ! i = 0 then ret (fst ps, i, snd ps)
         else find_dest_node al (children nd ! i) (fst ps) key i (snd ps)
     | None \<Rightarrow>
         find_dest_node al (children nd ! (BTREE_ORDER - 1)) (fst ps) key (BTREE_ORDER - 2) (snd ps)))"

definition insert_item :: "nat \<Rightarrow> nat \<Rightarrow> btree_node_item_t \<Rightarrow> btree_t \<Rightarrow> btree_t res" where
  "insert_item p pos it s =
     upd_node p (\<lambda>nd.
       guardR (pos < BTREE_ORDER - 1) OutOfBounds
         (bindR (if ikey (items nd ! pos) \<noteq> 0
                 then bindR (arr_move (pos + 1) pos (BTREE_ORDER - 2 - pos) (items nd)) (\<lambda>its.
                        Inr (nd\<lparr>items := its\<rparr>))
                 else Inr nd)
            (set_item pos it))) s"

definition is_empty :: "btree_t \<Rightarrow> bool res" where
  "is_empty s =
     (if root s = 0 then Inr True else bindR (node_at s (root s)) (\<lambda>nd. Inr (ncount nd = 0)))"

definition btree_insert :: "node_alloc \<Rightarrow> nat \<Rightarrow> nat \<Rightarrow> btree_t \<Rightarrow> (int \<times> btree_t) run" where
  "btree_insert al key val s =
     (let it = \<lparr>ikey = key, ival = val\<rparr> in
      bindX (Some (is_empty s)) (\<lambda>e.
      if e
      then bindX (Some (insert_node_empty_tree al it s)) (\<lambda>s. ret (0, s))
      else bindX (find_dest_node al (root s) 0 key 0 s) (\<lambda>(dest, pos, s).
           bindX (Some (insert_item dest pos it s)) (\<lambda>s. ret (0, s)))))"

subsection \<open>Removal\<close>

definition rotate_right :: "nat \<Rightarrow> nat \<Rightarrow> nat \<Rightarrow> nat \<Rightarrow> btree_t \<Rightarrow> btree_t res" where
  "rotate_right rsb p parent pos s =
     bindR (node_at s parent) (\<lambda>pn.
     guardR (pos < BTREE_ORDER - 1) OutOfBounds
     (bindR (node_at s p) (\<lambda>nd.
      bindR (insert_item p (ncount nd) (items pn ! pos) s) (\<lambda>s.
      bindR (node_at s rsb) (\<lambda>rn.
      bindR (upd_node parent (\<lambda>pn. Inr (pn\<lparr>items := (items pn)[pos := items rn ! 0]\<rparr>)) s) (\<lambda>s.
      bindR (upd_node p (\<lambda>nd. guardR (ncount nd < BTREE_ORDER) OutOfBounds
               (Inr (nd\<lparr>children := (children nd)[ncount nd := children rn ! 0]\<rparr>))) s) (\<lambda>s.
      upd_node rsb (\<lambda>rn.
        let c = usub64 (ncount rn) 1 in
        bindR (arr_move 0 1 c (items rn)) (\<lambda>its.
        bindR (arr_move 0 1 (c + 1) (children rn)) (\<lambda>cs.
          Inr (rn\<lparr>ncount := c, items := its, children := cs\<rparr>)))) s)))))))"

definition rotate_left :: "nat \<Rightarrow> nat \<Rightarrow> nat \<Rightarrow> nat \<Rightarrow> btree_t \<Rightarrow> btree_t res" where
  "rotate_left lsb p parent pos s =
     bindR (node_at s parent) (\<lambda>pn.
     guardR (usub64 pos 1 < BTREE_ORDER - 1) OutOfBounds
     (bindR (insert_item p 0 (items pn ! usub64 pos 1) s) (\<lambda>s.
      bindR (node_at s lsb) (\<lambda>ln.
      guardR (usub64 (ncount ln) 1 < BTREE_ORDER - 1) OutOfBounds
      (bindR (upd_node parent (\<lambda>pn. Inr (pn\<lparr>items :=
               (items pn)[usub64 pos 1 := items ln ! usub64 (ncount ln) 1]\<rparr>)) s) (\<lambda>s.
       bindR (upd_node p (\<lambda>nd. bindR (arr_move 1 0 (ncount nd) (children nd)) (\<lambda>cs.
               Inr (nd\<lparr>children := cs[0 := children ln ! ncount ln]\<rparr>))) s) (\<lambda>s.
       upd_node lsb (\<lambda>ln. Inr (ln\<lparr>ncount := usub64 (ncount ln) 1\<rparr>)) s)))))))"

text \<open>
  When the parent is full, the merge moves one child pointer more than the array holds: \<open>past\<close> is the word
  behind the node at an address.
\<close>

definition merge_nodes :: "(nat \<Rightarrow> nat) \<Rightarrow> nat \<Rightarrow> nat \<Rightarrow> nat \<Rightarrow> nat \<Rightarrow> btree_t \<Rightarrow> btree_t res" where
  "merge_nodes past rn p parent pos s =
     bindR (node_at s parent) (\<lambda>pn.
     guardR (pos < BTREE_ORDER - 1) OutOfBounds
     (bindR (upd_node p (\<lambda>nd. set_item (ncount nd) (items pn ! pos) nd) s) (\<lambda>s.
      bindR (node_at s rn) (\<lambda>rd.
      bindR (upd_node p (\<lambda>nd.
        bindR (arr_copy (ncount nd) 0 (ncount rd) (items rd) (items nd)) (\<lambda>its.
        bindR (arr_copy (ncount nd) 0 (ncount rd + 1) (children rd) (children nd)) (\<lambda>cs.
          Inr (nd\<lparr>items := its, children := cs, ncount := uadd64 (ncount nd) (ncount rd)\<rparr>)))) s) (\<lambda>s.
      bindR (upd_node parent (\<lambda>pn.
        let c = usub64 (ncount pn) 1 in
        bindR (arr_move pos (pos + 1) (usub64 c pos) (items pn)) (\<lambda>its.
        bindR (arr_copy (pos + 1) (pos + 2) (uadd64 (usub64 c pos) 1) (children pn @ [past parent]) (children pn)) (\<lambda>cs.
          Inr (pn\<lparr>ncount := c, items := its, children := cs\<rparr>)))) (dealloc_node rn s)) (\<lambda>s.
      bindR (node_at s parent) (\<lambda>pn.
        Inr (if ncount pn = 0 \<and> parent = root s
             then (dealloc_node (root s) s)\<lparr>root := p\<rparr> else s))))))))"

definition rebalance :: "(nat \<Rightarrow> nat) \<Rightarrow> nat \<Rightarrow> nat \<Rightarrow> nat \<Rightarrow> btree_t \<Rightarrow> btree_t res" where
  "rebalance past p parent pos s =
     bindR (node_at s parent) (\<lambda>pn.
     guardR (pos \<le> BTREE_ORDER) OutOfBounds
     (let rsb = (if pos \<ge> ncount pn then 0 else children pn ! (pos + 1));
          lsb = (if pos = 0 then 0 else children pn ! (pos - 1)) in
      bindR (if rsb = 0 then Inr 0 else bindR (node_at s rsb) (\<lambda>rd. Inr (ncount rd))) (\<lambda>rc.
      if rsb \<noteq> 0 \<and> rc > BTREE_MIN then rotate_right rsb p parent pos s
      else bindR (if lsb = 0 then Inr 0 else bindR (node_at s lsb) (\<lambda>ld. Inr (ncount ld))) (\<lambda>lc.
      if lsb \<noteq> 0 \<and> lc > BTREE_MIN then rotate_left lsb p parent pos s
      else if rsb = 0 then merge_nodes past p lsb parent (usub64 pos 1) s
      else merge_nodes past rsb p parent pos s))))"

partial_function (option) get_leftmost_leaf :: "nat \<Rightarrow> nat \<Rightarrow> btree_t \<Rightarrow> (nat \<times> nat) run" where
  "get_leftmost_leaf p parent s =
     bindX (Some (node_at s p)) (\<lambda>nd.
     if children nd ! 0 = 0 then ret (p, parent) else get_leftmost_leaf (children nd ! 0) p s)"

partial_function (option) remove_from_node :: "(nat \<Rightarrow> nat) \<Rightarrow> nat \<Rightarrow> nat \<Rightarrow> nat \<Rightarrow> btree_t \<Rightarrow> btree_t run" where
  "remove_from_node past p parent pos s =
     bindX (Some (node_at s p)) (\<lambda>nd.
     guardX (pos < BTREE_ORDER - 1) OutOfBounds
     (if children nd ! 0 = 0
      then Some (upd_node p (\<lambda>nd.
             bindR (if ncount nd = 1 \<or> pos = BTREE_ORDER - 2 then clear_item pos nd
                    else bindR (arr_copy pos (pos + 1) (usub64 (ncount nd) pos) (items_past nd) (items nd))
                           (\<lambda>its. Inr (nd\<lparr>items := its\<rparr>)))
               (\<lambda>nd. Inr (nd\<lparr>ncount := usub64 (ncount nd) 1\<rparr>))) s)
      else bindX (get_leftmost_leaf (children nd ! (pos + 1)) p s) (\<lambda>l.
           bindX (Some (node_at s (fst l))) (\<lambda>ln.
           bindX (Some (upd_node p (\<lambda>nd. Inr (nd\<lparr>items := (items nd)[pos := items ln ! 0]\<rparr>)) s)) (\<lambda>s.
           bindX (remove_from_node past (fst l) (snd l) 0 s) (\<lambda>s.
           bindX (Some (node_at s (fst l))) (\<lambda>ln.
             if ncount ln < BTREE_MIN
             then Some (rebalance past (fst l) (snd l) (if snd l = p then pos + 1 else 0) s)
             else ret s)))))))"

text \<open>
  The loops of the removal, \<open>get_in_node\<close> and \<open>lookup_in_node\<close> stop at the first slot that holds the key
  or whose child can hold it.
\<close>

definition node_contains_item :: "btree_node_t \<Rightarrow> nat \<Rightarrow> nat \<Rightarrow> bool" where
  "node_contains_item nd i key \<longleftrightarrow> i \<noteq> ncount nd \<and> ikey (items nd ! i) = key"

definition node_child_can_contain_item :: "btree_node_t \<Rightarrow> nat \<Rightarrow> nat \<Rightarrow> bool" where
  "node_child_can_contain_item nd i key \<longleftrightarrow>
     (i = ncount nd \<or> ikey (items nd ! i) > key) \<and> children nd ! i \<noteq> 0"

datatype slot = Hit nat | Down nat | Miss

fun scan_node :: "btree_node_t \<Rightarrow> nat \<Rightarrow> nat list \<Rightarrow> slot" where
  "scan_node nd key [] = Miss"
| "scan_node nd key (i # js) =
     (if node_contains_item nd i key then Hit i
      else if node_child_can_contain_item nd i key then Down i
      else scan_node nd key js)"

definition node_slot :: "btree_node_t \<Rightarrow> nat \<Rightarrow> slot res" where
  "node_slot nd key =
     guardR (ncount nd < BTREE_ORDER) OutOfBounds (Inr (scan_node nd key [0..<Suc (ncount nd)]))"

partial_function (option) remove_item ::
  "(nat \<Rightarrow> nat) \<Rightarrow> nat \<Rightarrow> nat \<Rightarrow> nat \<Rightarrow> nat \<Rightarrow> btree_t \<Rightarrow> (nat \<times> btree_t) run" where
  "remove_item past p parent key pos s =
     bindX (Some (node_at s p)) (\<lambda>nd.
     bindX (Some (node_slot nd key)) (\<lambda>sl.
     bindX (case sl of
              Hit i \<Rightarrow> bindX (remove_from_node past p parent i s) (\<lambda>s. ret (ival (items nd ! i), s))
            | Down i \<Rightarrow> remove_item past (children nd ! i) p key i s
            | Miss \<Rightarrow> ret (0, s)) (\<lambda>rs.
     if parent \<noteq> 0
     then bindX (Some (node_at (snd rs) p)) (\<lambda>nd.
            if ncount nd < BTREE_MIN
            then bindX (Some (rebalance past p parent pos (snd rs))) (\<lambda>s. ret (fst rs, s))
            else ret rs)
     else ret rs)))"

definition btree_remove :: "(nat \<Rightarrow> nat) \<Rightarrow> nat \<Rightarrow> btree_t \<Rightarrow> (nat \<times> btree_t) run" where
  "btree_remove past key s = remove_item past (root s) 0 key 0 s"

subsection \<open>Queries\<close>

partial_function (option) get_in_node :: "nat \<Rightarrow> nat \<Rightarrow> btree_t \<Rightarrow> nat run" where
  "get_in_node p key s =
     bindX (Some (node_at s p)) (\<lambda>nd.
     bindX (Some (node_slot nd key)) (\<lambda>sl.
     case sl of
       Hit i \<Rightarrow> ret (ival (items nd ! i))
     | Down i \<Rightarrow> get_in_node (children nd ! i) key s
     | Miss \<Rightarrow> ret 0))"

definition btree_get :: "nat \<Rightarrow> btree_t \<Rightarrow> nat run" where
  "btree_get key s = (if root s = 0 then ret 0 else get_in_node (root s) key s)"

partial_function (option) lookup_in_node :: "nat \<Rightarrow> nat \<Rightarrow> btree_t \<Rightarrow> int run" where
  "lookup_in_node p key s =
     bindX (Some (node_at s p)) (\<lambda>nd.
     bindX (Some (node_slot nd key)) (\<lambda>sl.
     case sl of
       Hit i \<Rightarrow> ret 1
     | Down i \<Rightarrow> lookup_in_node (children nd ! i) key s
     | Miss \<Rightarrow> ret 0))"

definition btree_map_lookup :: "nat \<Rightarrow> btree_t \<Rightarrow> int run" where
  "btree_map_lookup key s = (if root s = 0 then ret 0 else lookup_in_node (root s) key s)"

text \<open>
  The callback gets the key, the value and the state behind its \<open>arg\<close>; \<open>i\<close> is the loop counter.
\<close>

partial_function (option) foreach_node ::
  "(nat \<Rightarrow> nat \<Rightarrow> 'a \<Rightarrow> int \<times> 'a) \<Rightarrow> nat \<Rightarrow> nat \<Rightarrow> btree_t \<Rightarrow> 'a \<Rightarrow> (int \<times> 'a) run" where
  "foreach_node cb p i s arg =
     (if p = 0 then ret (0, arg)
      else bindX (Some (node_at s p)) (\<lambda>nd.
        if i \<le> ncount nd
        then guardX (i < BTREE_ORDER) OutOfBounds
          (bindX (foreach_node cb (children nd ! i) 0 s arg) (\<lambda>ra.
           if fst ra \<noteq> 0 then ret (1, snd ra)
           else if i \<noteq> ncount nd \<and> ikey (items nd ! i) \<noteq> 0
           then (let rb = cb (ikey (items nd ! i)) (ival (items nd ! i)) (snd ra)
                 in if fst rb \<noteq> 0 then ret (1, snd rb) else foreach_node cb p (Suc i) s (snd rb))
           else foreach_node cb p (Suc i) s (snd ra)))
        else ret (0, arg)))"

definition btree_foreach ::
  "(nat \<Rightarrow> nat \<Rightarrow> 'a \<Rightarrow> int \<times> 'a) \<Rightarrow> btree_t \<Rightarrow> 'a \<Rightarrow> (int \<times> 'a) run" where
  "btree_foreach cb s arg = foreach_node cb (root s) 0 s arg"

end
