(* ===== verification/BTreeInv.thy ===== *)
theory BTreeInv
  imports BTree
begin

text \<open>
  The trees the B-tree of BTree stands for, and the correctness of its insertion and queries. A \<open>bt\<close> is
  a tree with the address of every node; \<open>rep\<close> says that a store of nodes holds it, \<open>bt_shape\<close> that all
  leaves are equally deep and the nodes neither too full nor too empty, and \<open>inorder\<close> is the sequence of
  items the tree stands for.
\<close>

section \<open>Trees in the store\<close>

subsection \<open>Sequences woven from children and separators\<close>

fun weave :: "'a list list \<Rightarrow> 'a list \<Rightarrow> 'a list" where
  "weave [] ys = []"
| "weave (x # xs) [] = x"
| "weave (x # xs) (y # ys) = x @ y # weave xs ys"

fun wpre :: "'a list list \<Rightarrow> 'a list \<Rightarrow> 'a list" where
  "wpre (x # xs) (y # ys) = x @ y # wpre xs ys"
| "wpre _ _ = []"

fun wpost :: "'a list \<Rightarrow> 'a list list \<Rightarrow> 'a list" where
  "wpost (y # ys) (x # xs) = y # x @ wpost ys xs"
| "wpost _ _ = []"

lemma weave_wpost: "length ys = length xs \<Longrightarrow> weave (x # xs) ys = x @ wpost ys xs"
  by (induction ys xs arbitrary: x rule: list_induct2) simp_all

lemma weave_split:
  "length is1 = length as \<Longrightarrow> length is2 = length bs \<Longrightarrow>
   weave (as @ c # bs) (is1 @ is2) = wpre as is1 @ c @ wpost is2 bs"
  by (induction is1 as rule: list_induct2) (simp_all add: weave_wpost)

lemma wpre_snoc:
  "length is1 = length as \<Longrightarrow> wpre (as @ [a]) (is1 @ [i]) = wpre as is1 @ a @ [i]"
  by (induction is1 as rule: list_induct2) simp_all

subsection \<open>Trees\<close>

datatype bt = Bt (baddr: nat) (bitems: "btree_node_item_t list") (bkids: "bt list")

fun addrs :: "bt \<Rightarrow> nat list" where
  "addrs (Bt p its cs) = p # concat (map addrs cs)"

fun inorder :: "bt \<Rightarrow> btree_node_item_t list" where
  "inorder (Bt p its cs) = (if cs = [] then its else weave (map inorder cs) its)"

fun bt_shape :: "nat \<Rightarrow> nat \<Rightarrow> bt \<Rightarrow> bool" where
  "bt_shape lo n (Bt p its cs) \<longleftrightarrow>
     lo \<le> length its \<and> length its \<le> BTREE_ORDER - 1 \<and>
     (case n of
        0 \<Rightarrow> cs = []
      | Suc m \<Rightarrow> length cs = Suc (length its) \<and> (\<forall>c\<in>set cs. bt_shape BTREE_MIN m c))"

text \<open>\<open>mshape k\<close> asks every node but the root for \<open>k\<close> items; \<open>bt_shape\<close> is the case of \<open>BTREE_MIN\<close>.\<close>

fun mshape :: "nat \<Rightarrow> nat \<Rightarrow> nat \<Rightarrow> bt \<Rightarrow> bool" where
  "mshape k lo n (Bt p its cs) \<longleftrightarrow>
     lo \<le> length its \<and> length its \<le> BTREE_ORDER - 1 \<and>
     (case n of
        0 \<Rightarrow> cs = []
      | Suc m \<Rightarrow> length cs = Suc (length its) \<and> (\<forall>c\<in>set cs. mshape k k m c))"

lemma bt_shape_mshape: "bt_shape lo n t \<longleftrightarrow> mshape BTREE_MIN lo n t"
proof (induction n arbitrary: lo t)
  case (Suc m)
  then show ?case by (cases t) simp
qed (case_tac t, simp)

definition node_rep :: "btree_node_t \<Rightarrow> btree_node_item_t list \<Rightarrow> nat list \<Rightarrow> bool" where
  "node_rep nd its ps \<longleftrightarrow>
     length (items nd) = BTREE_ORDER - 1 \<and> length (children nd) = BTREE_ORDER \<and>
     ncount nd = length its \<and> take (length its) (items nd) = its \<and>
     (if ps = [] then children nd = replicate BTREE_ORDER 0 else take (length ps) (children nd) = ps)"

fun rep :: "(nat \<Rightarrow> btree_node_t option) \<Rightarrow> bt \<Rightarrow> bool" where
  "rep h (Bt p its cs) \<longleftrightarrow>
     (case h p of None \<Rightarrow> False | Some nd \<Rightarrow> node_rep nd its (map baddr cs)) \<and> (\<forall>c\<in>set cs. rep h c)"

definition ok_addrs :: "bt \<Rightarrow> bool" where
  "ok_addrs t \<longleftrightarrow> distinct (addrs t) \<and> 0 \<notin> set (addrs t)"

definition ok_keys :: "btree_node_item_t list \<Rightarrow> bool" where
  "ok_keys xs \<longleftrightarrow> sorted (map ikey xs) \<and> (\<forall>x\<in>set xs. ikey x \<noteq> 0)"

lemma addrs_neq_Nil [simp]: "addrs t \<noteq> []" "baddr t \<in> set (addrs t)"
  by (cases t; simp)+

lemma rep_dom: "rep h t \<Longrightarrow> set (addrs t) \<subseteq> dom h"
proof (induction t)
  case (Bt p its cs)
  then show ?case by (fastforce split: option.splits)
qed

lemma rep_frame: "rep h t \<Longrightarrow> (\<And>x. x \<in> set (addrs t) \<Longrightarrow> h' x = h x) \<Longrightarrow> rep h' t"
proof (induction t)
  case (Bt p its cs)
  have "rep h' c" if c: "c \<in> set cs" for c
  proof (rule Bt.IH [OF c])
    show "rep h c" using Bt.prems(1) c by simp
    show "h' x = h x" if "x \<in> set (addrs c)" for x using Bt.prems(2) [of x] c that by auto
  qed
  moreover have "h' p = h p" using Bt.prems(2) by simp
  ultimately show ?case using Bt.prems(1) by simp
qed

lemma rep_Bt:
  "rep h (Bt p its cs) \<longleftrightarrow>
   (\<exists>nd. h p = Some nd \<and> node_rep nd its (map baddr cs)) \<and> (\<forall>c\<in>set cs. rep h c)"
  by (auto split: option.splits)

subsection \<open>Frames\<close>

text \<open>
  \<open>frame h A h' A'\<close>: a change of the store from \<open>h\<close> to \<open>h'\<close> that turns a tree with the addresses \<open>A\<close> into one
  with the addresses \<open>A'\<close> touches no other node, frees nothing and takes only fresh nodes.
\<close>

definition frame ::
  "(nat \<Rightarrow> btree_node_t option) \<Rightarrow> nat list \<Rightarrow> (nat \<Rightarrow> btree_node_t option) \<Rightarrow> nat list \<Rightarrow> bool" where
  "frame h A h' A' \<longleftrightarrow>
     (\<forall>x. x \<in> dom h \<longrightarrow> x \<notin> set A \<longrightarrow> h' x = h x) \<and> dom h \<subseteq> dom h' \<and>
     finite (dom h' - dom h) \<and> set A' \<inter> dom h \<subseteq> set A"

lemma frame_same: "frame h A h' A' \<Longrightarrow> x \<in> dom h \<Longrightarrow> x \<notin> set A \<Longrightarrow> h' x = h x"
  unfolding frame_def by blast

lemma frame_fresh: "frame h A h' A' \<Longrightarrow> x \<in> set A' \<Longrightarrow> x \<in> dom h \<Longrightarrow> x \<in> set A"
  unfolding frame_def by blast

lemma frame_trans: "frame h A h1 A1 \<Longrightarrow> frame h1 A1 h2 A2 \<Longrightarrow> frame h A h2 A2"
proof -
  assume f1: "frame h A h1 A1" and f2: "frame h1 A1 h2 A2"
  have d: "dom h \<subseteq> dom h1" "dom h1 \<subseteq> dom h2" using f1 f2 unfolding frame_def by blast+
  have "h2 x = h x" if "x \<in> dom h" "x \<notin> set A" for x
  proof -
    have "x \<notin> set A1" using frame_fresh [OF f1] that by blast
    then have "h2 x = h1 x" using frame_same [OF f2] d that by blast
    then show ?thesis using frame_same [OF f1] that by simp
  qed
  moreover have "x \<in> set A" if "x \<in> set A2" "x \<in> dom h" for x
    using frame_fresh [OF f2 that(1)] frame_fresh [OF f1] d that(2) by blast
  moreover have "finite (dom h2 - dom h)"
  proof (rule finite_subset)
    show "dom h2 - dom h \<subseteq> (dom h2 - dom h1) \<union> (dom h1 - dom h)" by blast
    show "finite ((dom h2 - dom h1) \<union> (dom h1 - dom h))" using f1 f2 unfolding frame_def by blast
  qed
  ultimately show ?thesis using d unfolding frame_def by blast
qed

lemma ok_addrs_kid: "ok_addrs (Bt p its (as @ c # bs)) \<Longrightarrow> ok_addrs c"
  by (simp add: ok_addrs_def)

lemma rep_off_frame:
  assumes "rep h d" and "frame h A h' A'" and "set (addrs d) \<inter> set A = {}"
  shows "rep h' d"
  by (rule rep_frame [OF assms(1)]) (use rep_dom [OF assms(1)] frame_same [OF assms(2)] assms(3) in blast)

lemma replace_child:
  assumes r: "rep h (Bt p its (as @ c # bs))" and o: "ok_addrs (Bt p its (as @ c # bs))"
    and f: "frame h (addrs c) h' (addrs c')" and r': "rep h' c'" and o': "ok_addrs c'"
    and b: "baddr c' = baddr c"
  shows "rep h' (Bt p its (as @ c' # bs))" and "ok_addrs (Bt p its (as @ c' # bs))"
    and "frame h (addrs (Bt p its (as @ c # bs))) h' (addrs (Bt p its (as @ c' # bs)))"
proof -
  obtain nd where nd: "h p = Some nd" "node_rep nd its (map baddr (as @ c # bs))"
    and kids: "\<forall>d\<in>set (as @ c # bs). rep h d"
    using r unfolding rep_Bt by blast
  have pc: "p \<notin> set (addrs c)" and dj: "\<And>d. d \<in> set as \<union> set bs \<Longrightarrow> set (addrs d) \<inter> set (addrs c) = {}"
    using o by (auto simp: ok_addrs_def)
  have "h' p = Some nd" using frame_same [OF f _ pc] nd(1) by auto
  moreover have "rep h' d" if "d \<in> set as \<union> set bs" for d
    using rep_off_frame [OF _ f dj [OF that]] kids that by auto
  ultimately show "rep h' (Bt p its (as @ c' # bs))"
    unfolding rep_Bt using nd(2) r' b by auto
  have T: "set (addrs (Bt p its (as @ c # bs))) \<subseteq> dom h" by (rule rep_dom [OF r])
  have fr: "x \<in> set (addrs c) \<or> x \<notin> set (addrs (Bt p its (as @ c # bs)))" if "x \<in> set (addrs c')" for x
    using frame_fresh [OF f that] T by blast
  show "ok_addrs (Bt p its (as @ c' # bs))"
    using o o' fr unfolding ok_addrs_def by fastforce
  have dm: "dom h \<subseteq> dom h'" "finite (dom h' - dom h)" using f unfolding frame_def by blast+
  have "set (addrs (Bt p its (as @ c' # bs))) \<inter> dom h \<subseteq> set (addrs (Bt p its (as @ c # bs)))"
    using frame_fresh [OF f] by auto
  moreover have "\<forall>x. x \<in> dom h \<longrightarrow> x \<notin> set (addrs (Bt p its (as @ c # bs))) \<longrightarrow> h' x = h x"
    using frame_same [OF f] by auto
  ultimately show "frame h (addrs (Bt p its (as @ c # bs))) h' (addrs (Bt p its (as @ c' # bs)))"
    unfolding frame_def using dm by blast
qed

subsection \<open>Order\<close>

definition ins_rel ::
  "nat \<Rightarrow> btree_node_item_t \<Rightarrow> btree_node_item_t list \<Rightarrow> btree_node_item_t list \<Rightarrow> bool" where
  "ins_rel k it old new \<longleftrightarrow>
     (\<exists>xs ys. old = xs @ ys \<and> new = xs @ it # ys \<and>
        (\<forall>x\<in>set xs. ikey x \<le> k) \<and> (\<forall>y\<in>set ys. k \<le> ikey y))"

lemma ins_relI:
  "(\<And>x. x \<in> set xs \<Longrightarrow> ikey x \<le> k) \<Longrightarrow> (\<And>y. y \<in> set ys \<Longrightarrow> k \<le> ikey y) \<Longrightarrow>
   ins_rel k it (xs @ ys) (xs @ it # ys)"
  unfolding ins_rel_def by blast

lemma ins_rel_ctx:
  assumes "ins_rel k it old new" and "\<And>x. x \<in> set pre \<Longrightarrow> ikey x \<le> k"
    and "\<And>y. y \<in> set post \<Longrightarrow> k \<le> ikey y"
  shows "ins_rel k it (pre @ old @ post) (pre @ new @ post)"
proof -
  obtain xs ys where x: "old = xs @ ys" "new = xs @ it # ys"
    "\<forall>x\<in>set xs. ikey x \<le> k" "\<forall>y\<in>set ys. k \<le> ikey y"
    using assms(1) unfolding ins_rel_def by blast
  have "ins_rel k it ((pre @ xs) @ (ys @ post)) ((pre @ xs) @ it # (ys @ post))"
    by (rule ins_relI) (use x assms(2,3) in auto)
  then show ?thesis using x by simp
qed

lemma ins_rel_keys:
  "ins_rel k it old new \<Longrightarrow> ok_keys old \<Longrightarrow> ikey it = k \<Longrightarrow> k \<noteq> 0 \<Longrightarrow> ok_keys new"
  unfolding ins_rel_def ok_keys_def by (auto simp: sorted_append)

lemma ok_keys_append:
  "ok_keys (xs @ ys) \<longleftrightarrow>
   ok_keys xs \<and> ok_keys ys \<and> (\<forall>x\<in>set xs. \<forall>y\<in>set ys. ikey x \<le> ikey y)"
  unfolding ok_keys_def by (auto simp: sorted_append)

lemma wpre_le:
  "length is1 = length as \<Longrightarrow> ok_keys (wpre as is1) \<Longrightarrow> (\<And>i. i \<in> set is1 \<Longrightarrow> ikey i \<le> k) \<Longrightarrow>
   x \<in> set (wpre as is1) \<Longrightarrow> ikey x \<le> k"
proof (induction is1 as rule: list_induct2)
  case (Cons i is1 a as)
  have k: "ok_keys (wpre as is1)" and le: "\<And>y. y \<in> set a \<Longrightarrow> ikey y \<le> ikey i"
    using Cons.prems(1) by (auto simp: ok_keys_def sorted_append)
  have "ikey i \<le> k" using Cons.prems(2) by simp
  then show ?case
    using Cons.IH [OF k] Cons.prems(2,3) le order_trans by fastforce
qed simp

lemma wpost_ge:
  "ok_keys (wpost (i # is2) bs) \<Longrightarrow> k \<le> ikey i \<Longrightarrow> y \<in> set (wpost (i # is2) bs) \<Longrightarrow> k \<le> ikey y"
  by (cases bs) (auto simp: ok_keys_def intro: order_trans)

lemma weave_items: "length xs = Suc (length ys) \<Longrightarrow> set ys \<subseteq> set (weave xs ys)"
  by (induction xs ys rule: weave.induct) auto

lemma inorder_items:
  "cs = [] \<or> length cs = Suc (length its) \<Longrightarrow> set its \<subseteq> set (inorder (Bt p its cs))"
  using weave_items [of "map inorder cs" its] by auto

subsection \<open>Arrays of a node\<close>

lemma length7: "length xs = 7 \<longleftrightarrow> (\<exists>a b c d e f g. xs = [a, b, c, d, e, f, g])"
  by (auto simp: length_Suc_conv numeral_eq_Suc)

lemma length8: "length xs = 8 \<longleftrightarrow> (\<exists>a b c d e f g h. xs = [a, b, c, d, e, f, g, h])"
  by (auto simp: length_Suc_conv numeral_eq_Suc)

lemmas order_simps = BTREE_ORDER_def BTREE_MIN_def

lemma node_rep_items: "node_rep nd its ps \<Longrightarrow> i < length its \<Longrightarrow> items nd ! i = its ! i"
  unfolding node_rep_def by (metis nth_take)

lemma node_rep_child: "node_rep nd its ps \<Longrightarrow> i < length ps \<Longrightarrow> children nd ! i = ps ! i"
  unfolding node_rep_def by (metis length_greater_0_conv nth_take less_zeroE list.size(3))

lemma node_rep_leaf: "node_rep nd its [] \<Longrightarrow> i < BTREE_ORDER \<Longrightarrow> children nd ! i = 0"
  unfolding node_rep_def by simp

lemma dest_pos_first:
  assumes "ncount nd < n" and "a \<le> ncount nd"
  shows "\<exists>i. dest_pos nd key [a..<n] = Some i \<and> a \<le> i \<and> i \<le> ncount nd \<and>
    (\<forall>j. a \<le> j \<longrightarrow> j < i \<longrightarrow> ikey (items nd ! j) \<le> key) \<and> (i < ncount nd \<longrightarrow> key < ikey (items nd ! i))"
  using assms
proof (induction "ncount nd - a" arbitrary: a)
  case 0
  then have "a = ncount nd" by simp
  then show ?case using 0 by (simp add: upt_conv_Cons)
next
  case (Suc d)
  show ?case
  proof (cases "ikey (items nd ! a) > key")
    case True
    then show ?thesis using Suc.prems by (auto simp: upt_conv_Cons)
  next
    case False
    have "a < ncount nd" using Suc.hyps(2) by simp
    then obtain i where i: "dest_pos nd key [Suc a..<n] = Some i" "Suc a \<le> i" "i \<le> ncount nd"
      "\<forall>j. Suc a \<le> j \<longrightarrow> j < i \<longrightarrow> ikey (items nd ! j) \<le> key" "i < ncount nd \<longrightarrow> key < ikey (items nd ! i)"
      using Suc.hyps(1) [of "Suc a"] Suc.hyps(2) Suc.prems(1) by (metis Suc_leI diff_Suc_Suc Suc_diff_le diff_Suc_1)
    have "\<forall>j. a \<le> j \<longrightarrow> j < i \<longrightarrow> ikey (items nd ! j) \<le> key"
      using i(4) False by (metis le_eq_less_or_eq not_less not_less_eq_eq)
    then show ?thesis
      using i False \<open>a < ncount nd\<close> Suc.prems by (auto simp: upt_conv_Cons)
  qed
qed

subsection \<open>Splitting and inserting in a node\<close>

definition alloc_ok :: "node_alloc \<Rightarrow> bool" where
  "alloc_ok al \<longleftrightarrow>
     (\<forall>h p nd. al h = Some (p, nd) \<longrightarrow>
        p \<noteq> 0 \<and> h p = None \<and> length (items nd) = BTREE_ORDER - 1 \<and> children nd = replicate BTREE_ORDER 0)"

lemma split_step_lists:
  "split_step i (nd, rt) =
     (nd\<lparr>items := if i \<noteq> 7 then (items nd)[i := zero_item] else items nd, children := (children nd)[i := 0]\<rparr>,
      rt\<lparr>ncount := if i \<noteq> 7 then ncount rt + 1 else ncount rt,
         items := if i \<noteq> 7 then (items rt)[ncount rt := items nd ! i] else items rt,
         children := (children rt)[i - 4 := children nd ! i]\<rparr>)"
  by (simp add: split_step_def Let_def order_simps)

lemma split_records:
  assumes "node_rep nd its ps" and "length its = 7" and "ps = [] \<or> length ps = 8"
    and "length (items rt) = 7" and "children rt = replicate 8 0" and "ncount rt = 0"
    and "fold split_step [4..<8] (nd\<lparr>items := (items nd)[3 := zero_item]\<rparr>, rt) = (nd', rt')"
  shows "node_rep (nd'\<lparr>ncount := 3\<rparr>) (take 3 its) (take 4 ps)" and "node_rep rt' (drop 4 its) (drop 4 ps)"
proof -
  have i: "items nd = its" using assms(1,2) unfolding node_rep_def by (auto simp: order_simps)
  have c: "children nd = (if ps = [] then replicate 8 0 else ps)"
    using assms(1,3) unfolding node_rep_def by (auto simp: order_simps)
  have u: "[4..<8] = [4, 5, 6, 7::nat]" by (simp add: upt_rec)
  obtain a0 a1 a2 a3 a4 a5 a6 where its: "its = [a0, a1, a2, a3, a4, a5, a6]"
    using assms(2) unfolding length7 by blast
  obtain b0 b1 b2 b3 b4 b5 b6 where ir: "items rt = [b0, b1, b2, b3, b4, b5, b6]"
    using assms(4) unfolding length7 by blast
  obtain c0 c1 c2 c3 c4 c5 c6 c7 where cs: "children nd = [c0, c1, c2, c3, c4, c5, c6, c7]"
    using assms(1) length8 [of "children nd"] unfolding node_rep_def by (auto simp: order_simps)
  have "items nd' = [a0, a1, a2, zero_item, zero_item, zero_item, zero_item]"
    "children nd' = [c0, c1, c2, c3, 0, 0, 0, 0]"
    "items rt' = [a4, a5, a6, b3, b4, b5, b6]" "children rt' = [c4, c5, c6, c7, 0, 0, 0, 0]"
    "ncount rt' = 3"
    using assms(5-7) by (auto simp: u i its ir cs split_step_lists numeral_eq_Suc)
  moreover have "ps = [] \<and> [c0, c1, c2, c3, c4, c5, c6, c7] = replicate 8 0 \<or>
      ps = [c0, c1, c2, c3, c4, c5, c6, c7]"
    using c cs by (auto split: if_splits)
  ultimately show "node_rep (nd'\<lparr>ncount := 3\<rparr>) (take 3 its) (take 4 ps)" and "node_rep rt' (drop 4 its) (drop 4 ps)"
    by (auto simp: node_rep_def order_simps its numeral_eq_Suc split: if_splits)
qed

lemma shift_up:
  assumes "length xs = Suc l" and "pos \<le> l"
  shows "arr_move (pos + 1) pos (l - pos) xs = Inr (take (pos + 1) xs @ take (l - pos) (drop pos xs))"
    and "(take (pos + 1) xs @ take (l - pos) (drop pos xs))[pos := m] =
         take pos xs @ m # take (l - pos) (drop pos xs)"
proof -
  show "arr_move (pos + 1) pos (l - pos) xs = Inr (take (pos + 1) xs @ take (l - pos) (drop pos xs))"
    using assms by (simp add: arr_move_def arr_copy_def)
  have "take (pos + 1) xs = take pos xs @ [xs ! pos]"
    using assms by (simp add: take_Suc_conv_app_nth)
  then show "(take (pos + 1) xs @ take (l - pos) (drop pos xs))[pos := m] =
      take pos xs @ m # take (l - pos) (drop pos xs)"
    using assms by (simp add: list_update_append)
qed

lemma update_split: "pos < length xs \<Longrightarrow> xs[pos := m] = take pos xs @ m # drop (Suc pos) xs"
  by (simp add: upd_conv_take_nth_drop)

lemma take_prefix: "take n xs = ys \<Longrightarrow> length ys = n \<Longrightarrow> \<exists>zs. xs = ys @ zs"
  by (metis append_take_drop_id)

text \<open>What the items of a node are after an insertion at \<open>pos\<close>, moved up or not.\<close>

lemma items_after_insert:
  assumes nr: "node_rep nd (is1 @ is2) ps" and sz: "length (is1 @ is2) < BTREE_ORDER - 1"
    and nz: "\<And>i. i \<in> set is2 \<Longrightarrow> ikey i \<noteq> 0"
  defines "pos \<equiv> length is1"
  defines "its \<equiv> (if ikey (items nd ! pos) \<noteq> 0
      then take (pos + 1) (items nd) @ take (BTREE_ORDER - 2 - pos) (drop pos (items nd)) else items nd)"
  shows "length (its[pos := m]) = BTREE_ORDER - 1"
    and "take (Suc (length (is1 @ is2))) (its[pos := m]) = is1 @ m # is2"
proof -
  have l: "length (items nd) = 7" and t: "take (length (is1 @ is2)) (items nd) = is1 @ is2"
    using nr unfolding node_rep_def by (auto simp: order_simps)
  obtain zs where zs: "items nd = (is1 @ is2) @ zs" using take_prefix [OF t] by auto
  have z: "length zs + length is1 + length is2 = 7" using l zs by simp
  have pos: "pos \<le> 6" using sz by (simp add: pos_def order_simps)
  have "its[pos := m] = is1 @ m # take (6 - pos) (is2 @ zs) \<or>
      is2 = [] \<and> its[pos := m] = is1 @ m # drop 1 zs"
  proof (cases "ikey (items nd ! pos) \<noteq> 0")
    case True
    then show ?thesis
      using shift_up(2) [of "items nd" 6 pos m] l pos zs by (simp add: its_def order_simps pos_def)
  next
    case False
    then have "is2 = []" using nz zs by (cases is2) (auto simp: pos_def nth_append)
    then show ?thesis
      using False update_split [of pos "items nd" m] l pos zs z by (cases zs) (auto simp: its_def pos_def)
  qed
  moreover have "length its = 7" using l pos by (simp add: its_def order_simps)
  ultimately show "length (its[pos := m]) = BTREE_ORDER - 1"
    and "take (Suc (length (is1 @ is2))) (its[pos := m]) = is1 @ m # is2"
    using z sz by (auto simp: order_simps pos_def)
qed

lemma uadd64_count: "n < BTREE_ORDER \<Longrightarrow> uadd64 n 1 = Suc n"
  by (simp add: uadd64_def order_simps)

lemma insert_item_rep:
  assumes "nodes s p = Some nd" and nr: "node_rep nd (is1 @ is2) []"
    and sz: "length (is1 @ is2) < BTREE_ORDER - 1" and nz: "\<And>i. i \<in> set is2 \<Longrightarrow> ikey i \<noteq> 0"
  shows "\<exists>nd'. insert_item p (length is1) m s = Inr (s\<lparr>nodes := (nodes s)(p \<mapsto> nd')\<rparr>) \<and>
    node_rep nd' (is1 @ m # is2) []"
proof -
  have l: "length (items nd) = Suc 6" and c: "ncount nd = length (is1 @ is2)"
    and ch: "children nd = replicate 8 0"
    using nr unfolding node_rep_def by (auto simp: order_simps)
  have pos: "length is1 \<le> 6" using sz by (simp add: order_simps)
  note k = items_after_insert [OF nr sz nz, of m]
  note mv = shift_up(1) [OF l pos]
  show ?thesis
    using assms(1) l c ch pos k mv sz
    by (auto simp: insert_item_def upd_node_def node_at_def put_node_def set_item_def node_rep_def
        order_simps uadd64_def)
qed

lemma children_after_insert:
  assumes l: "length xs = BTREE_ORDER" and t: "take (length (as @ c # bs)) xs = as @ c # bs"
    and sz: "length (as @ c # bs) < BTREE_ORDER"
    and xs': "xs' = take (length as + 1) xs @ take (BTREE_ORDER - 1 - length as) (drop (length as) xs) \<or>
              bs = [] \<and> xs' = xs"
  shows "length (xs'[length as := c, length as + 1 := r]) = BTREE_ORDER"
    and "take (length (as @ c # r # bs)) (xs'[length as := c, length as + 1 := r]) = as @ c # r # bs"
proof -
  obtain zs where zs: "xs = (as @ c # bs) @ zs" using take_prefix [OF t] by auto
  have z: "length zs + length as + length bs = 7" using l zs by (simp add: order_simps)
  have "xs'[length as := c, length as + 1 := r] = as @ c # r # take (6 - length as) (bs @ zs) \<or>
      bs = [] \<and> xs'[length as := c, length as + 1 := r] = as @ c # r # drop 1 zs"
    using xs'
  proof
    assume a: "xs' = take (length as + 1) xs @ take (BTREE_ORDER - 1 - length as) (drop (length as) xs)"
    have "7 - length as = Suc (6 - length as)" using sz by (simp add: order_simps)
    then show ?thesis using a zs by (simp add: order_simps list_update_append)
  next
    assume a: "bs = [] \<and> xs' = xs"
    then show ?thesis using zs z sz by (cases zs) (auto simp: order_simps list_update_append)
  qed
  moreover have "length xs' = 8" using xs' l sz by (auto simp: order_simps)
  ultimately show "length (xs'[length as := c, length as + 1 := r]) = BTREE_ORDER"
    and "take (length (as @ c # r # bs)) (xs'[length as := c, length as + 1 := r]) = as @ c # r # bs"
    using z sz by (auto simp: order_simps)
qed

lemma insert_node_rep:
  assumes "nodes s p = Some nd" and nr: "node_rep nd (is1 @ is2) (as @ c # bs)"
    and len: "length is1 = length as" "length is2 = length bs"
    and sz: "length (is1 @ is2) < BTREE_ORDER - 1" and nz: "\<And>i. i \<in> set is2 \<Longrightarrow> ikey i \<noteq> 0"
  shows "\<exists>nd'. insert_node p (length as) m c r s = Inr (s\<lparr>nodes := (nodes s)(p \<mapsto> nd')\<rparr>) \<and>
    node_rep nd' (is1 @ m # is2) (as @ c # r # bs)"
proof -
  have l: "length (items nd) = Suc 6" "length (children nd) = Suc 7" and c: "ncount nd = length (is1 @ is2)"
    and ch: "take (length (as @ c # bs)) (children nd) = as @ c # bs"
    and it: "take (length (is1 @ is2)) (items nd) = is1 @ is2"
    using nr unfolding node_rep_def by (auto simp: order_simps)
  have pos: "length as \<le> 6" "length as \<le> 7" using sz len by (simp_all add: order_simps)
  note k = items_after_insert [OF nr sz nz, of m, unfolded len(1)]
  note mv = shift_up(1) [OF l(1) pos(1)] shift_up(1) [OF l(2) pos(2)]
  have b: "bs = []" if "ikey (items nd ! length as) = 0"
  proof (rule ccontr)
    assume "bs \<noteq> []"
    then obtain i js where is2: "is2 = i # js" using len(2) by (cases is2) auto
    have "items nd ! length as = i"
      using node_rep_items [OF nr, of "length as"] is2 len(1) by (simp add: nth_append)
    then show False using nz [of i] is2 that by simp
  qed
  have sz': "length (as @ c # bs) < BTREE_ORDER" using sz len by (simp add: order_simps)
  note kc = children_after_insert [OF _ ch sz', where r = r]
  show ?thesis
  proof (cases "ikey (items nd ! length as) = 0")
    case True
    have kc': "length ((children nd)[length as := c, length as + 1 := r]) = BTREE_ORDER"
      "take (length (as @ c # r # bs)) ((children nd)[length as := c, length as + 1 := r]) = as @ c # r # bs"
      by (rule kc; use b [OF True] l in \<open>simp add: order_simps\<close>)+
    show ?thesis
      using assms(1) l c pos k True sz kc' len
      by (auto simp: insert_node_def upd_node_def node_at_def put_node_def set_item_def node_rep_def
          order_simps uadd64_def)
  next
    case False
    define xs' where
      "xs' = take (length as + 1) (children nd) @ take (BTREE_ORDER - 1 - length as) (drop (length as) (children nd))"
    have kc': "length (xs'[length as := c, length as + 1 := r]) = BTREE_ORDER"
      "take (length (as @ c # r # bs)) (xs'[length as := c, length as + 1 := r]) = as @ c # r # bs"
      by (rule kc; use l in \<open>simp add: order_simps xs'_def\<close>)+
    show ?thesis
      using assms(1) l c pos k mv False sz kc' len
      by (auto simp: insert_node_def upd_node_def node_at_def put_node_def set_item_def node_rep_def
          order_simps uadd64_def xs'_def)
  qed
qed

lemma split_node_rep:
  assumes al: "alloc_ok al" and nd: "nodes s p = Some nd" "node_rep nd its ps"
    and len: "length its = 7" "ps = [] \<or> length ps = 8"
  shows "split_node al p s = Inl Uncaught \<and> al (nodes s) = None \<or>
    (\<exists>q nd' rt'. split_node al p s = Inr (q, its ! 3, s\<lparr>nodes := (nodes s)(q \<mapsto> rt', p \<mapsto> nd')\<rparr>) \<and>
       q \<noteq> 0 \<and> nodes s q = None \<and> node_rep nd' (take 3 its) (take 4 ps) \<and> node_rep rt' (drop 4 its) (drop 4 ps))"
proof (cases "al (nodes s)")
  case None
  then show ?thesis by (simp add: split_node_def alloc_node_def)
next
  case (Some qr)
  obtain q rt where q: "al (nodes s) = Some (q, rt)" using Some by (cases qr) auto
  have fr: "q \<noteq> 0" "nodes s q = None" "length (items rt) = 7" "children rt = replicate 8 0"
    using al q unfolding alloc_ok_def by (auto simp: order_simps)
  then have qp: "q \<noteq> p" using nd(1) by auto
  obtain nd' rt' where f: "fold split_step [4..<8] (nd\<lparr>items := (items nd)[3 := zero_item]\<rparr>, node_init rt) = (nd', rt')"
    by fastforce
  have i3: "items nd ! 3 = its ! 3" by (rule node_rep_items [OF nd(2)]) (simp add: len)
  have "split_node al p s = Inr (q, its ! 3, s\<lparr>nodes := (nodes s)(q \<mapsto> rt', p \<mapsto> nd'\<lparr>ncount := 3\<rparr>)\<rparr>)"
    using q qp nd(1) f i3
    by (simp add: split_node_def alloc_node_def put_node_def upd_node_def node_at_def clear_item_def order_simps)
  moreover note split_records [OF nd(2) len, of "node_init rt", OF _ _ _ f]
  ultimately show ?thesis using fr by (auto simp: node_init_def)
qed

text \<open>Splitting the full child \<open>c\<close> of a node with room makes room below without changing the sequence.\<close>

definition split_kids :: "bt \<Rightarrow> nat \<Rightarrow> bt \<times> btree_node_item_t \<times> bt" where
  "split_kids c r =
     (Bt (baddr c) (take 3 (bitems c)) (take 4 (bkids c)), bitems c ! 3,
      Bt r (drop 4 (bitems c)) (drop 4 (bkids c)))"

lemma split_kids_addrs:
  "split_kids c r = (cl, m, cr) \<Longrightarrow> set (addrs cl) \<union> set (addrs cr) = insert r (set (addrs c))"
  "split_kids c r = (cl, m, cr) \<Longrightarrow> ok_addrs c \<Longrightarrow> r \<notin> set (addrs c) \<Longrightarrow> r \<noteq> 0 \<Longrightarrow>
   ok_addrs cl \<and> ok_addrs cr \<and> set (addrs cl) \<inter> set (addrs cr) = {}"
proof -
  have ex: "addrs c = baddr c # concat (map addrs (take 4 (bkids c))) @ concat (map addrs (drop 4 (bkids c)))"
    by (cases c) (simp add: concat_append [symmetric] map_append [symmetric] del: concat_append map_append)
  show "split_kids c r = (cl, m, cr) \<Longrightarrow> set (addrs cl) \<union> set (addrs cr) = insert r (set (addrs c))"
    unfolding ex by (auto simp: split_kids_def)
  show "split_kids c r = (cl, m, cr) \<Longrightarrow> ok_addrs c \<Longrightarrow> r \<notin> set (addrs c) \<Longrightarrow> r \<noteq> 0 \<Longrightarrow>
     ok_addrs cl \<and> ok_addrs cr \<and> set (addrs cl) \<inter> set (addrs cr) = {}"
    unfolding ex ok_addrs_def by (auto simp: split_kids_def) blast
qed

lemma split_kids_inorder:
  assumes "split_kids c r = (cl, m, cr)" and "length (bitems c) = 7"
    and "bkids c = [] \<or> length (bkids c) = 8"
  shows "inorder c = inorder cl @ m # inorder cr" and "m \<in> set (inorder c)"
proof -
  obtain p its cs where c: "c = Bt p its cs" by (cases c)
  obtain a0 a1 a2 a3 a4 a5 a6 where its: "its = [a0, a1, a2, a3, a4, a5, a6]"
    using assms(2) c length7 [of its] by auto
  show e: "inorder c = inorder cl @ m # inorder cr"
    using assms c its length8 [of cs] by (auto simp: split_kids_def numeral_eq_Suc)
  show "m \<in> set (inorder c)" unfolding e by simp
qed

lemma split_kids_shape:
  assumes "split_kids c r = (cl, m, cr)" and "length (bitems c) = 7" and "bt_shape lo n c"
  shows "bt_shape BTREE_MIN n cl" and "bt_shape BTREE_MIN n cr"
proof -
  obtain p its cs where c: "c = Bt p its cs" by (cases c)
  have t: "set (take 4 cs) \<subseteq> set cs" "set (drop 4 cs) \<subseteq> set cs"
    by (rule set_take_subset, rule set_drop_subset)
  show "bt_shape BTREE_MIN n cl" and "bt_shape BTREE_MIN n cr"
    using assms c t by (cases n; auto simp: split_kids_def order_simps)+
qed

lemma split_kids_rep:
  assumes sk: "split_kids c r = (cl, m, cr)" and rc: "rep h c" and o: "ok_addrs c" and r: "h r = None"
    and nd: "node_rep nd' (take 3 (bitems c)) (take 4 (map baddr (bkids c)))"
      "node_rep rt' (drop 4 (bitems c)) (drop 4 (map baddr (bkids c)))"
    and h': "h' = h(r \<mapsto> rt', baddr c \<mapsto> nd')"
  shows "rep h' cl" and "rep h' cr"
proof -
  obtain p its cs where c: "c = Bt p its cs" by (cases c)
  have rn: "r \<notin> set (addrs c)" using rep_dom [OF rc] r by auto
  have k: "rep h' d" if d: "d \<in> set cs" for d
  proof (rule rep_frame)
    show "rep h d" using rc c d by simp
    show "h' x = h x" if "x \<in> set (addrs d)" for x
      using that d o rn unfolding c h' ok_addrs_def by auto
  qed
  have ts: "d \<in> set cs" if "d \<in> set (take 4 cs) \<union> set (drop 4 cs)" for d
    using that set_take_subset [of 4 cs] set_drop_subset [of 4 cs] by blast
  have rp: "r \<noteq> p" using rn c by simp
  show "rep h' cl"
    using sk nd(1) k ts unfolding c split_kids_def rep_Bt by (auto simp: h' c rep_Bt take_map simp del: rep.simps)
  show "rep h' cr"
    using sk nd(2) k ts rp unfolding c split_kids_def rep_Bt by (auto simp: h' c rep_Bt drop_map simp del: rep.simps)
qed

lemma split_child_tree:
  assumes rT: "rep h T" and oT: "ok_addrs T" and T: "T = Bt p its (as @ c # bs)"
    and sk: "split_kids c r = (cl, m, cr)" and r: "r \<noteq> 0" "h r = None"
    and nr: "node_rep nd' (take 3 (bitems c)) (take 4 (map baddr (bkids c)))"
      "node_rep rt' (drop 4 (bitems c)) (drop 4 (map baddr (bkids c)))"
    and pr: "node_rep pn' its' (map baddr as @ baddr c # r # map baddr bs)"
    and T1: "T1 = Bt p its' (as @ cl # cr # bs)"
    and h2: "h2 = h(r \<mapsto> rt', baddr c \<mapsto> nd', p \<mapsto> pn')"
  shows "rep h2 T1" and "ok_addrs T1" and "frame h (addrs T) h2 (addrs T1)"
proof -
  have rc: "rep h c" using rT T by simp
  have oc: "ok_addrs c" by (rule ok_addrs_kid [OF oT [unfolded T]])
  have rT': "r \<notin> set (addrs T)" using rep_dom [OF rT] r(2) by auto
  have cT: "set (addrs c) \<subseteq> set (addrs T)" using T by auto
  have pc: "p \<notin> set (addrs c)" and rp: "r \<noteq> p" and rcn: "r \<notin> set (addrs c)"
    using oT T rT' by (auto simp: ok_addrs_def)
  note ad = split_kids_addrs(1) [OF sk] and oad = split_kids_addrs(2) [OF sk oc rcn r(1)]
  have ms: "baddr cl = baddr c" "baddr cr = r" using sk by (auto simp: split_kids_def)
  note rk = split_kids_rep [OF sk rc oc r(2) nr refl]
  have "p \<notin> set (addrs cl) \<union> set (addrs cr)" unfolding ad using pc rp by simp
  then have pn: "p \<notin> set (addrs cl)" "p \<notin> set (addrs cr)" by simp_all
  have off: "rep h2 d" if d: "rep (h(r \<mapsto> rt', baddr c \<mapsto> nd')) d" and "p \<notin> set (addrs d)" for d
    by (rule rep_frame [OF d]) (use that(2) in \<open>auto simp: h2\<close>)
  have sib: "rep h2 d" if d: "d \<in> set as \<union> set bs" for d
  proof (rule rep_frame)
    show "rep h d" using rT T d by auto
    show "h2 x = h x" if x: "x \<in> set (addrs d)" for x
    proof -
      have "x \<noteq> p" "x \<noteq> r" "x \<notin> set (addrs c)" using x d oT rT' T by (auto simp: ok_addrs_def)
      then show ?thesis unfolding h2 by (metis addrs_neq_Nil(2) fun_upd_other)
    qed
  qed
  show "rep h2 T1"
    unfolding T1 rep_Bt using pr off [OF rk(1) pn(1)] off [OF rk(2) pn(2)] sib ms by (auto simp: h2)
  define A B where "A = concat (map addrs as)" and "B = concat (map addrs bs)"
  have eT: "addrs T = p # A @ addrs c @ B" and eT1: "addrs T1 = p # A @ addrs cl @ addrs cr @ B"
    by (simp_all add: T T1 A_def B_def)
  have sub: "set (addrs cl) \<subseteq> insert r (set (addrs c))" "set (addrs cr) \<subseteq> insert r (set (addrs c))"
    using ad by auto
  show "ok_addrs T1"
    using oT oad sub rT' pn unfolding ok_addrs_def eT eT1 by auto
  have e: "set (addrs T1) = insert r (set (addrs T))" unfolding eT eT1 using ad by auto
  have i: "p \<in> set (addrs T)" "baddr c \<in> set (addrs T)" using T cT by auto
  have d: "dom h2 = insert r (dom h)" using i rep_dom [OF rT] unfolding h2 by auto
  have "h2 x = h x" if "x \<in> dom h" "x \<notin> set (addrs T)" for x
    using that i r(2) unfolding h2 by auto
  then show "frame h (addrs T) h2 (addrs T1)"
    unfolding frame_def e d using r(2) by (auto simp: insert_Diff_if)
qed

lemma split_child:
  assumes al: "alloc_ok al" and rT: "rep (nodes s) T" and oT: "ok_addrs T"
    and T: "T = Bt p (is1 @ is2) (as @ c # bs)" and len: "length is1 = length as" "length is2 = length bs"
    and room: "length (is1 @ is2) < BTREE_ORDER - 1" and nz: "\<forall>i\<in>set is2. ikey i \<noteq> 0"
    and full: "length (bitems c) = BTREE_ORDER - 1" "bkids c = [] \<or> length (bkids c) = BTREE_ORDER"
  shows "split_full al (baddr c) p key (length as) s = Inl Uncaught \<and> al (nodes s) = None \<or>
    (\<exists>r cl m cr T1 s1. split_kids c r = (cl, m, cr) \<and> T1 = Bt p (is1 @ m # is2) (as @ cl # cr # bs) \<and>
       split_full al (baddr c) p key (length as) s = Inr (if key > ikey m then r else baddr c, s1) \<and>
       root s1 = root s \<and> rep (nodes s1) T1 \<and> ok_addrs T1 \<and> frame (nodes s) (addrs T) (nodes s1) (addrs T1))"
proof -
  let ?q = "baddr c"
  have rc: "rep (nodes s) c" using rT T by simp
  have oc: "ok_addrs c" by (rule ok_addrs_kid [OF oT [unfolded T]])
  obtain cn where cn: "nodes s ?q = Some cn" "node_rep cn (bitems c) (map baddr (bkids c))"
    using rc by (cases c) (auto split: option.splits)
  obtain pn where pn: "nodes s p = Some pn" "node_rep pn (is1 @ is2) (map baddr as @ ?q # map baddr bs)"
    using rT T by (auto split: option.splits)
  have p0: "p \<noteq> 0" "p \<notin> set (addrs c)" using oT T by (auto simp: ok_addrs_def)
  have pq: "p \<noteq> ?q" using p0(2) by (metis addrs_neq_Nil(2))
  have cnt: "ncount cn = BTREE_ORDER - 1" using cn(2) full(1) unfolding node_rep_def by simp
  have len': "length (bitems c) = 7" "map baddr (bkids c) = [] \<or> length (map baddr (bkids c)) = 8"
    using full by (auto simp: order_simps)
  show ?thesis
    using split_node_rep [OF al cn len']
  proof
    assume "split_node al ?q s = Inl Uncaught \<and> al (nodes s) = None"
    then show ?thesis using cn(1) cnt by (simp add: split_full_def node_at_def)
  next
    assume "\<exists>q nd' rt'. split_node al ?q s =
        Inr (q, bitems c ! 3, s\<lparr>nodes := (nodes s)(q \<mapsto> rt', ?q \<mapsto> nd')\<rparr>) \<and>
       q \<noteq> 0 \<and> nodes s q = None \<and> node_rep nd' (take 3 (bitems c)) (take 4 (map baddr (bkids c))) \<and>
       node_rep rt' (drop 4 (bitems c)) (drop 4 (map baddr (bkids c)))"
    then obtain r nd' rt' where sn: "split_node al ?q s =
        Inr (r, bitems c ! 3, s\<lparr>nodes := (nodes s)(r \<mapsto> rt', ?q \<mapsto> nd')\<rparr>)"
      and r: "r \<noteq> 0" "nodes s r = None"
      and nr: "node_rep nd' (take 3 (bitems c)) (take 4 (map baddr (bkids c)))"
        "node_rep rt' (drop 4 (bitems c)) (drop 4 (map baddr (bkids c)))"
      by blast
    obtain cl m cr where sk: "split_kids c r = (cl, m, cr)" by (cases "split_kids c r") auto
    have ms: "m = bitems c ! 3" "baddr cl = ?q" "baddr cr = r" using sk by (auto simp: split_kids_def)
    define h1 where "h1 = (nodes s)(r \<mapsto> rt', ?q \<mapsto> nd')"
    have ph: "h1 p = Some pn" using pn(1) r(2) pq by (auto simp: h1_def)
    obtain pn' where ins: "insert_node p (length as) m ?q r (s\<lparr>nodes := h1\<rparr>) =
        Inr (s\<lparr>nodes := h1(p \<mapsto> pn')\<rparr>)"
      and pr: "node_rep pn' (is1 @ m # is2) (map baddr as @ ?q # r # map baddr bs)"
      using insert_node_rep [of "s\<lparr>nodes := h1\<rparr>" p pn is1 is2 "map baddr as" ?q "map baddr bs" m r]
        ph pn(2) len room nz by auto
    have "split_full al ?q p key (length as) s =
        Inr (if key > ikey m then r else ?q, s\<lparr>nodes := h1(p \<mapsto> pn')\<rparr>)"
      using cn(1) cnt sn ms(1) ins p0(1) by (simp add: split_full_def node_at_def h1_def)
    moreover note split_child_tree [OF rT oT T sk r nr pr refl refl]
    ultimately show ?thesis using sk unfolding h1_def by fastforce
  qed
qed

definition refused :: "node_alloc \<Rightarrow> (nat \<Rightarrow> btree_node_t option) \<Rightarrow> bool" where
  "refused al h0 \<longleftrightarrow> (\<exists>h. al h = None \<and> dom h0 \<subseteq> dom h \<and> finite (dom h - dom h0))"

lemma refusedI: "al h0 = None \<Longrightarrow> refused al h0"
  unfolding refused_def by auto

lemma refused_frame: "frame h A h' A' \<Longrightarrow> refused al h' \<Longrightarrow> refused al h"
proof -
  assume f: "frame h A h' A'" and r: "refused al h'"
  obtain g where g: "al g = None" "dom h' \<subseteq> dom g" "finite (dom g - dom h')"
    using r unfolding refused_def by blast
  have "dom g - dom h \<subseteq> (dom g - dom h') \<union> (dom h' - dom h)" by blast
  then have "finite (dom g - dom h)" using f g(3) finite_subset unfolding frame_def by blast
  then show ?thesis using f g(1,2) unfolding refused_def frame_def by blast
qed

text \<open>Splitting a full root puts a new root with one item above it.\<close>

lemma split_root:
  assumes al: "alloc_ok al" and rc: "rep (nodes s) c" and oc: "ok_addrs c"
    and full: "length (bitems c) = BTREE_ORDER - 1" "bkids c = [] \<or> length (bkids c) = BTREE_ORDER"
  shows "split_full al (baddr c) 0 key pos s = Inl Uncaught \<and> refused al (nodes s) \<or>
    (\<exists>r cl m cr u s1. split_kids c r = (cl, m, cr) \<and> split_full al (baddr c) 0 key pos s = Inr (u, s1) \<and>
       root s1 = u \<and> rep (nodes s1) (Bt u [m] [cl, cr]) \<and> ok_addrs (Bt u [m] [cl, cr]) \<and>
       (refused al (nodes s1) \<longrightarrow> refused al (nodes s)))"
proof -
  let ?q = "baddr c"
  obtain cn where cn: "nodes s ?q = Some cn" "node_rep cn (bitems c) (map baddr (bkids c))"
    using rc by (cases c) (auto split: option.splits)
  have cnt: "ncount cn = BTREE_ORDER - 1" using cn(2) full(1) unfolding node_rep_def by simp
  have len': "length (bitems c) = 7" "map baddr (bkids c) = [] \<or> length (map baddr (bkids c)) = 8"
    using full by (auto simp: order_simps)
  consider (no) "split_node al ?q s = Inl Uncaught" "al (nodes s) = None"
    | (yes) r nd' rt' where "split_node al ?q s =
        Inr (r, bitems c ! 3, s\<lparr>nodes := (nodes s)(r \<mapsto> rt', ?q \<mapsto> nd')\<rparr>)" "r \<noteq> 0" "nodes s r = None"
        "node_rep nd' (take 3 (bitems c)) (take 4 (map baddr (bkids c)))"
        "node_rep rt' (drop 4 (bitems c)) (drop 4 (map baddr (bkids c)))"
    using split_node_rep [OF al cn len'] by (elim disjE exE conjE) (erule (1) that(1), erule (4) that(2))
  then show ?thesis
  proof cases
    case no
    then show ?thesis using cn(1) cnt refusedI [of al "nodes s"] by (simp add: split_full_def node_at_def)
  next
    case yes
    define h1 where "h1 = (nodes s)(r \<mapsto> rt', ?q \<mapsto> nd')"
    obtain cl m cr where sk: "split_kids c r = (cl, m, cr)" by (cases "split_kids c r") auto
    have ms: "m = bitems c ! 3" "baddr cl = ?q" "baddr cr = r" using sk by (auto simp: split_kids_def)
    have rcn: "r \<notin> set (addrs c)" using rep_dom [OF rc] yes(3) by auto
    note ad = split_kids_addrs(1) [OF sk] and oad = split_kids_addrs(2) [OF sk oc rcn yes(2)]
    note rk = split_kids_rep [OF sk rc oc yes(3,4,5) refl, folded h1_def]
    show ?thesis
    proof (cases "al h1")
      case None
      have "dom h1 - dom (nodes s) \<subseteq> {r, ?q}" by (auto simp: h1_def)
      then have "refused al (nodes s)"
        unfolding refused_def using None finite_subset by (intro exI [of _ h1]) (auto simp: h1_def)
      then show ?thesis
        using None cn(1) cnt yes(1) by (simp add: split_full_def node_at_def alloc_node_def h1_def)
    next
      case (Some x)
      then obtain u un where u: "al h1 = Some (u, un)" by (cases x) auto
      have fr: "u \<noteq> 0" "h1 u = None" "length (items un) = 7" "children un = replicate 8 0"
        using al u unfolding alloc_ok_def by (auto simp: order_simps)
      define un' where "un' = un\<lparr>ncount := 1, items := (items un)[0 := m], children := (children un)[0 := ?q, 1 := r]\<rparr>"
      have "split_full al ?q 0 key pos s = Inr (u, s\<lparr>nodes := h1(u \<mapsto> un'), root := u\<rparr>)"
        using cn(1) cnt yes(1) u ms(1)
        by (simp add: split_full_def node_at_def alloc_node_def put_node_def upd_node_def h1_def un'_def)
      moreover have "node_rep un' [m] [?q, r]"
        using fr(3,4) by (cases "items un") (auto simp: un'_def node_rep_def order_simps numeral_eq_Suc)
      moreover have uk: "u \<notin> set (addrs cl)" "u \<notin> set (addrs cr)"
        using rep_dom [OF rk(1)] rep_dom [OF rk(2)] fr(2) by auto
      moreover have "rep (h1(u \<mapsto> un')) cl" "rep (h1(u \<mapsto> un')) cr"
        by (rule rep_frame [OF rk(1)], use uk in auto) (rule rep_frame [OF rk(2)], use uk in auto)
      moreover have "refused al (nodes s)" if "refused al (h1(u \<mapsto> un'))"
        by (rule refused_frame [OF _ that, of _ "addrs c" "[]"])
          (use fr(2) cn(1) yes(3) in \<open>auto simp: frame_def h1_def insert_Diff_if\<close>)
      ultimately show ?thesis
        using sk ms oad fr(1) by (fastforce simp: ok_addrs_def rep_Bt simp del: rep.simps)
    qed
  qed
qed

subsection \<open>Insertion\<close>

text \<open>
  \<open>inserted\<close>: the search that starts at \<open>q\<close> and the insertion at the slot it finds turn the tree \<open>t\<close> of
  the store into one of the same shape that has the item at its place, unless the allocator refuses.
\<close>

definition inserted ::
  "node_alloc \<Rightarrow> btree_node_item_t \<Rightarrow> nat \<Rightarrow> nat \<Rightarrow> nat \<Rightarrow> nat \<Rightarrow> nat \<Rightarrow> bt \<Rightarrow> btree_t \<Rightarrow> bool" where
  "inserted al it q par ps lo n t s \<longleftrightarrow>
     find_dest_node al q par (ikey it) ps s = Some (Inl Uncaught) \<and> refused al (nodes s) \<or>
     (\<exists>dest pos s1 s2 t2.
        find_dest_node al q par (ikey it) ps s = ret (dest, pos, s1) \<and>
        insert_item dest pos it s1 = Inr s2 \<and> root s2 = root s \<and> baddr t2 = baddr t \<and>
        rep (nodes s2) t2 \<and> ok_addrs t2 \<and> bt_shape lo n t2 \<and>
        ins_rel (ikey it) it (inorder t) (inorder t2) \<and> frame (nodes s) (addrs t) (nodes s2) (addrs t2))"

lemma insertedI:
  assumes "find_dest_node al q par (ikey it) ps s = ret (dest, pos, s1)" and "insert_item dest pos it s1 = Inr s2"
    and "root s2 = root s" and "baddr t2 = baddr t" and "rep (nodes s2) t2" and "ok_addrs t2"
    and "bt_shape lo n t2" and "ins_rel (ikey it) it (inorder t) (inorder t2)"
    and "frame (nodes s) (addrs t) (nodes s2) (addrs t2)"
  shows "inserted al it q par ps lo n t s"
  using assms unfolding inserted_def by blast

lemma inserted_from:
  assumes "inserted al it q par ps lo n t1 s1"
    and "find_dest_node al q0 par0 (ikey it) ps0 s = find_dest_node al q par (ikey it) ps s1"
    and "frame (nodes s) (addrs t) (nodes s1) (addrs t1)" and "inorder t1 = inorder t"
    and "baddr t1 = baddr t" and "root s1 = root s"
  shows "inserted al it q0 par0 ps0 lo n t s"
  using assms frame_trans [OF assms(3)] refused_frame [OF assms(3)] unfolding inserted_def by metis

lemma inserted_lift:
  assumes ins: "inserted al it q par ps BTREE_MIN m c s"
    and T: "T = Bt p (is1 @ is2) (as @ c # bs)" and len: "length is1 = length as" "length is2 = length bs"
    and rT: "rep (nodes s) T" and oT: "ok_addrs T" and sh: "bt_shape lo (Suc m) T" and k: "ok_keys (inorder T)"
    and le: "\<And>i. i \<in> set is1 \<Longrightarrow> ikey i \<le> ikey it" and ge: "is2 \<noteq> [] \<Longrightarrow> ikey it \<le> ikey (hd is2)"
  shows "inserted al it q par ps lo (Suc m) T s"
proof -
  consider (no) "find_dest_node al q par (ikey it) ps s = Some (Inl Uncaught)" "refused al (nodes s)"
    | (yes) dest pos s1 s2 c2 where
        "find_dest_node al q par (ikey it) ps s = ret (dest, pos, s1)"
        "insert_item dest pos it s1 = Inr s2" "root s2 = root s" "baddr c2 = baddr c"
        "rep (nodes s2) c2" "ok_addrs c2" "bt_shape BTREE_MIN m c2"
        "ins_rel (ikey it) it (inorder c) (inorder c2)" "frame (nodes s) (addrs c) (nodes s2) (addrs c2)"
    using ins unfolding inserted_def by (elim disjE exE conjE) (erule (1) that(1), erule (8) that(2))
  then show ?thesis
  proof cases
    case no
    then show ?thesis unfolding inserted_def by blast
  next
    case yes
    let ?T2 = "Bt p (is1 @ is2) (as @ c2 # bs)"
    let ?pre = "wpre (map inorder as) is1" and ?post = "wpost is2 (map inorder bs)"
    note rc = replace_child [OF rT [unfolded T] oT [unfolded T] yes(9,5,6,4), folded T]
    have io: "inorder T = ?pre @ inorder c @ ?post" "inorder ?T2 = ?pre @ inorder c2 @ ?post"
      using len by (simp_all add: T weave_split)
    have pre: "ikey x \<le> ikey it" if "x \<in> set ?pre" for x
      by (rule wpre_le [OF _ _ le that]) (use len k io(1) in \<open>auto simp: ok_keys_append\<close>)
    have post: "ikey it \<le> ikey y" if "y \<in> set ?post" for y
      using that k io(1) ge wpost_ge [of "hd is2" "tl is2" "map inorder bs" "ikey it" y]
      by (cases is2) (auto simp: ok_keys_append)
    have "ins_rel (ikey it) it (inorder T) (inorder ?T2)"
      unfolding io by (rule ins_rel_ctx [OF yes(8) pre post])
    moreover have "bt_shape lo (Suc m) ?T2" using sh yes(7) unfolding T by auto
    ultimately show ?thesis
      by (intro insertedI [OF yes(1,2,3), of ?T2] rc) (simp_all add: T)
  qed
qed

lemma split_full_id:
  "nodes s p = Some nd \<Longrightarrow> ncount nd \<noteq> BTREE_ORDER - 1 \<Longrightarrow> split_full al p par key pos s = Inr (p, s)"
  by (simp add: split_full_def node_at_def)

lemma find_dest_nonfull:
  assumes "nodes s p = Some nd" and "ncount nd < BTREE_ORDER - 1"
  shows "\<exists>i. i \<le> ncount nd \<and> (\<forall>j<i. ikey (items nd ! j) \<le> key) \<and> (i < ncount nd \<longrightarrow> key < ikey (items nd ! i)) \<and>
    find_dest_node al p par key pos s =
      (if children nd ! i = 0 then ret (p, i, s) else find_dest_node al (children nd ! i) p key i s)"
proof -
  obtain i where i: "dest_pos nd key [0..<BTREE_ORDER - 1] = Some i" "i \<le> ncount nd"
    "\<forall>j<i. ikey (items nd ! j) \<le> key" "i < ncount nd \<longrightarrow> key < ikey (items nd ! i)"
    using dest_pos_first [of nd "BTREE_ORDER - 1" 0 key] assms(2) by auto
  have "find_dest_node al p par key pos s =
      (if children nd ! i = 0 then ret (p, i, s) else find_dest_node al (children nd ! i) p key i s)"
    by (subst find_dest_node.simps) (use assms i(1) in \<open>simp add: split_full_id node_at_def\<close>)
  then show ?thesis using i by blast
qed

lemma find_dest_start:
  assumes "nodes s p = Some nd" and "ncount nd < BTREE_ORDER - 1"
  shows "find_dest_node al p par key pos s = find_dest_node al p par' key pos' s"
  by (simp only: find_dest_node.simps [of al p par] find_dest_node.simps [of al p par']
      split_full_id [OF assms(1) less_imp_neq [OF assms(2)]])

lemma find_dest_split:
  assumes "split_full al p par key pos s = Inr (q, s1)" and "nodes s1 q = Some nd" and "ncount nd < BTREE_ORDER - 1"
  shows "find_dest_node al p par key pos s = find_dest_node al q par' key pos' s1"
  by (simp only: find_dest_node.simps [of al p par] find_dest_node.simps [of al q par']
      split_full_id [OF assms(2) less_imp_neq [OF assms(3)]] assms(1) bindX_simps fst_conv snd_conv)

lemma rep_node: "rep h t \<Longrightarrow> \<exists>nd. h (baddr t) = Some nd \<and> node_rep nd (bitems t) (map baddr (bkids t))"
  by (cases t) (auto split: option.splits)

lemma node_rep_count: "node_rep nd its ps \<Longrightarrow> ncount nd = length its"
  by (simp add: node_rep_def)

lemma leaf_insert:
  assumes rt: "rep (nodes s) t" and ot: "ok_addrs t" and t: "t = Bt p its []"
    and room: "length its < BTREE_ORDER - 1" and lo: "lo \<le> length its" and k: "ok_keys its"
  shows "inserted al it p par ps lo 0 t s"
proof -
  obtain nd where nd: "nodes s p = Some nd" "node_rep nd its []" using rep_node [OF rt] t by auto
  note cnt = node_rep_count [OF nd(2)]
  obtain i where i: "i \<le> length its" "\<forall>j<i. ikey (items nd ! j) \<le> ikey it"
      "i < length its \<longrightarrow> ikey it < ikey (items nd ! i)"
    and f: "find_dest_node al p par (ikey it) ps s =
      (if children nd ! i = 0 then ret (p, i, s) else find_dest_node al (children nd ! i) p (ikey it) i s)"
    using find_dest_nonfull [OF nd(1), of "ikey it" al par ps] room cnt by auto
  have "children nd ! i = 0" by (rule node_rep_leaf [OF nd(2)]) (use i(1) room in simp)
  then have f': "find_dest_node al p par (ikey it) ps s = ret (p, i, s)" using f by simp
  define is1 is2 where "is1 = take i its" and "is2 = drop i its"
  have its: "its = is1 @ is2" and l1: "length is1 = i" using i(1) by (simp_all add: is1_def is2_def)
  have nz: "ikey x \<noteq> 0" if "x \<in> set is2" for x using k that its by (simp add: ok_keys_def)
  obtain nd' where ins: "insert_item p i it s = Inr (s\<lparr>nodes := (nodes s)(p \<mapsto> nd')\<rparr>)"
    and nr: "node_rep nd' (is1 @ it # is2) []"
    using insert_item_rep [OF nd(1), of is1 is2 it] nd(2) room nz its l1 by auto
  have le: "ikey x \<le> ikey it" if x: "x \<in> set is1" for x
  proof -
    obtain j where "j < i" "x = its ! j" using x i(1) unfolding is1_def in_set_conv_nth by auto
    then show ?thesis using i(1,2) node_rep_items [OF nd(2)] by auto
  qed
  have ge: "ikey it \<le> ikey y" if y: "y \<in> set is2" for y
  proof -
    obtain z zs where z: "is2 = z # zs" using y by (cases is2) auto
    have "i < length its" using its z l1 by simp
    moreover have "z = its ! i" using its z l1 by (simp add: nth_append)
    ultimately have "ikey it < ikey z" using i(3) node_rep_items [OF nd(2)] by auto
    moreover have "ikey z \<le> ikey y" using k y unfolding its z by (auto simp: ok_keys_def sorted_append)
    ultimately show ?thesis by simp
  qed
  have "ins_rel (ikey it) it (is1 @ is2) (is1 @ it # is2)" by (rule ins_relI [OF le ge])
  then have "ins_rel (ikey it) it (inorder t) (inorder (Bt p (is1 @ it # is2) []))"
    unfolding t its by simp
  moreover have "frame (nodes s) (addrs t) ((nodes s)(p \<mapsto> nd')) (addrs (Bt p (is1 @ it # is2) []))"
    using nd(1) unfolding frame_def t by (auto simp: insert_Diff_if)
  moreover have "bt_shape lo 0 (Bt p (is1 @ it # is2) [])" using room lo its by simp
  ultimately show ?thesis
    by (intro insertedI [OF f' ins, where ?t2.0 = "Bt p (is1 @ it # is2) []"])
      (use nr ot t in \<open>simp_all add: ok_addrs_def\<close>)
qed

lemma nonfull_kid:
  assumes "rep h t" and "length (bitems t) < BTREE_ORDER - 1"
  shows "\<exists>nd. h (baddr t) = Some nd \<and> ncount nd < BTREE_ORDER - 1"
  using rep_node [OF assms(1)] node_rep_count assms(2) by fastforce

lemma ok_keys_mid: "ok_keys (xs @ ys @ zs) \<Longrightarrow> ok_keys ys"
  by (simp add: ok_keys_append)

text \<open>The step at an inner node whose child \<open>c\<close> is the next one on the path.\<close>

lemma kid_insert:
  assumes al: "alloc_ok al"
    and IH: "\<And>c s par ps. rep (nodes s) c \<Longrightarrow> ok_addrs c \<Longrightarrow> bt_shape BTREE_MIN m c \<Longrightarrow>
      length (bitems c) < BTREE_ORDER - 1 \<Longrightarrow> ok_keys (inorder c) \<Longrightarrow>
      inserted al it (baddr c) par ps BTREE_MIN m c s"
    and T: "T = Bt p (is1 @ is2) (as @ c # bs)" and len: "length is1 = length as" "length is2 = length bs"
    and rT: "rep (nodes s) T" and oT: "ok_addrs T" and sh: "bt_shape lo (Suc m) T" and k: "ok_keys (inorder T)"
    and room: "length (is1 @ is2) < BTREE_ORDER - 1"
    and le: "\<And>i. i \<in> set is1 \<Longrightarrow> ikey i \<le> ikey it" and ge: "is2 \<noteq> [] \<Longrightarrow> ikey it \<le> ikey (hd is2)"
  shows "inserted al it (baddr c) p (length as) lo (Suc m) T s"
proof -
  have rc: "rep (nodes s) c" and oc: "ok_addrs c" and sc: "bt_shape BTREE_MIN m c"
    using rT sh ok_addrs_kid [OF oT [unfolded T]] unfolding T by auto
  have io: "inorder T = wpre (map inorder as) is1 @ inorder c @ wpost is2 (map inorder bs)"
    using len by (simp add: T weave_split)
  have kc: "ok_keys (inorder c)" using k unfolding io by (rule ok_keys_mid)
  have nz: "\<forall>i\<in>set is2. ikey i \<noteq> 0"
    using k inorder_items [of "as @ c # bs" "is1 @ is2" p] len unfolding T ok_keys_def by auto
  show ?thesis
  proof (cases "length (bitems c) < BTREE_ORDER - 1")
    case True
    show ?thesis by (rule inserted_lift [OF IH [OF rc oc sc True kc] T len rT oT sh k le ge])
  next
    case False
    have full: "length (bitems c) = BTREE_ORDER - 1" "bkids c = [] \<or> length (bkids c) = BTREE_ORDER"
      using False sc by (cases c; cases m; auto simp: order_simps)+
    consider (no) "split_full al (baddr c) p (ikey it) (length as) s = Inl Uncaught" "al (nodes s) = None"
      | (yes) r cl md cr T1 s1 where "split_kids c r = (cl, md, cr)"
          "T1 = Bt p (is1 @ md # is2) (as @ cl # cr # bs)"
          "split_full al (baddr c) p (ikey it) (length as) s = Inr (if ikey it > ikey md then r else baddr c, s1)"
          "root s1 = root s" "rep (nodes s1) T1" "ok_addrs T1" "frame (nodes s) (addrs T) (nodes s1) (addrs T1)"
      using split_child [OF al rT oT T len room nz full, of "ikey it"]
      by (elim disjE exE conjE) (erule (1) that(1), erule (6) that(2))
    then show ?thesis
    proof cases
      case no
      have "find_dest_node al (baddr c) p (ikey it) (length as) s = Some (Inl Uncaught)"
        by (subst find_dest_node.simps) (simp add: no)
      then show ?thesis unfolding inserted_def using refusedI [of al "nodes s"] no by blast
    next
      case yes
      have f7: "length (bitems c) = 7" "bkids c = [] \<or> length (bkids c) = 8" using full by (auto simp: order_simps)
      note sp = split_kids_inorder [OF yes(1) f7] split_kids_shape [OF yes(1) f7(1) sc]
      have bd: "baddr cl = baddr c" "baddr cr = r" "length (bitems cl) < BTREE_ORDER - 1"
        "length (bitems cr) < BTREE_ORDER - 1"
        using yes(1) f7(1) by (auto simp: split_kids_def order_simps)
      have rk: "rep (nodes s1) cl" "rep (nodes s1) cr" using yes(5) unfolding yes(2) by simp_all
      have ok: "ok_addrs cl" "ok_addrs cr"
        using ok_addrs_kid [OF yes(6) [unfolded yes(2)]]
          ok_addrs_kid [of p "is1 @ md # is2" "as @ [cl]" cr bs] yes(6) unfolding yes(2) by simp_all
      have io1: "inorder T1 = inorder T"
        using len weave_split [of is1 "map inorder as" "md # is2" "inorder cr # map inorder bs" "inorder cl"]
        unfolding io yes(2) sp(1) by simp
      have kk: "ok_keys (inorder cl)" "ok_keys (inorder cr)"
        using kc unfolding sp(1) by (auto simp: ok_keys_def sorted_append)
      have sh1: "bt_shape lo (Suc m) T1" using sh sp(3,4) room unfolding yes(2) T by (auto simp: order_simps)
      have k1: "ok_keys (inorder T1)" using k io1 by simp
      show ?thesis
      proof (cases "ikey it > ikey md")
        case True
        have T1': "T1 = Bt p ((is1 @ [md]) @ is2) ((as @ [cl]) @ cr # bs)" unfolding yes(2) by simp
        have "inserted al it r p (length as) lo (Suc m) T1 s1"
          by (rule inserted_lift [OF IH [OF rk(2) ok(2) sp(4) bd(4) kk(2), unfolded bd(2)] T1' _ _ yes(5,6) sh1 k1])
            (use len le ge True in auto)
        moreover have "find_dest_node al (baddr c) p (ikey it) (length as) s =
            find_dest_node al r p (ikey it) (length as) s1"
          using find_dest_split [of al "baddr c" p "ikey it" "length as" s r s1] yes(3) True
            nonfull_kid [OF rk(2) bd(4)] bd(2) by auto
        ultimately show ?thesis
          by (rule inserted_from) (use yes io1 T in auto)
      next
        case False
        have "inserted al it (baddr c) p (length as) lo (Suc m) T1 s1"
          by (rule inserted_lift [OF IH [OF rk(1) ok(1) sp(3) bd(3) kk(1), unfolded bd(1)] yes(2) _ _ yes(5,6) sh1 k1])
            (use len le False in auto)
        moreover have "find_dest_node al (baddr c) p (ikey it) (length as) s =
            find_dest_node al (baddr c) p (ikey it) (length as) s1"
          using find_dest_split [of al "baddr c" p "ikey it" "length as" s "baddr c" s1] yes(3) False
            nonfull_kid [OF rk(1) bd(3)] bd(1) by auto
        ultimately show ?thesis
          by (rule inserted_from) (use yes io1 T in auto)
      qed
    qed
  qed
qed

lemma find_insert:
  assumes al: "alloc_ok al"
  shows "rep (nodes s) t \<Longrightarrow> ok_addrs t \<Longrightarrow> bt_shape lo n t \<Longrightarrow> length (bitems t) < BTREE_ORDER - 1 \<Longrightarrow>
    ok_keys (inorder t) \<Longrightarrow> inserted al it (baddr t) par ps lo n t s"
proof (induction n arbitrary: t s par ps lo)
  case 0
  then obtain p its where t: "t = Bt p its []" by (cases t) auto
  then show ?case using leaf_insert [OF 0(1,2) t] 0 by simp
next
  case (Suc m)
  obtain p its cs where T: "t = Bt p its cs" by (cases t)
  have lc: "length cs = Suc (length its)" using Suc.prems(3) T by simp
  obtain nd where nd: "nodes s p = Some nd" "node_rep nd its (map baddr cs)"
    using rep_node [OF Suc.prems(1)] T by auto
  note cnt = node_rep_count [OF nd(2)]
  have room: "length its < BTREE_ORDER - 1" using Suc.prems(4) T by simp
  obtain i where i: "i \<le> length its" "\<forall>j<i. ikey (items nd ! j) \<le> ikey it"
      "i < length its \<longrightarrow> ikey it < ikey (items nd ! i)"
    and f: "find_dest_node al p par (ikey it) ps s =
      (if children nd ! i = 0 then ret (p, i, s) else find_dest_node al (children nd ! i) p (ikey it) i s)"
    using find_dest_nonfull [OF nd(1), of "ikey it" al par ps] room cnt by auto
  define is1 is2 as c bs where "is1 = take i its" and "is2 = drop i its" and "as = take i cs"
    and "c = cs ! i" and "bs = drop (Suc i) cs"
  have its: "its = is1 @ is2" and cs: "cs = as @ c # bs" and li: "length as = i"
    and len: "length is1 = length as" "length is2 = length bs"
    using i(1) lc by (simp_all add: is1_def is2_def as_def c_def bs_def id_take_nth_drop)
  have T': "t = Bt p (is1 @ is2) (as @ c # bs)" using T its cs by simp
  have ci: "children nd ! i = baddr c"
    using node_rep_child [OF nd(2), of i] i(1) lc c_def by simp
  have "baddr c \<noteq> 0"
    using ok_addrs_kid [OF Suc.prems(2) [unfolded T']] addrs_neq_Nil(2) [of c] unfolding ok_addrs_def by metis
  then have f': "find_dest_node al p par (ikey it) ps s = find_dest_node al (baddr c) p (ikey it) (length as) s"
    using f ci li by simp
  have le: "ikey x \<le> ikey it" if x: "x \<in> set is1" for x
  proof -
    obtain j where "j < i" "x = its ! j" using x i(1) unfolding is1_def in_set_conv_nth by auto
    then show ?thesis using i(1,2) node_rep_items [OF nd(2)] by auto
  qed
  have ge: "ikey it \<le> ikey (hd is2)" if "is2 \<noteq> []"
  proof -
    have "i < length its" using that by (simp add: is2_def)
    then show ?thesis using i(3) node_rep_items [OF nd(2)] by (simp add: is2_def hd_drop_conv_nth)
  qed
  have "inserted al it (baddr c) p (length as) lo (Suc m) t s"
    by (rule kid_insert [OF al Suc.IH T' len Suc.prems(1-3,5) _ le ge]) (use room its in simp_all)
  then show ?case
    using f' unfolding inserted_def T by simp
qed

subsection \<open>The whole tree\<close>

text \<open>
  \<open>tree_in s T\<close> is the invariant of a \<open>btree_t\<close>: \<open>None\<close> is the null root, and the only node that may be empty
  is a leaf that is the root.
\<close>

definition tree_in :: "btree_t \<Rightarrow> bt option \<Rightarrow> bool" where
  "tree_in s T \<longleftrightarrow>
     (case T of
        None \<Rightarrow> root s = 0
      | Some t \<Rightarrow> root s = baddr t \<and> rep (nodes s) t \<and> ok_addrs t \<and>
          (\<exists>n. bt_shape (if n = 0 then 0 else 1) n t) \<and> ok_keys (inorder t))"

fun contents :: "bt option \<Rightarrow> btree_node_item_t list" where
  "contents None = []"
| "contents (Some t) = inorder t"

lemma tree_in_SomeI:
  assumes "root s = baddr t" and "rep (nodes s) t" and "ok_addrs t" and "bt_shape lo n t" and "lo \<ge> 1 \<or> n = 0"
    and "ok_keys (inorder t)"
  shows "tree_in s (Some t)"
proof -
  have "bt_shape (if n = 0 then 0 else 1) n t" using assms(4,5) by (cases t) auto
  then have "\<exists>n. bt_shape (if n = 0 then 0 else 1) n t" by blast
  then show ?thesis using assms unfolding tree_in_def option.case by blast
qed

lemma empty_insert:
  assumes al: "alloc_ok al" and it: "ikey it \<noteq> 0" and s: "root s = 0 \<or> tree_in s (Some (Bt (root s) [] []))"
  shows "insert_node_empty_tree al it s = Inl Uncaught \<and> refused al (nodes s) \<or>
    (\<exists>s' p. insert_node_empty_tree al it s = Inr s' \<and> tree_in s' (Some (Bt p [it] [])))"
proof -
  have fin: "\<exists>s' p. upd_node (root s1) (\<lambda>nd. set_item 0 it (node_init nd)) s1 = Inr s' \<and>
      tree_in s' (Some (Bt p [it] []))"
    if nd: "nodes s1 (root s1) = Some nd" "length (items nd) = 7" "children nd = replicate 8 0" "root s1 \<noteq> 0" for s1 nd
  proof -
    define nd' where "nd' = nd\<lparr>items := (items nd)[0 := it], ncount := 1\<rparr>"
    have "upd_node (root s1) (\<lambda>nd. set_item 0 it (node_init nd)) s1 =
        Inr (s1\<lparr>nodes := (nodes s1)(root s1 \<mapsto> nd')\<rparr>)"
      using nd by (simp add: upd_node_def node_at_def set_item_def node_init_def put_node_def nd'_def
          order_simps uadd64_def)
    moreover have "node_rep nd' [it] []"
      using nd(2,3) by (cases "items nd") (auto simp: nd'_def node_rep_def order_simps)
    then have "tree_in (s1\<lparr>nodes := (nodes s1)(root s1 \<mapsto> nd')\<rparr>) (Some (Bt (root s1) [it] []))"
      using nd(4) it by (intro tree_in_SomeI [where lo = 0 and n = 0]) (auto simp: ok_addrs_def ok_keys_def order_simps)
    ultimately show ?thesis by blast
  qed
  show ?thesis
  proof (cases "root s = 0")
    case True
    show ?thesis
    proof (cases "al (nodes s)")
      case None
      then show ?thesis using True refusedI [of al "nodes s"]
        by (simp add: insert_node_empty_tree_def alloc_node_def)
    next
      case (Some x)
      then obtain u un where u: "al (nodes s) = Some (u, un)" by (cases x) auto
      have fr: "u \<noteq> 0" "length (items un) = 7" "children un = replicate 8 0"
        using al u unfolding alloc_ok_def by (auto simp: order_simps)
      show ?thesis
        using fin [of "s\<lparr>nodes := (nodes s)(u \<mapsto> un), root := u\<rparr>" un] fr True u
        by (simp add: insert_node_empty_tree_def alloc_node_def put_node_def)
    qed
  next
    case False
    then have "rep (nodes s) (Bt (root s) [] [])" using s unfolding tree_in_def by simp
    then obtain nd where nd: "nodes s (root s) = Some nd" "node_rep nd [] []"
      by (auto split: option.splits)
    then show ?thesis
      using fin [of s nd] False unfolding node_rep_def by (simp add: insert_node_empty_tree_def order_simps)
  qed
qed

lemma ins_rel_Nil: "ins_rel k it [] [it]"
  unfolding ins_rel_def by simp

lemma inorder_empty:
  assumes "bt_shape (if n = 0 then 0 else 1) n t" and "bitems t = []"
  shows "t = Bt (baddr t) [] []"
  using assms by (cases t; cases n) auto

lemma inserted_tree_in:
  assumes ins: "inserted al it q par ps lo n t s1" and r: "root s1 = baddr t" and lo: "lo \<ge> 1 \<or> n = 0"
    and k: "ok_keys (inorder t)" and it: "ikey it \<noteq> 0"
  shows "find_dest_node al q par (ikey it) ps s1 = Some (Inl Uncaught) \<and> refused al (nodes s1) \<or>
    (\<exists>dest pos s2 s3 t2. find_dest_node al q par (ikey it) ps s1 = ret (dest, pos, s2) \<and>
       insert_item dest pos it s2 = Inr s3 \<and> tree_in s3 (Some t2) \<and> ins_rel (ikey it) it (inorder t) (inorder t2))"
  using ins unfolding inserted_def
proof (elim disjE exE conjE)
  fix dest pos s2 s3 t2
  assume a: "find_dest_node al q par (ikey it) ps s1 = ret (dest, pos, s2)" "insert_item dest pos it s2 = Inr s3"
    "root s3 = root s1" "baddr t2 = baddr t" "rep (nodes s3) t2" "ok_addrs t2" "bt_shape lo n t2"
    "ins_rel (ikey it) it (inorder t) (inorder t2)"
  have "tree_in s3 (Some t2)"
    by (rule tree_in_SomeI [OF _ a(5-7) lo]) (use a r ins_rel_keys [OF a(8) k refl it] in auto)
  then show ?thesis using a by blast
qed blast

lemma root_insert:
  assumes al: "alloc_ok al" and t: "root s = baddr t" "rep (nodes s) t" "ok_addrs t"
      "bt_shape (if n = 0 then 0 else 1) n t" "ok_keys (inorder t)" and it: "ikey it \<noteq> 0"
  shows "find_dest_node al (root s) 0 (ikey it) 0 s = Some (Inl Uncaught) \<and> refused al (nodes s) \<or>
    (\<exists>dest pos s2 s3 t2. find_dest_node al (root s) 0 (ikey it) 0 s = ret (dest, pos, s2) \<and>
       insert_item dest pos it s2 = Inr s3 \<and> tree_in s3 (Some t2) \<and> ins_rel (ikey it) it (inorder t) (inorder t2))"
proof (cases "length (bitems t) < BTREE_ORDER - 1")
  case True
  show ?thesis
    unfolding t(1)
    by (rule inserted_tree_in [OF find_insert [OF al t(2-4) True t(5)] t(1) _ t(5) it]) simp
next
  case False
  have full: "length (bitems t) = BTREE_ORDER - 1" "bkids t = [] \<or> length (bkids t) = BTREE_ORDER"
    using False t(4) by (cases t; cases n; auto simp: order_simps)+
  have f7: "length (bitems t) = 7" "bkids t = [] \<or> length (bkids t) = 8" using full by (auto simp: order_simps)
  consider (no) "split_full al (baddr t) 0 (ikey it) 0 s = Inl Uncaught" "refused al (nodes s)"
    | (yes) r cl m cr u s1 where "split_kids t r = (cl, m, cr)" "split_full al (baddr t) 0 (ikey it) 0 s = Inr (u, s1)"
       "root s1 = u" "rep (nodes s1) (Bt u [m] [cl, cr])" "ok_addrs (Bt u [m] [cl, cr])"
       "refused al (nodes s1) \<longrightarrow> refused al (nodes s)"
    using split_root [OF al t(2,3) full, of "ikey it" 0]
    by (elim disjE exE conjE) (erule (1) that(1), erule (5) that(2))
  then show ?thesis
  proof cases
    case no
    have "find_dest_node al (baddr t) 0 (ikey it) 0 s = Some (Inl Uncaught)"
      by (subst find_dest_node.simps) (simp add: no)
    then show ?thesis using no t(1) by simp
  next
    case yes
    let ?T1 = "Bt u [m] [cl, cr]"
    note sp = split_kids_inorder [OF yes(1) f7] split_kids_shape [OF yes(1) f7(1) t(4)]
    have io: "inorder ?T1 = inorder t" by (simp add: sp(1))
    have sh: "bt_shape 1 (Suc n) ?T1" using sp(3,4) by (simp add: order_simps)
    have room: "length (bitems ?T1) < BTREE_ORDER - 1" by (simp add: order_simps)
    have k: "ok_keys (inorder ?T1)" unfolding io by (rule t(5))
    obtain nd where nd: "nodes s1 u = Some nd" "ncount nd < BTREE_ORDER - 1"
      using nonfull_kid [OF yes(4) room] by auto
    have e: "find_dest_node al (root s) 0 (ikey it) 0 s = find_dest_node al u 0 (ikey it) 0 s1"
      unfolding t(1) by (rule find_dest_split [OF yes(2) nd])
    have "inserted al it u 0 0 1 (Suc n) ?T1 s1"
      using find_insert [OF al yes(4,5) sh room k, of it 0 0] by simp
    from inserted_tree_in [OF this _ _ k it] show ?thesis
      unfolding e io using yes(3,6) by auto
  qed
qed

lemma insert_tree:
  assumes al: "alloc_ok al" and T: "tree_in s T" and key: "key \<noteq> 0"
  shows "btree_insert al key val s = Some (Inl Uncaught) \<and> refused al (nodes s) \<or>
    (\<exists>s' T'. btree_insert al key val s = ret (0, s') \<and> tree_in s' T' \<and>
       ins_rel key \<lparr>ikey = key, ival = val\<rparr> (contents T) (contents T'))"
proof -
  define it where "it = \<lparr>ikey = key, ival = val\<rparr>"
  have ik: "ikey it = key" "ikey it \<noteq> 0" using key by (simp_all add: it_def)
  have empty: ?thesis if e: "is_empty s = Inr True" "contents T = []"
    "root s = 0 \<or> tree_in s (Some (Bt (root s) [] []))"
  proof -
    have b: "btree_insert al key val s = bindX (Some (insert_node_empty_tree al it s)) (\<lambda>s. ret (0, s))"
      using e(1) by (simp add: btree_insert_def it_def)
    have r: "ins_rel key it (contents T) (contents (Some (Bt p [it] [])))" for p
      using ins_rel_Nil e(2) by simp
    show ?thesis
      using empty_insert [OF al ik(2) e(3)]
    proof (elim disjE exE conjE)
      fix s' p
      assume "insert_node_empty_tree al it s = Inr s'" "tree_in s' (Some (Bt p [it] []))"
      then show ?thesis using b r [of p] it_def by (metis bindX_simps(3))
    qed (simp_all add: b ik)
  qed
  show ?thesis
  proof (cases T)
    case None
    then show ?thesis using T empty by (simp add: tree_in_def is_empty_def)
  next
    case (Some t)
    obtain n where t: "root s = baddr t" "rep (nodes s) t" "ok_addrs t"
      "bt_shape (if n = 0 then 0 else 1) n t" "ok_keys (inorder t)"
      using T unfolding Some tree_in_def option.case by blast
    have r0: "root s \<noteq> 0" using t(1,3) addrs_neq_Nil(2) [of t] unfolding ok_addrs_def by metis
    obtain nd where nd: "nodes s (root s) = Some nd" "node_rep nd (bitems t) (map baddr (bkids t))"
      using rep_node [OF t(2)] t(1) by auto
    note cnt = node_rep_count [OF nd(2)]
    have ie: "is_empty s = Inr (bitems t = [])" using r0 nd(1) cnt by (simp add: is_empty_def node_at_def)
    show ?thesis
    proof (cases "bitems t = []")
      case True
      then have "t = Bt (root s) [] []" using inorder_empty [OF t(4)] t(1) by simp
      then show ?thesis using empty ie True T Some by (metis contents.simps(2) inorder.simps)
    next
      case False
      have "btree_insert al key val s = bindX (find_dest_node al (root s) 0 (ikey it) 0 s)
          (\<lambda>(dest, pos, s). bindX (Some (insert_item dest pos it s)) (\<lambda>s. ret (0, s)))"
        using ie False ik by (simp add: btree_insert_def it_def)
      then show ?thesis
        using root_insert [OF al t, of it] key ik Some it_def by fastforce
    qed
  qed
qed

subsection \<open>Queries\<close>

lemma scan_node_cases:
  "case scan_node nd key js of
     Hit i \<Rightarrow> i \<in> set js \<and> node_contains_item nd i key
   | Down i \<Rightarrow> (\<exists>pre post. js = pre @ i # post \<and>
       (\<forall>j\<in>set pre. \<not> node_contains_item nd j key \<and> \<not> node_child_can_contain_item nd j key)) \<and>
       node_child_can_contain_item nd i key \<and> \<not> node_contains_item nd i key
   | Miss \<Rightarrow> (\<forall>j\<in>set js. \<not> node_contains_item nd j key \<and> \<not> node_child_can_contain_item nd j key)"
proof (induction js)
  case (Cons a js)
  consider "node_contains_item nd a key"
    | "\<not> node_contains_item nd a key" "node_child_can_contain_item nd a key"
    | "\<not> node_contains_item nd a key" "\<not> node_child_can_contain_item nd a key" by blast
  then show ?case
  proof cases
    case 2
    then show ?thesis by (auto intro: exI [of _ "[]"])
  next
    case 3
    show ?thesis
    proof (cases "scan_node nd key js")
      case (Down i)
      then obtain pre post where "js = pre @ i # post"
        "\<forall>j\<in>set pre. \<not> node_contains_item nd j key \<and> \<not> node_child_can_contain_item nd j key"
        using Cons by auto
      then have "a # js = (a # pre) @ i # post \<and>
          (\<forall>j\<in>set (a # pre). \<not> node_contains_item nd j key \<and> \<not> node_child_can_contain_item nd j key)"
        using 3 by simp
      moreover have "scan_node nd key (a # js) = Down i" using 3 Down by simp
      moreover have "node_child_can_contain_item nd i key \<and> \<not> node_contains_item nd i key"
        using Down Cons by simp
      ultimately show ?thesis by (simp only: slot.case) blast
    qed (use 3 Cons in auto)
  qed simp
qed simp

lemma upt_split: "[0..<n] = pre @ i # post \<Longrightarrow> set pre = {0..<i} \<and> i < n"
proof -
  assume u: "[0..<n] = pre @ i # post"
  have "length pre < n" using arg_cong [OF u, of length] by simp
  moreover have "[0..<n] ! length pre = i" using u by simp
  ultimately have l: "length pre = i" by simp
  have "pre = take i [0..<n]" using u l by simp
  then show ?thesis using l \<open>length pre < n\<close> by (simp add: take_upt)
qed

lemma scan_Hit: "scan_node nd key js = Hit i \<Longrightarrow> i \<in> set js \<and> node_contains_item nd i key"
  using scan_node_cases [where nd = nd and key = key and js = js] by simp

lemma scan_Miss:
  "scan_node nd key js = Miss \<Longrightarrow> j \<in> set js \<Longrightarrow>
   \<not> node_contains_item nd j key \<and> \<not> node_child_can_contain_item nd j key"
  using scan_node_cases [where nd = nd and key = key and js = js] by simp

lemma scan_Down:
  assumes "scan_node nd key [0..<n] = Down i"
  shows "i < n" and "node_child_can_contain_item nd i key" and "\<not> node_contains_item nd i key"
    and "\<And>j. j < i \<Longrightarrow> \<not> node_contains_item nd j key \<and> \<not> node_child_can_contain_item nd j key"
proof -
  obtain pre post where p: "[0..<n] = pre @ i # post"
    "\<forall>j\<in>set pre. \<not> node_contains_item nd j key \<and> \<not> node_child_can_contain_item nd j key"
    and i: "node_child_can_contain_item nd i key" "\<not> node_contains_item nd i key"
    using scan_node_cases [where nd = nd and key = key and js = "[0..<n]"] unfolding assms slot.case by blast
  show "i < n" using upt_split [OF p(1)] by simp
  show "node_child_can_contain_item nd i key" and "\<not> node_contains_item nd i key" by (rule i)+
  show "\<not> node_contains_item nd j key \<and> \<not> node_child_can_contain_item nd j key" if "j < i" for j
    using p(2) upt_split [OF p(1)] that by simp
qed

lemma node_slot_leaf:
  assumes nr: "node_rep nd its []" and l: "length its < BTREE_ORDER"
  shows "(\<exists>i. node_slot nd key = Inr (Hit i) \<and> i < length its \<and> items nd ! i = its ! i \<and> ikey (its ! i) = key) \<or>
    node_slot nd key = Inr Miss \<and> key \<notin> ikey ` set its"
proof -
  note cnt = node_rep_count [OF nr] and it = node_rep_items [OF nr]
  have nc: "\<not> node_child_can_contain_item nd j key" if "j < Suc (length its)" for j
    using node_rep_leaf [OF nr, of j] that l by (simp add: node_child_can_contain_item_def)
  have sl: "node_slot nd key = Inr (scan_node nd key [0..<Suc (length its)])"
    using l cnt by (simp add: node_slot_def)
  show ?thesis
  proof (cases "scan_node nd key [0..<Suc (length its)]")
    case (Hit i)
    then show ?thesis using scan_Hit [OF Hit] sl cnt it by (auto simp: node_contains_item_def)
  next
    case (Down i)
    then show ?thesis using scan_Down(1,2) [OF Down] nc by blast
  next
    case Miss
    have "ikey (its ! j) \<noteq> key" if "j < length its" for j
      using scan_Miss [OF Miss, of j] cnt it that by (simp add: node_contains_item_def)
    then have "key \<notin> ikey ` set its" by (metis imageE in_set_conv_nth)
    then show ?thesis using sl Miss by simp
  qed
qed

lemma node_slot_inner:
  assumes nr: "node_rep nd its ps" and l: "length its < BTREE_ORDER" "length ps = Suc (length its)"
    and p0: "0 \<notin> set ps"
  shows "(\<exists>i. node_slot nd key = Inr (Hit i) \<and> i < length its \<and> items nd ! i = its ! i \<and> ikey (its ! i) = key) \<or>
    (\<exists>i. node_slot nd key = Inr (Down i) \<and> i \<le> length its \<and> (\<forall>j<i. ikey (its ! j) < key) \<and>
       (i < length its \<longrightarrow> key < ikey (its ! i)) \<and> children nd ! i = ps ! i)"
proof -
  note cnt = node_rep_count [OF nr] and it = node_rep_items [OF nr] and ch = node_rep_child [OF nr]
  have nz: "children nd ! j \<noteq> 0" if "j \<le> length its" for j
    using ch [of j] p0 l that nth_mem [of j ps] by (metis less_Suc_eq_le)
  let ?js = "[0..<Suc (length its)]"
  have sl: "node_slot nd key = Inr (scan_node nd key ?js)" using l cnt by (simp add: node_slot_def)
  show ?thesis
  proof (cases "scan_node nd key ?js")
    case (Hit i)
    then show ?thesis using scan_Hit [OF Hit] sl cnt it by (auto simp: node_contains_item_def)
  next
    case (Down i)
    note d = scan_Down [OF Down]
    have "ikey (its ! j) < key" if "j < i" for j
    proof -
      have "j < length its" using d(1) that by simp
      then show ?thesis
        using d(4) [OF that] nz [of j] cnt it [of j]
        by (simp add: node_contains_item_def node_child_can_contain_item_def)
    qed
    moreover have "i < length its \<longrightarrow> key < ikey (its ! i)"
      using d(2) cnt it [of i] by (auto simp: node_child_can_contain_item_def)
    moreover have "children nd ! i = ps ! i" using ch d(1) l(2) by simp
    ultimately show ?thesis using sl Down d(1) by (metis less_Suc_eq_le)
  next
    case Miss
    then show ?thesis
      using scan_Miss [OF Miss, of "length its"] nz [of "length its"] cnt
      by (simp add: node_child_can_contain_item_def)
  qed
qed

lemma key_in_kid:
  assumes T: "T = Bt p (is1 @ is2) (as @ c # bs)" and len: "length is1 = length as" "length is2 = length bs"
    and k: "ok_keys (inorder T)" and le: "\<And>i. i \<in> set is1 \<Longrightarrow> ikey i < key" and ge: "is2 \<noteq> [] \<Longrightarrow> key < ikey (hd is2)"
    and x: "x \<in> set (inorder T)" "ikey x = key"
  shows "x \<in> set (inorder c)"
proof -
  let ?pre = "wpre (map inorder as) is1" and ?post = "wpost is2 (map inorder bs)"
  have io: "inorder T = ?pre @ inorder c @ ?post" using len by (simp add: T weave_split)
  have "ikey y \<le> key - 1" if "y \<in> set ?pre" for y
    by (rule wpre_le [OF _ _ _ that]) (use len k io le in \<open>force simp: ok_keys_append\<close>)+
  moreover have "0 < key" if "is1 \<noteq> []" using le [OF hd_in_set [OF that]] by simp
  moreover have "is1 = [] \<Longrightarrow> ?pre = []" using len by simp
  ultimately have "x \<notin> set ?pre" using x(2) by fastforce
  moreover have "Suc key \<le> ikey y" if "y \<in> set ?post" for y
    using that k io ge wpost_ge [of "hd is2" "tl is2" "map inorder bs" "Suc key" y]
    by (cases is2) (auto simp: ok_keys_append)
  then have "x \<notin> set ?post" using x(2) by fastforce
  ultimately show ?thesis using x(1) unfolding io by simp
qed

text \<open>The path a search takes: what it finds is an item of the tree with that key, if there is one.\<close>

definition finds :: "nat \<Rightarrow> nat \<Rightarrow> btree_t \<Rightarrow> btree_node_item_t list \<Rightarrow> bool" where
  "finds p key s xs \<longleftrightarrow>
     (\<exists>x\<in>set xs. ikey x = key \<and> get_in_node p key s = ret (ival x) \<and> lookup_in_node p key s = ret 1) \<or>
     key \<notin> ikey ` set xs \<and> get_in_node p key s = ret 0 \<and> lookup_in_node p key s = ret 0"

lemma search_step:
  assumes "nodes s p = Some nd" and "node_slot nd key = Inr sl"
  shows "get_in_node p key s =
      (case sl of Hit i \<Rightarrow> ret (ival (items nd ! i)) | Down i \<Rightarrow> get_in_node (children nd ! i) key s | Miss \<Rightarrow> ret 0)"
    and "lookup_in_node p key s =
      (case sl of Hit i \<Rightarrow> ret 1 | Down i \<Rightarrow> lookup_in_node (children nd ! i) key s | Miss \<Rightarrow> ret 0)"
  by (subst get_in_node.simps lookup_in_node.simps, simp add: node_at_def assms)+

lemma search_finds:
  "rep (nodes s) t \<Longrightarrow> ok_addrs t \<Longrightarrow> mshape k lo n t \<Longrightarrow> ok_keys (inorder t) \<Longrightarrow>
   finds (baddr t) key s (inorder t)"
proof (induction n arbitrary: t lo)
  case 0
  then obtain p its where t: "t = Bt p its []" by (cases t) auto
  obtain nd where nd: "nodes s p = Some nd" "node_rep nd its []" using rep_node [OF 0(1)] t by auto
  have l: "length its < BTREE_ORDER" using 0(3) t by (simp add: order_simps)
  show ?case
    using node_slot_leaf [OF nd(2) l, of key]
  proof (elim disjE exE conjE)
    fix i assume "node_slot nd key = Inr (Hit i)" "i < length its" "items nd ! i = its ! i" "ikey (its ! i) = key"
    then show ?thesis using search_step [OF nd(1)] nth_mem [of i its] unfolding finds_def t by auto
  next
    assume "node_slot nd key = Inr Miss" "key \<notin> ikey ` set its"
    then show ?thesis using search_step [OF nd(1)] unfolding finds_def t by simp
  qed
next
  case (Suc m)
  obtain p its cs where T: "t = Bt p its cs" by (cases t)
  have lc: "length cs = Suc (length its)" using Suc.prems(3) T by simp
  obtain nd where nd: "nodes s p = Some nd" "node_rep nd its (map baddr cs)"
    using rep_node [OF Suc.prems(1)] T by auto
  have l: "length its < BTREE_ORDER" using Suc.prems(3) T by (simp add: order_simps)
  have p0: "0 \<notin> set (map baddr cs)"
  proof
    assume "0 \<in> set (map baddr cs)"
    then obtain c where "c \<in> set cs" "baddr c = 0" by auto
    then have "0 \<in> set (addrs t)" using addrs_neq_Nil(2) [of c] T by auto
    then show False using Suc.prems(2) by (simp add: ok_addrs_def)
  qed
  show ?case
    using node_slot_inner [OF nd(2) l _ p0, of key] lc
  proof (elim meta_impE disjE exE conjE)
    fix i assume a: "node_slot nd key = Inr (Hit i)" "i < length its" "items nd ! i = its ! i" "ikey (its ! i) = key"
    have "its ! i \<in> set (inorder t)" using inorder_items [of cs its p] nth_mem [OF a(2)] lc T by auto
    then show ?thesis using search_step [OF nd(1) a(1)] a unfolding finds_def T by auto
  next
    fix i assume a: "node_slot nd key = Inr (Down i)" "i \<le> length its" "\<forall>j<i. ikey (its ! j) < key"
      "i < length its \<longrightarrow> key < ikey (its ! i)" "children nd ! i = map baddr cs ! i"
    define is1 is2 as c bs where "is1 = take i its" and "is2 = drop i its" and "as = take i cs"
      and "c = cs ! i" and "bs = drop (Suc i) cs"
    have T': "t = Bt p (is1 @ is2) (as @ c # bs)" and len: "length is1 = length as" "length is2 = length bs"
      using a(2) lc T by (simp_all add: is1_def is2_def as_def c_def bs_def id_take_nth_drop)
    have io: "inorder t = wpre (map inorder as) is1 @ inorder c @ wpost is2 (map inorder bs)"
      using len by (simp add: T' weave_split)
    have f: "finds (baddr c) key s (inorder c)"
      by (rule Suc.IH [OF _ ok_addrs_kid [OF Suc.prems(2) [unfolded T']]])
        (use Suc.prems T' ok_keys_mid [OF Suc.prems(4) [unfolded io]] in auto)
    have le: "ikey x < key" if x: "x \<in> set is1" for x
      using x a(2,3) unfolding is1_def in_set_conv_nth by auto
    have ge: "key < ikey (hd is2)" if "is2 \<noteq> []"
      using that a(4) by (simp add: is2_def hd_drop_conv_nth)
    note ki = key_in_kid [OF T' len Suc.prems(4) le ge]
    have cc: "children nd ! i = baddr c" using a(2,5) lc by (simp add: c_def)
    have sub: "set (inorder c) \<subseteq> set (inorder t)" unfolding io by auto
    have e: "get_in_node p key s = get_in_node (baddr c) key s" "lookup_in_node p key s = lookup_in_node (baddr c) key s"
      using search_step [OF nd(1) a(1)] cc by simp_all
    show ?thesis
      using f ki sub unfolding finds_def e T bt.sel by (auto simp del: inorder.simps)
  qed auto
qed

subsection \<open>Iteration\<close>

fun visit :: "(nat \<Rightarrow> nat \<Rightarrow> 'a \<Rightarrow> int \<times> 'a) \<Rightarrow> btree_node_item_t list \<Rightarrow> 'a \<Rightarrow> int \<times> 'a" where
  "visit cb [] arg = (0, arg)"
| "visit cb (x # xs) arg =
     (let rb = cb (ikey x) (ival x) arg in if fst rb \<noteq> 0 then (1, snd rb) else visit cb xs (snd rb))"

lemma visit_append:
  "visit cb (xs @ ys) arg =
   (let ra = visit cb xs arg in if fst ra \<noteq> 0 then (1, snd ra) else visit cb ys (snd ra))"
  by (induction xs arbitrary: arg) (auto simp: Let_def)

lemma foreach_null: "foreach_node cb 0 0 s arg = ret (0, arg)"
  by (subst foreach_node.simps) simp

lemma foreach_step:
  assumes "p \<noteq> 0" and "nodes s p = Some nd" and "i \<le> ncount nd" and "ncount nd < BTREE_ORDER"
    and "foreach_node cb (children nd ! i) 0 s arg = ret ra"
  shows "foreach_node cb p i s arg =
    (if fst ra \<noteq> 0 then ret (1, snd ra)
     else if i \<noteq> ncount nd \<and> ikey (items nd ! i) \<noteq> 0
     then (let rb = cb (ikey (items nd ! i)) (ival (items nd ! i)) (snd ra)
           in if fst rb \<noteq> 0 then ret (1, snd rb) else foreach_node cb p (Suc i) s (snd rb))
     else foreach_node cb p (Suc i) s (snd ra))"
  by (subst foreach_node.simps) (use assms in \<open>simp add: node_at_def\<close>)

lemma foreach_end:
  assumes "p \<noteq> 0" and "nodes s p = Some nd"
  shows "foreach_node cb p (Suc (ncount nd)) s arg = ret (0, arg)"
  by (subst foreach_node.simps) (use assms in \<open>simp add: node_at_def\<close>)

lemma foreach_loop:
  assumes p: "p \<noteq> 0" "nodes s p = Some nd" and nr: "node_rep nd its ps" "length its < BTREE_ORDER"
    and nz: "\<forall>x\<in>set its. ikey x \<noteq> 0" and len: "length yss = Suc (length its)"
    and kids: "\<And>j arg. j \<le> length its \<Longrightarrow> foreach_node cb (children nd ! j) 0 s arg = ret (visit cb (yss ! j) arg)"
  shows "i \<le> length its \<Longrightarrow>
    foreach_node cb p i s arg = ret (visit cb (weave (drop i yss) (drop i its)) arg)"
proof (induction "length its - i" arbitrary: i arg)
  note cnt = node_rep_count [OF nr(1)]
  case 0
  then have i: "i = length its" by simp
  have "drop i yss = [yss ! i]" using i len by (simp add: Cons_nth_drop_Suc [symmetric])
  then show ?case
    using foreach_step [OF p, of i cb arg] kids [of i arg] i nr(2) cnt foreach_end [OF p, of cb]
      visit_append [of cb "yss ! i" "[]" arg] by (auto simp: Let_def split: if_splits)
next
  note cnt = node_rep_count [OF nr(1)]
  case (Suc d)
  have i: "i < length its" using Suc.hyps(2) by simp
  have dr: "drop i yss = yss ! i # drop (Suc i) yss" "drop i its = its ! i # drop (Suc i) its"
    using i len by (simp_all add: Cons_nth_drop_Suc)
  have it: "items nd ! i = its ! i" "ikey (its ! i) \<noteq> 0" using node_rep_items [OF nr(1) i] nz i by auto
  have IH: "foreach_node cb p (Suc i) s a = ret (visit cb (weave (drop (Suc i) yss) (drop (Suc i) its)) a)" for a
    using Suc.hyps i by simp
  show ?case
    using foreach_step [OF p, of i cb arg] kids [of i arg] i nr(2) cnt it IH
    by (auto simp: dr visit_append Let_def)
qed

lemma foreach_tree:
  "rep (nodes s) t \<Longrightarrow> ok_addrs t \<Longrightarrow> bt_shape lo n t \<Longrightarrow> ok_keys (inorder t) \<Longrightarrow>
   foreach_node cb (baddr t) 0 s arg = ret (visit cb (inorder t) arg)"
proof (induction n arbitrary: t lo arg)
  case 0
  then obtain p its where t: "t = Bt p its []" by (cases t) auto
  obtain nd where nd: "nodes s p = Some nd" "node_rep nd its []" using rep_node [OF 0(1)] t by auto
  have l: "length its < BTREE_ORDER" "p \<noteq> 0" using 0(2,3) t by (auto simp: order_simps ok_addrs_def)
  have nz: "\<forall>x\<in>set its. ikey x \<noteq> 0" using 0(4) t by (simp add: ok_keys_def)
  have w: "weave (replicate (Suc (length xs)) []) xs = xs" for xs :: "btree_node_item_t list"
    by (induction xs) simp_all
  have "foreach_node cb p 0 s arg = ret (visit cb (weave (drop 0 (replicate (Suc (length its)) [])) (drop 0 its)) arg)"
    by (rule foreach_loop [OF l(2) nd(1,2) l(1) nz])
      (use node_rep_leaf [OF nd(2)] l(1) foreach_null in \<open>auto simp del: replicate.simps\<close>)
  then show ?case using w [of its] t by simp
next
  case (Suc m)
  obtain p its cs where T: "t = Bt p its cs" by (cases t)
  have lc: "length cs = Suc (length its)" using Suc.prems(3) T by simp
  obtain nd where nd: "nodes s p = Some nd" "node_rep nd its (map baddr cs)"
    using rep_node [OF Suc.prems(1)] T by auto
  have l: "length its < BTREE_ORDER" "p \<noteq> 0" using Suc.prems(2,3) T by (auto simp: order_simps ok_addrs_def)
  have nz: "\<forall>x\<in>set its. ikey x \<noteq> 0"
    using Suc.prems(4) inorder_items [of cs its p] lc T unfolding ok_keys_def by blast
  have kid: "foreach_node cb (children nd ! j) 0 s arg = ret (visit cb (map inorder cs ! j) arg)"
    if j: "j \<le> length its" for j arg
  proof -
    define as c bs where "as = take j cs" and "c = cs ! j" and "bs = drop (Suc j) cs"
    have cs: "cs = as @ c # bs" using j lc by (simp add: as_def c_def bs_def id_take_nth_drop)
    have T': "t = Bt p (take j its @ drop j its) (as @ c # bs)" using T cs by simp
    have lj: "length (take j its) = length as" "length (drop j its) = length bs"
      using j lc by (simp_all add: as_def bs_def)
    have "ok_keys (inorder c)"
      using Suc.prems(4) weave_split [of "take j its" "map inorder as" "drop j its" "map inorder bs" "inorder c"] lj
      unfolding T' by (auto intro: ok_keys_mid)
    moreover have "children nd ! j = baddr c"
      using node_rep_child [OF nd(2), of j] j lc by (simp add: c_def)
    moreover have "rep (nodes s) c" "bt_shape BTREE_MIN m c" using Suc.prems(1,3) T' by auto
    ultimately show ?thesis
      using Suc.IH [of c BTREE_MIN arg] ok_addrs_kid [OF Suc.prems(2) [unfolded T']] j lc by (simp add: c_def)
  qed
  have "foreach_node cb p 0 s arg = ret (visit cb (weave (drop 0 (map inorder cs)) (drop 0 its)) arg)"
    by (rule foreach_loop [OF l(2) nd l(1) nz _ kid]) (use lc in simp_all)
  then show ?case using T lc by auto
qed

lemma tree_in_SomeE:
  assumes "tree_in s (Some t)"
  obtains n where "root s = baddr t" "root s \<noteq> 0" "rep (nodes s) t" "ok_addrs t"
    "bt_shape (if n = 0 then 0 else 1) n t" "ok_keys (inorder t)"
proof -
  obtain n where t: "root s = baddr t" "rep (nodes s) t" "ok_addrs t"
      "bt_shape (if n = 0 then 0 else 1) n t" "ok_keys (inorder t)"
    using assms unfolding tree_in_def option.case by blast
  moreover have "root s \<noteq> 0" using t(1,3) addrs_neq_Nil(2) [of t] unfolding ok_addrs_def by metis
  ultimately show ?thesis using that by blast
qed

lemma tree_finds:
  assumes "root s = baddr t" and "rep (nodes s) t" and "ok_addrs t" and "mshape k lo n t" and "ok_keys (inorder t)"
  shows "(\<exists>x\<in>set (inorder t). ikey x = key \<and> btree_get key s = ret (ival x) \<and> btree_map_lookup key s = ret 1) \<or>
    key \<notin> ikey ` set (inorder t) \<and> btree_get key s = ret 0 \<and> btree_map_lookup key s = ret 0"
proof -
  have "root s \<noteq> 0" using assms(1,3) addrs_neq_Nil(2) [of t] unfolding ok_addrs_def by metis
  then show ?thesis
    using search_finds [OF assms(2-5), of key] assms(1) unfolding finds_def
    by (auto simp: btree_get_def btree_map_lookup_def)
qed

lemma queries_find:
  assumes "tree_in s T"
  shows "(\<exists>x\<in>set (contents T). ikey x = key \<and> btree_get key s = ret (ival x) \<and> btree_map_lookup key s = ret 1) \<or>
    key \<notin> ikey ` set (contents T) \<and> btree_get key s = ret 0 \<and> btree_map_lookup key s = ret 0"
proof (cases T)
  case None
  then show ?thesis using assms by (simp add: tree_in_def btree_get_def btree_map_lookup_def)
next
  case (Some t)
  obtain n where t: "root s = baddr t" "root s \<noteq> 0" "rep (nodes s) t" "ok_addrs t"
    "bt_shape (if n = 0 then 0 else 1) n t" "ok_keys (inorder t)"
    using tree_in_SomeE assms Some by metis
  show ?thesis
    using tree_finds [OF t(1) t(3,4) t(5) [unfolded bt_shape_mshape] t(6), of key] by (simp add: Some)
qed

text \<open>
  C24: On every tree of the invariant \<open>btree_map_lookup\<close> answers 1 exactly for the keys of the tree, and
  \<open>get\<close> returns the value of an item with the key, or 0 when there is none.
\<close>

theorem btree_queries:
  assumes "tree_in s T"
  shows "btree_map_lookup key s = ret (if key \<in> ikey ` set (contents T) then 1 else 0) \<and>
    (\<exists>v. btree_get key s = ret v \<and>
       (if key \<in> ikey ` set (contents T) then \<lparr>ikey = key, ival = v\<rparr> \<in> set (contents T) else v = 0))"
  using queries_find [OF assms, of key]
proof (elim disjE bexE conjE)
  fix x assume x: "x \<in> set (contents T)" "ikey x = key" "btree_get key s = ret (ival x)"
    "btree_map_lookup key s = ret 1"
  then have "x = \<lparr>ikey = key, ival = ival x\<rparr>" by simp
  then show ?thesis using x by (metis image_eqI)
qed simp

text \<open>
  \<open>foreach\<close> calls the callback on the items in the order of the keys, up to the first call that
  returns a value other than 0, and then returns 1.
\<close>

theorem btree_foreach_in_order:
  assumes "tree_in s T"
  shows "btree_foreach cb s arg = ret (visit cb (contents T) arg) \<and> sorted (map ikey (contents T))"
proof (cases T)
  case None
  then show ?thesis using assms by (simp add: tree_in_def btree_foreach_def foreach_null)
next
  case (Some t)
  obtain n where t: "root s = baddr t" "root s \<noteq> 0" "rep (nodes s) t" "ok_addrs t"
    "bt_shape (if n = 0 then 0 else 1) n t" "ok_keys (inorder t)"
    using tree_in_SomeE assms Some by metis
  show ?thesis
    using foreach_tree [OF t(3-6), of cb arg] t(1,6) by (simp add: Some btree_foreach_def ok_keys_def)
qed


lemma ins_rel_set: "ins_rel k it old new \<Longrightarrow> set new = insert it (set old)"
  unfolding ins_rel_def by auto

lemma queries_value:
  assumes T: "tree_in s T" and x: "x \<in> set (contents T)" and inj: "inj_on ikey (set (contents T))"
  shows "btree_get (ikey x) s = ret (ival x) \<and> btree_map_lookup (ikey x) s = ret 1"
  using queries_find [OF T, of "ikey x"] x inj_onD [OF inj _ _ x] by fastforce

lemma queries_none:
  assumes "tree_in s T" and "key \<notin> ikey ` set (contents T)"
  shows "btree_get key s = ret 0 \<and> btree_map_lookup key s = ret 0"
  using queries_find [OF assms(1), of key] assms(2) by auto

text \<open>
  After an insertion of a key the tree does not hold, \<open>get\<close> of it returns the value, and every other
  query returns what it returned before, when the keys are distinct.
\<close>

theorem btree_insert_get:
  assumes al: "alloc_ok al" and T: "tree_in s T" and key: "key \<noteq> 0" "key \<notin> ikey ` set (contents T)"
    and d: "inj_on ikey (set (contents T))" and ok: "btree_insert al key val s = ret (r, s')"
  shows "btree_get key s' = ret val \<and> btree_map_lookup key s' = ret 1 \<and>
    (\<forall>k. k \<noteq> key \<longrightarrow> btree_get k s' = btree_get k s \<and> btree_map_lookup k s' = btree_map_lookup k s)"
proof -
  let ?it = "\<lparr>ikey = key, ival = val\<rparr>"
  obtain T' where T': "tree_in s' T'" "ins_rel key ?it (contents T) (contents T')"
    using insert_tree [OF al T key(1), of val] ok by (auto simp: ret_def)
  note st = ins_rel_set [OF T'(2)]
  have inj: "inj_on ikey (set (contents T'))" unfolding st using d key(2) by (simp add: inj_on_insert) blast
  have "btree_get k s' = btree_get k s \<and> btree_map_lookup k s' = btree_map_lookup k s" if k: "k \<noteq> key" for k
  proof (cases "k \<in> ikey ` set (contents T)")
    case True
    then obtain x where x: "x \<in> set (contents T)" "k = ikey x" by blast
    then show ?thesis using queries_value [OF T x(1) d] queries_value [OF T'(1) _ inj, of x] st by simp
  next
    case False
    then have "k \<notin> ikey ` set (contents T')" unfolding st using k by simp
    then show ?thesis using queries_none [OF T False] queries_none [OF T'(1)] by simp
  qed
  then show ?thesis using queries_value [OF T'(1) _ inj, of ?it] st by simp
qed

subsection \<open>An allocator and a tree\<close>

definition blank_node :: btree_node_t where
  "blank_node = \<lparr>ncount = 0, items = replicate 7 zero_item, children = replicate 8 0\<rparr>"

definition demo_alloc :: node_alloc where
  "demo_alloc h = map_option (\<lambda>p. (p, blank_node)) (List.find (\<lambda>p. h p = None) [1..<33])"

lemma demo_alloc_ok: "alloc_ok demo_alloc"
  unfolding alloc_ok_def demo_alloc_def
  by (auto simp: find_Some_iff blank_node_def order_simps simp del: upt_Suc) 

definition demo_items :: "btree_node_item_t list" where
  "demo_items = [zero_item, zero_item, zero_item, zero_item, zero_item]"

definition demo_tree :: btree_t where
  "demo_tree = \<lparr>root = 1, nodes = [1 \<mapsto> blank_node\<lparr>ncount := 1,
     items := \<lparr>ikey = 5, ival = 50\<rparr> # zero_item # demo_items\<rparr>]\<rparr>"

lemma demo_tree_in: "tree_in demo_tree (Some (Bt 1 [\<lparr>ikey = 5, ival = 50\<rparr>] []))"
  by (rule tree_in_SomeI [where lo = 1 and n = 0])
    (simp_all add: demo_tree_def demo_items_def blank_node_def node_rep_def order_simps ok_addrs_def ok_keys_def)

definition demo_tree7 :: btree_t where
  "demo_tree7 = \<lparr>root = 1, nodes = [1 \<mapsto> blank_node\<lparr>ncount := Suc (Suc 0),
     items := \<lparr>ikey = 5, ival = 50\<rparr> # \<lparr>ikey = 7, ival = 70\<rparr> # demo_items\<rparr>]\<rparr>"

lemma demo_insert: "btree_insert demo_alloc 7 70 demo_tree = ret (0, demo_tree7)"
proof -
  have "find_dest_node demo_alloc 1 0 7 0 demo_tree = ret (1, 1, demo_tree)"
    by (subst find_dest_node.simps)
      (simp add: split_full_def node_at_def demo_tree_def blank_node_def order_simps upt_rec [of 0] upt_rec [of "Suc 0"])
  moreover have "insert_item 1 1 \<lparr>ikey = 7, ival = 70\<rparr> demo_tree = Inr demo_tree7"
    by (simp add: insert_item_def upd_node_def node_at_def put_node_def set_item_def demo_tree_def demo_tree7_def
        blank_node_def order_simps uadd64_def zero_item_def)
  moreover have "is_empty demo_tree = Inr False"
    by (simp add: is_empty_def node_at_def demo_tree_def blank_node_def)
  moreover have "root demo_tree = 1" by (simp add: demo_tree_def)
  ultimately show ?thesis by (simp add: btree_insert_def)
qed

theorem btree_insert_get_witness:
  "btree_get 7 demo_tree7 = ret 70 \<and> btree_map_lookup 7 demo_tree7 = ret 1"
  using btree_insert_get [OF demo_alloc_ok demo_tree_in _ _ _ demo_insert] by simp


theorem btree_queries_witness: "btree_map_lookup 5 demo_tree = ret 1 \<and> btree_map_lookup 6 demo_tree = ret 0"
  using btree_queries [OF demo_tree_in, of 5] btree_queries [OF demo_tree_in, of 6] by simp

theorem btree_foreach_in_order_witness:
  "btree_foreach (\<lambda>k v acc. (0, acc @ [(k, v)])) demo_tree [] = ret (0, [(5, 50)])"
  using btree_foreach_in_order [OF demo_tree_in, of "\<lambda>k v acc. (0, acc @ [(k, v)])" "[]"] by simp

end
