(* ===== verification/BTreeRemove.thy ===== *)
theory BTreeRemove
  imports BTreeInv
begin

text \<open>
  Removal from the B-tree of BTree: taking an item out of a leaf, rotations and merges, the replacement of
  an item of an inner node by its successor, and the walk up. Removal keeps the sequence of the other items
  and the equal depth of the leaves; the proofs show what it does to the occupancy of the nodes.
\<close>

section \<open>Removal from the B-tree\<close>

subsection \<open>Changes of one node\<close>

lemma node_rep_len: "node_rep nd its ps \<Longrightarrow> length (items nd) = 7 \<and> length (children nd) = 8"
  by (simp add: node_rep_def order_simps)

lemma node_rep_prefix:
  assumes "node_rep nd its ps"
  obtains zs where "items nd = its @ zs" "length its + length zs = 7"
proof -
  have t: "take (length its) (items nd) = its" "length (items nd) = 7"
    using assms by (simp_all add: node_rep_def order_simps)
  obtain zs where "items nd = its @ zs" using take_prefix [OF t(1)] by auto
  then show ?thesis using that t(2) by auto
qed

lemma node_rep_kids:
  assumes "node_rep nd its ps" and "ps \<noteq> []"
  obtains zs where "children nd = ps @ zs" "length ps + length zs = 8"
proof -
  have t: "take (length ps) (children nd) = ps" "length (children nd) = 8"
    using assms by (simp_all add: node_rep_def order_simps)
  obtain zs where "children nd = ps @ zs" using take_prefix [OF t(1)] by auto
  then show ?thesis using that t(2) by auto
qed

lemma node_repI:
  assumes "items nd = its @ zs" and "length its + length zs = 7" and "ncount nd = length its"
    and "ps = [] \<and> children nd = replicate 8 0 \<or> ps \<noteq> [] \<and> children nd = ps @ ws \<and> length ps + length ws = 8"
  shows "node_rep nd its ps"
  using assms by (auto simp: node_rep_def order_simps)

lemma insert_item_gen:
  assumes nd: "nodes s p = Some nd" and nr: "node_rep nd (is1 @ is2) ps"
    and sz: "length (is1 @ is2) < BTREE_ORDER - 1" and nz: "\<And>i. i \<in> set is2 \<Longrightarrow> ikey i \<noteq> 0"
  shows "\<exists>nd'. insert_item p (length is1) m s = Inr (put_node p nd' s) \<and>
    node_rep nd' (is1 @ m # is2) ps \<and> children nd' = children nd"
proof -
  have l: "length (items nd) = Suc 6" and c: "ncount nd = length (is1 @ is2)"
    using nr unfolding node_rep_def by (auto simp: order_simps)
  have pos: "length is1 \<le> 6" using sz by (simp add: order_simps)
  note k = items_after_insert [OF nr sz nz, of m]
  note mv = shift_up(1) [OF l pos]
  have ch: "length (children nd) = 8" "if ps = [] then children nd = replicate 8 0 else take (length ps) (children nd) = ps"
    using nr by (simp_all add: node_rep_def order_simps)
  show ?thesis
    using nd l c pos k mv sz ch
    by (auto simp: insert_item_def upd_node_def node_at_def put_node_def set_item_def node_rep_def
        order_simps uadd64_def)
qed

lemma zeros8: "0 # replicate 7 0 = replicate 8 (0 :: nat)"
  by (simp add: numeral_eq_Suc)

lemma replicate_update: "(replicate n x)[i := x] = replicate n x"
  by (cases "i < n") (auto simp: list_eq_iff_nth_eq nth_list_update)

lemma zeros_eq: "length xs = 8 \<Longrightarrow> set xs \<subseteq> {0 :: nat} \<Longrightarrow> xs = replicate 8 0"
  by (metis replicate_eqI singletonD subset_code(1))

text \<open>The last child of a node, the first one, and the node without its first or last item.\<close>

lemma set_last_kid:
  assumes "node_rep nd its ps" and "length its \<le> 7" and "ps = [] \<and> q = 0 \<or> ps \<noteq> [] \<and> length ps = length its"
  shows "node_rep (nd\<lparr>children := (children nd)[ncount nd := q]\<rparr>) its (if ps = [] then [] else ps @ [q])"
proof (cases "ps = []")
  case True
  then show ?thesis using assms by (auto simp: node_rep_def order_simps replicate_update)
next
  case False
  obtain zs where z: "items nd = its @ zs" "length its + length zs = 7" by (rule node_rep_prefix [OF assms(1)])
  obtain ws where w: "children nd = ps @ ws" "length ps + length ws = 8" by (rule node_rep_kids [OF assms(1) False])
  have c: "ncount nd = length ps" using node_rep_count [OF assms(1)] assms(3) False by simp
  have "ws \<noteq> []" using w(2) z(2) assms(3) False by auto
  then show ?thesis
    using z w c assms(3) False node_rep_count [OF assms(1)]
    by (intro node_repI [where ws = "tl ws"]) (auto simp: list_update_append neq_Nil_conv)
qed

lemma set_first_kid:
  assumes nr: "node_rep nd its ps" and sz: "length its \<le> 7" and ps: "ps = [] \<and> q = 0 \<or> ps \<noteq> [] \<and> length ps = length its"
  shows "\<exists>cs. arr_move 1 0 (ncount nd) (children nd) = Inr cs \<and>
    node_rep (nd\<lparr>children := cs[0 := q]\<rparr>) its (if ps = [] then [] else q # ps)"
proof -
  obtain zs where z: "items nd = its @ zs" "length its + length zs = 7" by (rule node_rep_prefix [OF nr])
  have c: "ncount nd = length its" by (rule node_rep_count [OF nr])
  have l: "length (children nd) = 8" using node_rep_len [OF nr] by simp
  show ?thesis
  proof (cases "ps = []")
    case True
    then have ch: "children nd = replicate 8 0" "q = 0" using nr ps by (auto simp: node_rep_def order_simps)
    have "take (Suc 0) (replicate 8 0) @ take (length its) (replicate 8 0) @ drop (Suc (length its)) (replicate 8 (0 :: nat)) = replicate 8 0"
      using sz by (simp add: replicate_add [symmetric] zeros8)
    then show ?thesis
      using True ch c z sz by (auto simp: arr_move_def arr_copy_def replicate_update intro!: node_repI)
  next
    case False
    obtain ws where w: "children nd = ps @ ws" "length ps + length ws = 8" by (rule node_rep_kids [OF nr False])
    have lp: "length ps = length its" using ps False by simp
    have mv: "arr_move 1 0 (ncount nd) (children nd) = Inr (take 1 (ps @ ws) @ ps @ drop 1 ws)"
      using w c lp z(2) sz by (simp add: arr_move_def arr_copy_def)
    obtain a as where a: "ps = a # as" using False by (cases ps) auto
    have "ws \<noteq> []" using w(2) z(2) lp by auto
    then have "node_rep (nd\<lparr>children := (take 1 (ps @ ws) @ ps @ drop 1 ws)[0 := q]\<rparr>) its (q # ps)"
      using z c w lp by (intro node_repI [where ws = "drop 1 ws"]) (auto simp: a)
    then show ?thesis using mv False by simp
  qed
qed

lemma drop_first:
  assumes nr: "node_rep nd (x # its) ps" and ps: "ps = [] \<or> length ps = length its + 2"
  shows "\<exists>is cs. arr_move 0 1 (length its) (items nd) = Inr is \<and> arr_move 0 1 (length its + 1) (children nd) = Inr cs \<and>
    node_rep (nd\<lparr>ncount := length its, items := is, children := cs\<rparr>) its (tl ps)"
proof -
  obtain zs where z: "items nd = (x # its) @ zs" "length (x # its) + length zs = 7" by (rule node_rep_prefix [OF nr])
  have l: "length (children nd) = 8" using node_rep_len [OF nr] by simp
  have mi: "arr_move 0 1 (length its) (items nd) = Inr (its @ drop (length its) ((x # its) @ zs))"
    using z by (simp add: arr_move_def arr_copy_def)
  define cs where "cs = take (length its + 1) (drop 1 (children nd)) @ drop (length its + 1) (children nd)"
  have mc: "arr_move 0 1 (length its + 1) (children nd) = Inr cs"
    using z(2) l by (simp add: arr_move_def arr_copy_def cs_def)
  have "node_rep (nd\<lparr>ncount := length its, items := its @ drop (length its) ((x # its) @ zs), children := cs\<rparr>) its (tl ps)"
  proof (cases "ps = []")
    case True
    then have ch: "children nd = replicate 8 0" using nr by (simp add: node_rep_def order_simps)
    have "cs = replicate 8 0" using z(2) by (simp add: cs_def ch replicate_add [symmetric] zeros8)
    then show ?thesis using z True by (intro node_repI) auto
  next
    case False
    obtain ws where w: "children nd = ps @ ws" "length ps + length ws = 8" by (rule node_rep_kids [OF nr False])
    obtain a as where a: "ps = a # as" using False by (cases ps) auto
    have la: "length as = length its + 1" using ps a by simp
    then have "cs = as @ drop (length its + 1) (children nd)" "as \<noteq> []" using w by (auto simp: cs_def a)
    then show ?thesis using z w la l by (intro node_repI [where ws = "drop (length its + 1) (children nd)"]) (auto simp: a)
  qed
  then show ?thesis using mi mc by blast
qed

lemma drop_last:
  assumes nr: "node_rep nd (its @ [x]) ps" and ps: "ps = [] \<or> length ps = length its + 2"
  shows "node_rep (nd\<lparr>ncount := length its\<rparr>) its (butlast ps)"
proof -
  obtain zs where z: "items nd = (its @ [x]) @ zs" "length (its @ [x]) + length zs = 7" by (rule node_rep_prefix [OF nr])
  show ?thesis
  proof (cases "ps = []")
    case True
    then show ?thesis using nr z by (intro node_repI [where zs = "x # zs"]) (auto simp: node_rep_def order_simps)
  next
    case False
    obtain ws where w: "children nd = ps @ ws" "length ps + length ws = 8" by (rule node_rep_kids [OF nr False])
    obtain as a where a: "ps = as @ [a]" using False by (cases ps rule: rev_cases) auto
    then have "as \<noteq> []" using ps by auto
    then show ?thesis using z w a by (intro node_repI [where zs = "x # zs" and ws = "a # ws"]) auto
  qed
qed

lemma merge_records:
  assumes nr: "node_rep nd (its @ [sep]) ps" and rr: "node_rep rn rits rps"
    and sz: "length its + length rits < 7"
    and ps: "ps = [] \<and> rps = [] \<or> length ps = length its + 1 \<and> length rps = length rits + 1"
  shows "\<exists>is cs. arr_copy (ncount nd) 0 (ncount rn) (items rn) (items nd) = Inr is \<and>
    arr_copy (ncount nd) 0 (ncount rn + 1) (children rn) (children nd) = Inr cs \<and>
    node_rep (nd\<lparr>items := is, children := cs, ncount := uadd64 (ncount nd) (ncount rn)\<rparr>) (its @ sep # rits) (ps @ rps)"
proof -
  obtain zs where z: "items nd = (its @ [sep]) @ zs" "length (its @ [sep]) + length zs = 7" by (rule node_rep_prefix [OF nr])
  obtain ys where y: "items rn = rits @ ys" "length rits + length ys = 7" by (rule node_rep_prefix [OF rr])
  note c = node_rep_count [OF nr] node_rep_count [OF rr]
  note l = node_rep_len [OF nr] node_rep_len [OF rr]
  have u: "uadd64 (ncount nd) (ncount rn) = length its + 1 + length rits"
    using c sz by (simp add: uadd64_def)
  have mi: "arr_copy (ncount nd) 0 (ncount rn) (items rn) (items nd) = Inr ((its @ sep # rits) @ drop (length rits) zs)"
    using c z y sz by (simp add: arr_copy_def)
  define cs where "cs = take (length its + 1) (children nd) @ take (length rits + 1) (children rn) @
      drop (length its + length rits + 2) (children nd)"
  have mc: "arr_copy (ncount nd) 0 (ncount rn + 1) (children rn) (children nd) = Inr cs"
    using c l sz by (simp add: arr_copy_def cs_def add.commute add.left_commute)
  have "node_rep (nd\<lparr>items := (its @ sep # rits) @ drop (length rits) zs, children := cs,
      ncount := uadd64 (ncount nd) (ncount rn)\<rparr>) (its @ sep # rits) (ps @ rps)"
  proof (cases "ps = []")
    case True
    then have ch: "children nd = replicate 8 0" "children rn = replicate 8 0" "rps = []"
      using nr rr ps by (auto simp: node_rep_def order_simps)
    have "cs = replicate 8 0"
      by (rule zeros_eq) (use sz in \<open>auto simp: cs_def ch dest: in_set_takeD in_set_dropD\<close>)
    then show ?thesis using z u True ch sz by (intro node_repI [where zs = "drop (length rits) zs"]) auto
  next
    case False
    then have lp: "length ps = length its + 1" "length rps = length rits + 1" "rps \<noteq> []" using ps by auto
    obtain ws where w: "children nd = ps @ ws" "length ps + length ws = 8" by (rule node_rep_kids [OF nr False])
    obtain vs where v: "children rn = rps @ vs" "length rps + length vs = 8" by (rule node_rep_kids [OF rr lp(3)])
    have "cs = (ps @ rps) @ drop (length its + length rits + 2) (children nd)" using w v lp by (simp add: cs_def)
    then show ?thesis
      using z u lp l sz
      by (intro node_repI [where zs = "drop (length rits) zs" and ws = "drop (length its + length rits + 2) (children nd)"]) auto
  qed
  then show ?thesis using mi mc by blast
qed

lemma usub64_1: "usub64 (Suc n) 1 = n" if "n < 8"
  using that by (simp add: usub64_ge)

lemma parent_drop:
  assumes nr: "node_rep pn (is1 @ sep # is2) (as @ d # r # bs)" and len: "length is1 = length as" "length is2 = length bs"
  shows "\<exists>is cs. arr_move (length as) (length as + 1) (length bs) (items pn) = Inr is \<and>
    arr_copy (length as + 1) (length as + 2) (length bs + 1) (children pn @ [w]) (children pn) = Inr cs \<and>
    node_rep (pn\<lparr>ncount := length as + length bs, items := is, children := cs\<rparr>) (is1 @ is2) (as @ d # bs)"
proof -
  obtain zs where z: "items pn = (is1 @ sep # is2) @ zs" "length (is1 @ sep # is2) + length zs = 7" by (rule node_rep_prefix [OF nr])
  obtain ws where w: "children pn = (as @ d # r # bs) @ ws" "length (as @ d # r # bs) + length ws = 8"
    by (rule node_rep_kids [OF nr]) auto
  have mi: "arr_move (length as) (length as + 1) (length bs) (items pn) =
      Inr ((is1 @ is2) @ drop (length as + length bs) (items pn))"
    using z len by (simp add: arr_move_def arr_copy_def)
  have mc: "arr_copy (length as + 1) (length as + 2) (length bs + 1) (children pn @ [w]) (children pn) =
      Inr ((as @ d # bs) @ take 1 (ws @ [w]) @ drop (length as + length bs + 2) (children pn))"
    using w by (simp add: arr_copy_def)
  have "length (take 1 (ws @ [w]) @ drop (length as + length bs + 2) (children pn)) + length (as @ d # bs) = 8"
    using w by (cases ws) auto
  then have "node_rep (pn\<lparr>ncount := length as + length bs, items := (is1 @ is2) @ drop (length as + length bs) (items pn),
      children := (as @ d # bs) @ take 1 (ws @ [w]) @ drop (length as + length bs + 2) (children pn)\<rparr>) (is1 @ is2) (as @ d # bs)"
    using z len by (intro node_repI [where zs = "drop (length as + length bs) (items pn)"
          and ws = "take 1 (ws @ [w]) @ drop (length as + length bs + 2) (children pn)"]) auto
  then show ?thesis using mi mc by blast
qed

text \<open>Taking an item out of a leaf.\<close>

lemma leaf_remove:
  assumes nd: "nodes s p = Some nd" and nr: "node_rep nd (is1 @ x # is2) []"
  shows "\<exists>nd'. remove_from_node past p par (length is1) s = ret (put_node p nd' s) \<and> node_rep nd' (is1 @ is2) []"
proof -
  obtain zs where z: "items nd = (is1 @ x # is2) @ zs" "length (is1 @ x # is2) + length zs = 7" by (rule node_rep_prefix [OF nr])
  have c: "ncount nd = length is1 + length is2 + 1" using node_rep_count [OF nr] by simp
  have ch: "children nd = replicate 8 0" using nr by (simp add: node_rep_def order_simps)
  have ch0: "children nd ! 0 = 0" "children nd ! 1 = 0" by (simp_all add: ch)
  have u: "usub64 (ncount nd) 1 = length is1 + length is2" "usub64 (ncount nd) (length is1) = length is2 + 1"
    using c z(2) by (simp_all add: usub64_ge)
  have pos: "length is1 < 7" using z(2) by simp
  define nd' where "nd' = (if ncount nd = 1 \<or> length is1 = 6 then nd\<lparr>items := (items nd)[length is1 := zero_item], ncount := length is1 + length is2\<rparr>
     else nd\<lparr>items := (is1 @ is2) @ take 1 (zs @ [zero_item]) @ zs, ncount := length is1 + length is2\<rparr>)"
  have cp: "arr_copy (length is1) (length is1 + 1) (length is2 + 1) (items_past nd) (items nd) =
      Inr ((is1 @ is2) @ take 1 (zs @ [zero_item]) @ zs)"
    using z by (simp add: arr_copy_def items_past_def ch zero_item_def)
  have "remove_from_node past p par (length is1) s = ret (put_node p nd' s)"
    by (subst remove_from_node.simps)
      (use nd ch0 u pos cp in \<open>simp add: node_at_def upd_node_def clear_item_def order_simps nd'_def ret_def\<close>)
  moreover have "node_rep nd' (is1 @ is2) []"
  proof (cases "ncount nd = 1 \<or> length is1 = 6")
    case True
    then have "is2 = []" using c z(2) by auto
    then show ?thesis using True z ch unfolding nd'_def by (intro node_repI [where zs = "zero_item # zs"]) auto
  next
    case False
    then show ?thesis
      using z ch unfolding nd'_def by (intro node_repI [where zs = "take 1 (zs @ [zero_item]) @ zs"]) auto
  qed
  ultimately show ?thesis by blast
qed

subsection \<open>Occupancy and frames\<close>

lemma mshape_mono: "mshape k lo n t \<Longrightarrow> k' \<le> k \<Longrightarrow> lo' \<le> lo \<Longrightarrow> mshape k' lo' n t"
proof (induction n arbitrary: lo lo' t)
  case 0
  then show ?case by (cases t) auto
next
  case (Suc m)
  then show ?case by (cases t) (auto intro: Suc.IH)
qed

definition kids_level :: "bt \<Rightarrow> bt \<Rightarrow> bool" where
  "kids_level c d \<longleftrightarrow>
     bkids c = [] \<and> bkids d = [] \<or>
     length (bkids c) = Suc (length (bitems c)) \<and> length (bkids d) = Suc (length (bitems d))"

lemma mshape_level: "mshape k lo n c \<Longrightarrow> mshape k lo' n d \<Longrightarrow> kids_level c d"
  by (cases c; cases d; cases n) (auto simp: kids_level_def)

text \<open>\<open>dframe\<close>: only nodes of the tree change, the new tree has no others, and those it left out are freed.\<close>

definition dframe ::
  "(nat \<Rightarrow> btree_node_t option) \<Rightarrow> nat list \<Rightarrow> (nat \<Rightarrow> btree_node_t option) \<Rightarrow> nat list \<Rightarrow> bool" where
  "dframe h A h' A' \<longleftrightarrow>
     (\<forall>x. x \<notin> set A \<longrightarrow> h' x = h x) \<and> set A' \<subseteq> set A \<and> (\<forall>x\<in>set A - set A'. h' x = None)"

lemma dframe_trans:
  assumes f: "dframe h A h1 A1" and g: "dframe h1 A1 h2 A2"
  shows "dframe h A h2 A2"
proof -
  have "h2 x = h x" if "x \<notin> set A" for x using f g that unfolding dframe_def by (metis subset_iff)
  moreover have "h2 x = None" if "x \<in> set A" "x \<notin> set A2" for x
    using f g that unfolding dframe_def by (metis DiffI)
  ultimately show ?thesis using f g unfolding dframe_def by blast
qed

lemma dframe_refl: "dframe h A h A"
  unfolding dframe_def by simp

lemma replace_child_d:
  assumes r: "rep h (Bt p its (as @ c # bs))" and o: "ok_addrs (Bt p its (as @ c # bs))"
    and f: "dframe h (addrs c) h' (addrs c')" and r': "rep h' c'" and o': "ok_addrs c'"
    and b: "baddr c' = baddr c"
  shows "rep h' (Bt p its (as @ c' # bs))" and "ok_addrs (Bt p its (as @ c' # bs))"
    and "dframe h (addrs (Bt p its (as @ c # bs))) h' (addrs (Bt p its (as @ c' # bs)))"
proof -
  have same: "h' x = h x" if "x \<notin> set (addrs c)" for x using f that unfolding dframe_def by blast
  have sub: "set (addrs c') \<subseteq> set (addrs c)" using f unfolding dframe_def by blast
  obtain nd where nd: "h p = Some nd" "node_rep nd its (map baddr (as @ c # bs))"
    and kids: "\<forall>d\<in>set (as @ c # bs). rep h d"
    using r unfolding rep_Bt by blast
  have pc: "p \<notin> set (addrs c)" and dj: "\<And>d. d \<in> set as \<union> set bs \<Longrightarrow> set (addrs d) \<inter> set (addrs c) = {}"
    using o by (auto simp: ok_addrs_def)
  have "rep h' d" if "d \<in> set as \<union> set bs" for d
    by (rule rep_frame [of h]) (use kids that dj [OF that] same in auto)
  then show "rep h' (Bt p its (as @ c' # bs))"
    unfolding rep_Bt using nd r' b same [OF pc] by auto
  show "ok_addrs (Bt p its (as @ c' # bs))" using o o' sub unfolding ok_addrs_def by fastforce
  show "dframe h (addrs (Bt p its (as @ c # bs))) h' (addrs (Bt p its (as @ c' # bs)))"
    using sub same f unfolding dframe_def by auto
qed

subsection \<open>Two neighbouring children\<close>

lemma weave_join:
  "length xs = Suc (length ys) \<Longrightarrow> weave (xs @ zs) (ys @ y # ws) = weave xs ys @ y # weave zs ws"
proof (induction ys arbitrary: xs)
  case Nil
  then show ?case by (cases xs) auto
next
  case (Cons a ys)
  then show ?case by (cases xs) auto
qed

lemma inorder_two:
  assumes "length is1 = length as" and "length is2 = length bs"
  shows "inorder (Bt p (is1 @ sep # is2) (as @ c # d # bs)) =
    wpre (map inorder as) is1 @ inorder c @ sep # inorder d @ wpost is2 (map inorder bs)"
  using weave_split [of is1 "map inorder as" "sep # is2" "inorder d # map inorder bs" "inorder c"] assms by simp

lemma inorder_one:
  assumes "length is1 = length as" and "length is2 = length bs"
  shows "inorder (Bt p (is1 @ is2) (as @ c # bs)) =
    wpre (map inorder as) is1 @ inorder c @ wpost is2 (map inorder bs)"
  using weave_split [of is1 "map inorder as" is2 "map inorder bs" "inorder c"] assms by simp

text \<open>What two neighbours \<open>c\<close> and \<open>d\<close> of a tree have: their nodes, their parent's node, and everything below.\<close>

lemma two_kids:
  assumes r: "rep h (Bt p its (as @ c # d # bs))" and o: "ok_addrs (Bt p its (as @ c # d # bs))"
  obtains pn cn dn where "h p = Some pn" "node_rep pn its (map baddr as @ baddr c # baddr d # map baddr bs)"
    "h (baddr c) = Some cn" "node_rep cn (bitems c) (map baddr (bkids c))"
    "h (baddr d) = Some dn" "node_rep dn (bitems d) (map baddr (bkids d))"
    "p \<noteq> baddr c" "p \<noteq> baddr d" "baddr c \<noteq> baddr d" "p \<noteq> 0" "baddr c \<noteq> 0" "baddr d \<noteq> 0"
    "\<And>x. x \<in> set as \<union> set bs \<union> set (bkids c) \<union> set (bkids d) \<Longrightarrow>
      rep h x \<and> p \<notin> set (addrs x) \<and> baddr c \<notin> set (addrs x) \<and> baddr d \<notin> set (addrs x)"
proof -
  obtain q1 i1 k1 where c: "c = Bt q1 i1 k1" by (cases c)
  obtain q2 i2 k2 where d: "d = Bt q2 i2 k2" by (cases d)
  have rk: "rep h x" if "x \<in> set as \<union> set bs \<union> set k1 \<union> set k2" for x using r that unfolding c d by auto
  have ad: "p \<notin> set (addrs x) \<and> q1 \<notin> set (addrs x) \<and> q2 \<notin> set (addrs x)"
    if "x \<in> set as \<union> set bs \<union> set k1 \<union> set k2" for x
    using o that unfolding c d ok_addrs_def by auto
  have ne: "p \<noteq> q1" "p \<noteq> q2" "q1 \<noteq> q2" "p \<noteq> 0" "q1 \<noteq> 0" "q2 \<noteq> 0" using o unfolding c d ok_addrs_def by auto
  obtain pn where pn: "h p = Some pn" "node_rep pn its (map baddr as @ q1 # q2 # map baddr bs)"
    using r unfolding rep_Bt c d by auto
  obtain cn where cn: "h q1 = Some cn" "node_rep cn i1 (map baddr k1)"
    using r unfolding c by (auto simp: rep_Bt simp del: rep.simps)
  obtain dn where dn: "h q2 = Some dn" "node_rep dn i2 (map baddr k2)"
    using r unfolding d by (auto simp: rep_Bt simp del: rep.simps)
  show ?thesis
    by (rule that [of pn cn dn]) (use pn cn dn ne rk ad in \<open>auto simp: c d\<close>)
qed

subsection \<open>Rotations\<close>

lemma node_at_eq: "nodes s p = Some nd \<Longrightarrow> node_at s p = Inr nd"
  by (simp add: node_at_def)

lemma upd_node_eq: "nodes s p = Some nd \<Longrightarrow> f nd = Inr nd' \<Longrightarrow> upd_node p f s = Inr (put_node p nd' s)"
  by (simp add: upd_node_def node_at_def)

lemma put_node_sel [simp]: "nodes (put_node p nd s) = (nodes s)(p \<mapsto> nd)" "root (put_node p nd s) = root s"
  by (simp_all add: put_node_def)

lemma node_rep_max: "node_rep nd its ps \<Longrightarrow> length its \<le> 7"
  by (metis node_rep_prefix le_add1)

lemma set_sep:
  assumes "node_rep pn (is1 @ sep # is2) ps"
  shows "node_rep (pn\<lparr>items := (items pn)[length is1 := x]\<rparr>) (is1 @ x # is2) ps"
proof -
  obtain zs where "items pn = (is1 @ sep # is2) @ zs" "length (is1 @ sep # is2) + length zs = 7"
    by (rule node_rep_prefix [OF assms])
  then show ?thesis using assms by (auto simp: node_rep_def order_simps list_update_append)
qed

lemma first_child:
  "node_rep nd its (map baddr ks) \<Longrightarrow> children nd ! 0 = (if ks = [] then 0 else baddr (hd ks))"
  using node_rep_child [of nd its "map baddr ks" 0] node_rep_leaf [of nd its 0]
  by (cases ks) (auto simp: order_simps)

lemma rotate_right_nodes:
  assumes h: "nodes s p = Some pn" "nodes s d = Some dn" "nodes s r = Some rn"
    and ne: "p \<noteq> d" "p \<noteq> r" "d \<noteq> r"
    and pn: "node_rep pn (is1 @ sep # is2) ps" and dn: "node_rep dn dits dps" and rn: "node_rep rn (x # rits) rps"
    and sz: "length dits < 7"
    and lv: "dps = [] \<and> rps = [] \<or> length dps = Suc (length dits) \<and> length rps = length rits + 2"
  shows "\<exists>s' pn' dn' rn'. rotate_right r d p (length is1) s = Inr s' \<and> root s' = root s \<and>
    nodes s' = (nodes s)(p \<mapsto> pn', d \<mapsto> dn', r \<mapsto> rn') \<and>
    node_rep pn' (is1 @ x # is2) ps \<and> node_rep dn' (dits @ [sep]) (dps @ take 1 rps) \<and> node_rep rn' rits (tl rps)"
proof -
  obtain dn1 where i: "insert_item d (ncount dn) sep s = Inr (put_node d dn1 s)"
    and d1: "node_rep dn1 (dits @ [sep]) dps"
    using insert_item_gen [OF h(2), of dits "[]" dps sep] dn sz node_rep_count [OF dn] by (auto simp: order_simps)
  define pn' where "pn' = pn\<lparr>items := (items pn)[length is1 := x]\<rparr>"
  have pn': "node_rep pn' (is1 @ x # is2) ps" unfolding pn'_def by (rule set_sep [OF pn])
  have c0: "children rn ! 0 = (if rps = [] then 0 else hd rps)"
    using node_rep_child [OF rn, of 0] node_rep_leaf [of rn "x # rits" 0] rn by (cases rps) (auto simp: order_simps)
  define dn2 where "dn2 = dn1\<lparr>children := (children dn1)[ncount dn1 := children rn ! 0]\<rparr>"
  have d2: "node_rep dn2 (dits @ [sep]) (dps @ take 1 rps)"
    using set_last_kid [OF d1, of "children rn ! 0"] lv c0 sz unfolding dn2_def by (cases rps; cases dps) auto
  have x0: "items rn ! 0 = x" using node_rep_items [OF rn, of 0] by simp
  have cr: "usub64 (ncount rn) 1 = length rits"
    using node_rep_count [OF rn] node_rep_max [OF rn] by (simp add: usub64_ge)
  obtain "is" cs where dr: "arr_move 0 1 (length rits) (items rn) = Inr is"
      "arr_move 0 1 (length rits + 1) (children rn) = Inr cs"
      "node_rep (rn\<lparr>ncount := length rits, items := is, children := cs\<rparr>) rits (tl rps)"
    using drop_first [OF rn] lv by blast
  have gp: "length is1 < BTREE_ORDER - 1" using node_rep_max [OF pn] by (simp add: order_simps)
  have it: "items pn ! length is1 = sep" using node_rep_items [OF pn, of "length is1"] by simp
  have cd: "ncount dn1 < BTREE_ORDER" using node_rep_count [OF d1] sz by (simp add: order_simps)
  have "rotate_right r d p (length is1) s =
      Inr (put_node r (rn\<lparr>ncount := length rits, items := is, children := cs\<rparr>)
        (put_node d dn2 (put_node p pn' (put_node d dn1 s))))"
    using h ne i gp it x0 cd cr dr(1,2)
    by (simp add: rotate_right_def upd_node_def node_at_def pn'_def dn2_def Let_def)
  then show ?thesis using pn' d2 dr(3) ne by (auto intro!: exI simp: fun_upd_twist)
qed

lemma rotate_left_nodes:
  assumes h: "nodes s p = Some pn" "nodes s l = Some ln" "nodes s d = Some dn"
    and ne: "p \<noteq> d" "p \<noteq> l" "l \<noteq> d"
    and pn: "node_rep pn (is1 @ sep # is2) ps" and ln: "node_rep ln (lits @ [x]) lps" and dn: "node_rep dn dits dps"
    and sz: "length dits < 7" and nz: "\<And>i. i \<in> set dits \<Longrightarrow> ikey i \<noteq> 0"
    and lv: "dps = [] \<and> lps = [] \<or> length dps = Suc (length dits) \<and> length lps = length lits + 2"
  shows "\<exists>s' pn' ln' dn'. rotate_left l d p (Suc (length is1)) s = Inr s' \<and> root s' = root s \<and>
    nodes s' = (nodes s)(p \<mapsto> pn', l \<mapsto> ln', d \<mapsto> dn') \<and>
    node_rep pn' (is1 @ x # is2) ps \<and> node_rep ln' lits (butlast lps) \<and>
    node_rep dn' (sep # dits) (drop (length lits + 1) lps @ dps)"
proof -
  obtain dn1 where i: "insert_item d 0 sep s = Inr (put_node d dn1 s)"
    and d1: "node_rep dn1 (sep # dits) dps"
    using insert_item_gen [OF h(3), of "[]" dits dps sep] dn sz nz by (auto simp: order_simps)
  define pn' where "pn' = pn\<lparr>items := (items pn)[length is1 := x]\<rparr>"
  have pn': "node_rep pn' (is1 @ x # is2) ps" unfolding pn'_def by (rule set_sep [OF pn])
  have cl: "ncount ln = Suc (length lits)" "usub64 (ncount ln) 1 = length lits" "length lits < 7"
    using node_rep_count [OF ln] node_rep_max [OF ln] by (simp_all add: usub64_ge)
  have q: "children ln ! ncount ln = (if lps = [] then 0 else last lps)"
  proof (cases "lps = []")
    case True
    then show ?thesis using node_rep_leaf [of ln "lits @ [x]" "ncount ln"] ln cl by (simp add: order_simps)
  next
    case False
    then show ?thesis using node_rep_child [OF ln, of "ncount ln"] lv cl by (auto simp: last_conv_nth)
  qed
  obtain cs where mv: "arr_move 1 0 (ncount dn1) (children dn1) = Inr cs"
    and d2: "node_rep (dn1\<lparr>children := cs[0 := children ln ! ncount ln]\<rparr>) (sep # dits)
      (if dps = [] then [] else children ln ! ncount ln # dps)"
    using set_first_kid [OF d1, of "children ln ! ncount ln"] lv q sz by fastforce
  have dl: "drop (length lits + 1) lps = (if lps = [] then [] else [last lps])"
  proof (cases lps rule: rev_cases)
    case (snoc ys y)
    then show ?thesis using lv by auto
  qed simp
  have d2': "node_rep (dn1\<lparr>children := cs[0 := children ln ! ncount ln]\<rparr>) (sep # dits) (drop (length lits + 1) lps @ dps)"
    using d2 lv q dl by (cases "dps = []") auto
  have l2: "node_rep (ln\<lparr>ncount := length lits\<rparr>) lits (butlast lps)" using drop_last [OF ln] lv by blast
  have xl: "items ln ! length lits = x" using node_rep_items [OF ln, of "length lits"] by simp
  have gp: "length is1 < BTREE_ORDER - 1" "usub64 (Suc (length is1)) 1 = length is1"
    using node_rep_max [OF pn] by (simp_all add: order_simps usub64_ge)
  have it: "items pn ! length is1 = sep" using node_rep_items [OF pn, of "length is1"] by simp
  have "rotate_left l d p (Suc (length is1)) s =
      Inr (put_node l (ln\<lparr>ncount := length lits\<rparr>)
        (put_node d (dn1\<lparr>children := cs[0 := children ln ! ncount ln]\<rparr>) (put_node p pn' (put_node d dn1 s))))"
    using h ne i gp it xl cl(2,3) mv
    by (simp add: rotate_left_def upd_node_def node_at_def pn'_def Let_def order_simps)
  then show ?thesis using pn' d2' l2 ne by (auto intro!: exI simp: fun_upd_twist)
qed

lemma inorder_join:
  assumes "kids_level c d"
  shows "inorder (Bt a (bitems c @ sep # bitems d) (bkids c @ bkids d)) = inorder c @ sep # inorder d"
  using assms weave_join [of "map inorder (bkids c)" "bitems c" "map inorder (bkids d)" sep "bitems d"]
  by (cases c; cases d) (auto simp: kids_level_def)

lemma inorder_rotated:
  assumes "kids_level c d" and "kids_level c' d'"
    and "bitems c' @ sep' # bitems d' = bitems c @ sep # bitems d" and "bkids c' @ bkids d' = bkids c @ bkids d"
    and "length is1 = length as" and "length is2 = length bs"
  shows "inorder (Bt p (is1 @ sep' # is2) (as @ c' # d' # bs)) = inorder (Bt p (is1 @ sep # is2) (as @ c # d # bs))"
proof -
  have "inorder c' @ sep' # inorder d' = inorder c @ sep # inorder d"
    using inorder_join [OF assms(1), of 0 sep] inorder_join [OF assms(2), of 0 sep'] unfolding assms(3,4) by simp
  then have "(inorder c' @ sep' # inorder d') @ r = (inorder c @ sep # inorder d) @ r" for r by simp
  then show ?thesis unfolding inorder_two [OF assms(5,6)] by simp
qed

lemma mshape_kids: "mshape k lo (Suc m) t \<Longrightarrow> c \<in> set (bkids t) \<Longrightarrow> mshape k k m c"
  by (cases t) auto

lemma mshape_redistribute:
  assumes "mshape k lo m c" "mshape k lo' m d" and "bkids c' @ bkids d' = bkids c @ bkids d" and "kids_level c' d'"
    and "lo1 \<le> length (bitems c')" "length (bitems c') \<le> 7" and "lo2 \<le> length (bitems d')" "length (bitems d') \<le> 7"
  shows "mshape k lo1 m c' \<and> mshape k lo2 m d'"
proof (cases m)
  case 0
  then show ?thesis using assms by (cases c; cases d; cases c'; cases d') (auto simp: order_simps)
next
  case (Suc j)
  have "x \<in> set (bkids c' @ bkids d') \<Longrightarrow> mshape k k j x" for x
    unfolding assms(3) using mshape_kids assms(1,2) Suc by auto
  moreover have "bkids c @ bkids d \<noteq> []" using assms(1) Suc by (cases c) auto
  then have "length (bkids c') = Suc (length (bitems c'))" "length (bkids d') = Suc (length (bitems d'))"
    using assms(3,4) unfolding kids_level_def by auto
  ultimately show ?thesis using assms(5-8) Suc by (cases c'; cases d') (auto simp: order_simps)
qed

lemma mshape_merged:
  assumes "mshape k lo m c" "mshape k lo' m d" and "length (bitems c) + length (bitems d) < 7"
  shows "mshape k (Suc (lo + lo')) m (Bt a (bitems c @ sep # bitems d) (bkids c @ bkids d))"
  using assms by (cases c; cases d; cases m) (auto simp: order_simps)

text \<open>The store and the addresses after two neighbours have been redistributed or joined.\<close>

lemma pair_update:
  assumes r: "rep h (Bt p its (as @ c # d # bs))" and o: "ok_addrs (Bt p its (as @ c # d # bs))"
    and h': "h' = h(p \<mapsto> pn, baddr c \<mapsto> cn, baddr d \<mapsto> dn)"
    and n: "node_rep pn its' (map baddr as @ baddr c # baddr d # map baddr bs)"
      "node_rep cn (bitems c') (map baddr (bkids c'))" "node_rep dn (bitems d') (map baddr (bkids d'))"
    and b: "baddr c' = baddr c" "baddr d' = baddr d" and k: "bkids c' @ bkids d' = bkids c @ bkids d"
  shows "rep h' (Bt p its' (as @ c' # d' # bs)) \<and> ok_addrs (Bt p its' (as @ c' # d' # bs)) \<and>
    dframe h (addrs (Bt p its (as @ c # d # bs))) h' (addrs (Bt p its' (as @ c' # d' # bs)))"
proof -
  obtain q1 i1 k1 q2 i2 k2 j1 l1 j2 l2 where e: "c = Bt q1 i1 k1" "d = Bt q2 i2 k2" "c' = Bt q1 j1 l1" "d' = Bt q2 j2 l2"
    using b by (cases c; cases d; cases c'; cases d') auto
  obtain ne: "p \<noteq> q1" "p \<noteq> q2" "q1 \<noteq> q2"
    and rest: "\<And>x. x \<in> set as \<union> set bs \<union> set (k1 @ k2) \<Longrightarrow>
      rep h x \<and> p \<notin> set (addrs x) \<and> q1 \<notin> set (addrs x) \<and> q2 \<notin> set (addrs x)"
    by (rule two_kids [OF r o]) (auto simp: e)
  have R: "rep h' x" if "x \<in> set as \<union> set bs \<union> set (k1 @ k2)" for x
    by (rule rep_frame [of h]) (use rest [OF that] in \<open>auto simp: h' e\<close>)
  have kk: "l1 @ l2 = k1 @ k2" using k by (simp add: e)
  have "rep h' x" if "x \<in> set (l1 @ l2)" for x using R that unfolding kk by blast
  then have "rep h' (Bt p its' (as @ c' # d' # bs))"
    using R n ne by (auto simp: e h')
  moreover have "mset (concat (map addrs l1)) + mset (concat (map addrs l2)) =
      mset (concat (map addrs k1)) + mset (concat (map addrs k2))"
    using arg_cong [OF kk, of "\<lambda>ks. mset (concat (map addrs ks))"] by simp
  then have ms: "mset (addrs (Bt p its' (as @ c' # d' # bs))) = mset (addrs (Bt p its (as @ c # d # bs)))"
    by (simp add: e add.commute add.left_commute)
  have "ok_addrs (Bt p its' (as @ c' # d' # bs))"
    using o mset_eq_setD [OF ms] mset_eq_imp_distinct_iff [OF ms] unfolding ok_addrs_def by blast
  moreover have "dframe h (addrs (Bt p its (as @ c # d # bs))) h' (addrs (Bt p its' (as @ c' # d' # bs)))"
    unfolding dframe_def mset_eq_setD [OF ms] by (auto simp: h' e)
  ultimately show ?thesis by blast
qed

lemma pair_merge:
  assumes r: "rep h (Bt p its (as @ c # d # bs))" and o: "ok_addrs (Bt p its (as @ c # d # bs))"
    and h': "h' = h(p \<mapsto> pn, baddr c \<mapsto> cn, baddr d := None)"
    and n: "node_rep pn its' (map baddr as @ baddr c # map baddr bs)"
      "node_rep cn ci (map baddr (bkids c @ bkids d))"
    and T': "T' = Bt p its' (as @ Bt (baddr c) ci (bkids c @ bkids d) # bs)"
  shows "rep h' T' \<and> ok_addrs T' \<and> dframe h (addrs (Bt p its (as @ c # d # bs))) h' (addrs T')"
proof -
  obtain q1 i1 k1 q2 i2 k2 where e: "c = Bt q1 i1 k1" "d = Bt q2 i2 k2"
    by (cases c; cases d) auto
  obtain ne: "p \<noteq> q1" "p \<noteq> q2" "q1 \<noteq> q2"
    and rest: "\<And>x. x \<in> set as \<union> set bs \<union> set (k1 @ k2) \<Longrightarrow>
      rep h x \<and> p \<notin> set (addrs x) \<and> q1 \<notin> set (addrs x) \<and> q2 \<notin> set (addrs x)"
    by (rule two_kids [OF r o]) (auto simp: e)
  have R: "rep h' x" if "x \<in> set as \<union> set bs \<union> set (k1 @ k2)" for x
    by (rule rep_frame [of h]) (use rest [OF that] in \<open>auto simp: h' e\<close>)
  have "rep h' T'" using R n ne by (auto simp: e h' T')
  moreover have ms: "mset (addrs (Bt p its (as @ c # d # bs))) = mset (q2 # addrs T')"
    by (simp add: e T' add.commute add.left_commute)
  have D: "distinct (q2 # addrs T')" using o mset_eq_imp_distinct_iff [OF ms] unfolding ok_addrs_def by blast
  have "ok_addrs T'" using o D mset_eq_setD [OF ms] unfolding ok_addrs_def by auto
  moreover have "dframe h (addrs (Bt p its (as @ c # d # bs))) h' (addrs T')"
    unfolding dframe_def mset_eq_setD [OF ms] using D by (auto simp: h' e T')
  ultimately show ?thesis by blast
qed

subsection \<open>Merging\<close>

lemma set_item_end:
  assumes "node_rep nd its ps" and "length its < 7"
  shows "\<exists>nd'. set_item (ncount nd) m nd = Inr nd' \<and> node_rep nd' (its @ [m]) ps"
proof -
  obtain zs where z: "items nd = its @ zs" "length its + length zs = 7" by (rule node_rep_prefix [OF assms(1)])
  then obtain z zs' where "zs = z # zs'" using assms(2) by (cases zs) auto
  then show ?thesis
    using assms z by (auto simp: set_item_def node_rep_def order_simps uadd64_def)
qed

lemma merge_nodes_ok:
  assumes h: "nodes s p = Some pn" "nodes s l = Some ln" "nodes s r = Some rn"
    and ne: "p \<noteq> l" "p \<noteq> r" "l \<noteq> r"
    and pn: "node_rep pn (is1 @ sep # is2) (as @ l # r # bs)" and len: "length is1 = length as" "length is2 = length bs"
    and ln: "node_rep ln lits lps" and rn: "node_rep rn rits rps"
    and sz: "length lits + length rits < 7"
    and lv: "lps = [] \<and> rps = [] \<or> length lps = Suc (length lits) \<and> length rps = Suc (length rits)"
  shows "\<exists>s' pn' ln' h'. merge_nodes past r l p (length as) s = Inr s' \<and>
    node_rep pn' (is1 @ is2) (as @ l # bs) \<and> node_rep ln' (lits @ sep # rits) (lps @ rps) \<and>
    h' = (nodes s)(p \<mapsto> pn', l \<mapsto> ln', r := None) \<and>
    (if is1 @ is2 = [] \<and> p = root s then root s' = l \<and> nodes s' = h'(p := None)
     else root s' = root s \<and> nodes s' = h')"
proof -
  obtain ln1 where l1: "set_item (ncount ln) sep ln = Inr ln1" "node_rep ln1 (lits @ [sep]) lps"
    using set_item_end [OF ln, of sep] sz by auto
  obtain "is" cs where m: "arr_copy (ncount ln1) 0 (ncount rn) (items rn) (items ln1) = Inr is"
      "arr_copy (ncount ln1) 0 (ncount rn + 1) (children rn) (children ln1) = Inr cs"
      "node_rep (ln1\<lparr>items := is, children := cs, ncount := uadd64 (ncount ln1) (ncount rn)\<rparr>) (lits @ sep # rits) (lps @ rps)"
    using merge_records [OF l1(2) rn sz] lv by auto
  obtain pis pcs where d: "arr_move (length as) (length as + 1) (length bs) (items pn) = Inr pis"
      "arr_copy (length as + 1) (length as + 2) (length bs + 1) (children pn @ [past p]) (children pn) = Inr pcs"
      "node_rep (pn\<lparr>ncount := length as + length bs, items := pis, children := pcs\<rparr>) (is1 @ is2) (as @ l # bs)"
    using parent_drop [OF pn len] by blast
  have mx: "length as + length bs < 7" using node_rep_max [OF pn] len by simp
  have c: "usub64 (ncount pn) 1 = length as + length bs" "usub64 (length as + length bs) (length as) = length bs"
      "uadd64 (length bs) 1 = length bs + 1"
    using node_rep_count [OF pn] len mx by (simp_all add: usub64_ge uadd64_def)
  have it: "items pn ! length as = sep" using node_rep_items [OF pn, of "length is1"] len by (simp add: nth_append)
  have gp: "length as < BTREE_ORDER - 1" using mx by (simp add: order_simps)
  define s1 where "s1 = put_node p (pn\<lparr>ncount := length as + length bs, items := pis, children := pcs\<rparr>)
    (dealloc_node r (put_node l (ln1\<lparr>items := is, children := cs, ncount := uadd64 (ncount ln1) (ncount rn)\<rparr>) (put_node l ln1 s)))"
  have run: "merge_nodes past r l p (length as) s =
      Inr (if as = [] \<and> bs = [] \<and> p = root s then (dealloc_node p s1)\<lparr>root := l\<rparr> else s1)"
    using h ne l1(1) m(1,2) d(1,2) c gp it
    by (simp add: merge_nodes_def upd_node_def node_at_def Let_def s1_def dealloc_node_def)
  have "nodes s1 = (nodes s)(p \<mapsto> pn\<lparr>ncount := length as + length bs, items := pis, children := pcs\<rparr>,
      l \<mapsto> ln1\<lparr>items := is, children := cs, ncount := uadd64 (ncount ln1) (ncount rn)\<rparr>, r := None)" "root s1 = root s"
    using ne by (auto simp: s1_def dealloc_node_def)
  then show ?thesis using run m(3) d(3) len
    by (intro exI conjI [OF run] conjI [OF d(3)] conjI [OF m(3)] conjI refl) (auto simp: dealloc_node_def)
qed

subsection \<open>Rebalancing a node\<close>

text \<open>
  \<open>resettled k n t s t' s'\<close>: the tree \<open>t\<close> of height \<open>n\<close> in \<open>s\<close> has become \<open>t'\<close> in \<open>s'\<close>. The top node lost at most one
  item; or it was the root, lost its last one and was freed, and its only child is the root now.
\<close>

definition resettled :: "nat \<Rightarrow> nat \<Rightarrow> bt \<Rightarrow> btree_t \<Rightarrow> bt \<Rightarrow> btree_t \<Rightarrow> bool" where
  "resettled k n t s t' s' \<longleftrightarrow>
     rep (nodes s') t' \<and> ok_addrs t' \<and> dframe (nodes s) (addrs t) (nodes s') (addrs t') \<and>
     (root s' = root s \<and> baddr t' = baddr t \<and> mshape k (length (bitems t) - 1) n t' \<and>
        (root s = baddr t \<longrightarrow> n \<noteq> 0 \<longrightarrow> bitems t' \<noteq> []) \<or>
      root s = baddr t \<and> root s' = baddr t' \<and> bitems t' \<noteq> [] \<and> (\<exists>m. n = Suc m \<and> mshape k k m t'))"

lemma rotated_settled:
  assumes r: "rep (nodes s) P" and o: "ok_addrs P" and P: "P = Bt p (is1 @ sep # is2) (as @ c # d # bs)"
    and len: "length is1 = length as" "length is2 = length bs"
    and sh: "mshape k lo m c" "mshape k lo' m d" "\<And>x. x \<in> set as \<union> set bs \<Longrightarrow> mshape k k m x" "length (bitems P) \<le> 7"
    and s': "root s' = root s" "nodes s' = (nodes s)(p \<mapsto> pn, baddr c \<mapsto> cn, baddr d \<mapsto> dn)"
    and n: "node_rep pn (is1 @ sep' # is2) (map baddr as @ baddr c # baddr d # map baddr bs)"
      "node_rep cn (bitems c') (map baddr (bkids c'))" "node_rep dn (bitems d') (map baddr (bkids d'))"
    and b: "baddr c' = baddr c" "baddr d' = baddr d" and ks: "bkids c' @ bkids d' = bkids c @ bkids d"
    and its: "bitems c' @ sep' # bitems d' = bitems c @ sep # bitems d" and lv: "kids_level c' d'"
    and sz: "k \<le> length (bitems c')" "k \<le> length (bitems d')"
    and P': "P' = Bt p (is1 @ sep' # is2) (as @ c' # d' # bs)"
  shows "resettled k (Suc m) P s P' s' \<and> inorder P' = inorder P"
proof -
  have 1: "rep (nodes s') P' \<and> ok_addrs P' \<and> dframe (nodes s) (addrs P) (nodes s') (addrs P')"
    unfolding P P' by (rule pair_update [OF r [unfolded P] o [unfolded P] s'(2) n b ks])
  have 2: "inorder P' = inorder P"
    unfolding P P' by (rule inorder_rotated [OF mshape_level [OF sh(1)] lv its ks len]) (use sh(2) in auto)
  have 3: "mshape k k m c' \<and> mshape k k m d'"
    by (rule mshape_redistribute [OF sh(1,2) ks lv]) (use sz node_rep_max [OF n(2)] node_rep_max [OF n(3)] in auto)
  have "mshape k (length (bitems P) - 1) (Suc m) P'"
    using 3 sh(3,4) len by (auto simp: P P' order_simps)
  then show ?thesis using 1 2 s'(1) unfolding resettled_def by (simp add: P P')
qed

lemma rotate_right_tree:
  assumes r: "rep (nodes s) P" and o: "ok_addrs P" and P: "P = Bt p (is1 @ sep # is2) (as @ d # c # bs)"
    and len: "length is1 = length as" "length is2 = length bs"
    and sh: "mshape k (k - 1) m d" "mshape k k m c" "\<And>x. x \<in> set as \<union> set bs \<Longrightarrow> mshape k k m x" "length (bitems P) \<le> 7"
    and sz: "length (bitems d) \<le> 2" "k \<le> length (bitems d) + 1" "length (bitems c) > 3" "k \<le> 3"
  shows "\<exists>s' P'. rotate_right (baddr c) (baddr d) p (length as) s = Inr s' \<and>
    resettled k (Suc m) P s P' s' \<and> inorder P' = inorder P"
proof -
  obtain pn dn cn where h: "nodes s p = Some pn" "node_rep pn (is1 @ sep # is2) (map baddr as @ baddr d # baddr c # map baddr bs)"
    "nodes s (baddr d) = Some dn" "node_rep dn (bitems d) (map baddr (bkids d))"
    "nodes s (baddr c) = Some cn" "node_rep cn (bitems c) (map baddr (bkids c))"
    "p \<noteq> baddr d" "p \<noteq> baddr c" "baddr d \<noteq> baddr c"
    by (rule two_kids [OF r [unfolded P] o [unfolded P]]) blast
  obtain x cits where ci: "bitems c = x # cits" using sz(3) by (cases "bitems c") auto
  have lv: "kids_level d c" by (rule mshape_level) (use sh in auto)
  then have lps: "map baddr (bkids d) = [] \<and> map baddr (bkids c) = [] \<or>
      length (map baddr (bkids d)) = Suc (length (bitems d)) \<and> length (map baddr (bkids c)) = length cits + 2"
    by (auto simp: kids_level_def ci)
  obtain s' pn' dn' cn' where run: "rotate_right (baddr c) (baddr d) p (length is1) s = Inr s'" "root s' = root s"
    "nodes s' = (nodes s)(p \<mapsto> pn', baddr d \<mapsto> dn', baddr c \<mapsto> cn')"
    "node_rep pn' (is1 @ x # is2) (map baddr as @ baddr d # baddr c # map baddr bs)"
    "node_rep dn' (bitems d @ [sep]) (map baddr (bkids d) @ take 1 (map baddr (bkids c)))"
    "node_rep cn' cits (tl (map baddr (bkids c)))"
    using rotate_right_nodes [OF h(1,3,5,7,8,9,2,4) _ _ lps, of x] h(6) sz(1) ci by auto
  let ?d = "Bt (baddr d) (bitems d @ [sep]) (bkids d @ take 1 (bkids c))" and ?c = "Bt (baddr c) cits (tl (bkids c))"
  have tt: "take (Suc 0) (bkids c) @ tl (bkids c) = bkids c" by (cases "bkids c") auto
  have "resettled k (Suc m) P s (Bt p (is1 @ x # is2) (as @ ?d # ?c # bs)) s' \<and>
      inorder (Bt p (is1 @ x # is2) (as @ ?d # ?c # bs)) = inorder P"
    by (rule rotated_settled [OF r o P len sh run(2,3,4) _ _ _ _ _ _ _ _ _ refl])
      (use run(5,6) sz lv ci tt in \<open>auto simp: take_map map_tl kids_level_def\<close>)
  then show ?thesis using run(1) len by auto
qed

lemma rotate_left_tree:
  assumes r: "rep (nodes s) P" and o: "ok_addrs P" and P: "P = Bt p (is1 @ sep # is2) (as @ c # d # bs)"
    and len: "length is1 = length as" "length is2 = length bs"
    and sh: "mshape k k m c" "mshape k (k - 1) m d" "\<And>x. x \<in> set as \<union> set bs \<Longrightarrow> mshape k k m x" "length (bitems P) \<le> 7"
    and sz: "length (bitems d) \<le> 2" "k \<le> length (bitems d) + 1" "length (bitems c) > 3" "k \<le> 3"
    and nz: "\<And>i. i \<in> set (bitems d) \<Longrightarrow> ikey i \<noteq> 0"
  shows "\<exists>s' P'. rotate_left (baddr c) (baddr d) p (Suc (length as)) s = Inr s' \<and>
    resettled k (Suc m) P s P' s' \<and> inorder P' = inorder P"
proof -
  obtain pn cn dn where h: "nodes s p = Some pn" "node_rep pn (is1 @ sep # is2) (map baddr as @ baddr c # baddr d # map baddr bs)"
    "nodes s (baddr c) = Some cn" "node_rep cn (bitems c) (map baddr (bkids c))"
    "nodes s (baddr d) = Some dn" "node_rep dn (bitems d) (map baddr (bkids d))"
    "p \<noteq> baddr d" "p \<noteq> baddr c" "baddr c \<noteq> baddr d"
    by (rule two_kids [OF r [unfolded P] o [unfolded P]]) blast
  obtain x cits where ci: "bitems c = cits @ [x]" using sz(3) by (cases "bitems c" rule: rev_cases) auto
  have lv: "kids_level d c" by (rule mshape_level) (use sh in auto)
  then have lps: "map baddr (bkids d) = [] \<and> map baddr (bkids c) = [] \<or>
      length (map baddr (bkids d)) = Suc (length (bitems d)) \<and> length (map baddr (bkids c)) = length cits + 2"
    by (auto simp: kids_level_def ci)
  obtain s' pn' cn' dn' where run: "rotate_left (baddr c) (baddr d) p (Suc (length is1)) s = Inr s'" "root s' = root s"
    "nodes s' = (nodes s)(p \<mapsto> pn', baddr c \<mapsto> cn', baddr d \<mapsto> dn')"
    "node_rep pn' (is1 @ x # is2) (map baddr as @ baddr c # baddr d # map baddr bs)"
    "node_rep cn' cits (butlast (map baddr (bkids c)))"
    "node_rep dn' (sep # bitems d) (drop (length cits + 1) (map baddr (bkids c)) @ map baddr (bkids d))"
    using rotate_left_nodes [OF h(1,3,5,7,8,9,2) _ h(6) _ nz lps, of x] h(4) sz(1) ci by auto
  let ?c = "Bt (baddr c) cits (butlast (bkids c))" and ?d = "Bt (baddr d) (sep # bitems d) (drop (length cits + 1) (bkids c) @ bkids d)"
  have bl: "butlast (bkids c) = take (length cits + 1) (bkids c)"
    using lv by (auto simp: kids_level_def ci butlast_conv_take)
  have r5: "node_rep cn' cits (map baddr (take (length cits + 1) (bkids c)))"
    using run(5) unfolding map_butlast [symmetric] bl .
  have "resettled k (Suc m) P s (Bt p (is1 @ x # is2) (as @ ?c # ?d # bs)) s' \<and>
      inorder (Bt p (is1 @ x # is2) (as @ ?c # ?d # bs)) = inorder P"
    by (rule rotated_settled [OF r o P len sh run(2,3,4) _ _ _ _ _ _ _ _ _ refl])
      (use r5 run(6) sz lv ci bl in \<open>auto simp: drop_map kids_level_def\<close>)
  then show ?thesis using run(1) len by auto
qed

lemma merge_tree:
  assumes r: "rep (nodes s) P" and o: "ok_addrs P" and P: "P = Bt p (is1 @ sep # is2) (as @ c # d # bs)"
    and len: "length is1 = length as" "length is2 = length bs"
    and sh: "mshape k lo m c" "mshape k lo' m d" "\<And>x. x \<in> set as \<union> set bs \<Longrightarrow> mshape k k m x" "length (bitems P) \<le> 7"
    and sz: "length (bitems c) + length (bitems d) < 7" "k \<le> Suc (lo + lo')"
  shows "\<exists>s' P'. merge_nodes past (baddr d) (baddr c) p (length as) s = Inr s' \<and>
    resettled k (Suc m) P s P' s' \<and> inorder P' = inorder P"
proof -
  obtain pn cn dn where h: "nodes s p = Some pn" "node_rep pn (is1 @ sep # is2) (map baddr as @ baddr c # baddr d # map baddr bs)"
    "nodes s (baddr c) = Some cn" "node_rep cn (bitems c) (map baddr (bkids c))"
    "nodes s (baddr d) = Some dn" "node_rep dn (bitems d) (map baddr (bkids d))"
    "p \<noteq> baddr c" "p \<noteq> baddr d" "baddr c \<noteq> baddr d"
    by (rule two_kids [OF r [unfolded P] o [unfolded P]]) blast
  have lv: "kids_level c d" by (rule mshape_level [OF sh(1,2)])
  have ml: "length is1 = length (map baddr as)" "length is2 = length (map baddr bs)"
    "map baddr (bkids c) = [] \<and> map baddr (bkids d) = [] \<or>
      length (map baddr (bkids c)) = Suc (length (bitems c)) \<and> length (map baddr (bkids d)) = Suc (length (bitems d))"
    using len lv by (simp_all add: kids_level_def)
  obtain s' pn' cn' h' where run: "merge_nodes past (baddr d) (baddr c) p (length (map baddr as)) s = Inr s'"
    "node_rep pn' (is1 @ is2) (map baddr as @ baddr c # map baddr bs)"
    "node_rep cn' (bitems c @ sep # bitems d) (map baddr (bkids c) @ map baddr (bkids d))"
    "h' = (nodes s)(p \<mapsto> pn', baddr c \<mapsto> cn', baddr d := None)"
    "if is1 @ is2 = [] \<and> p = root s then root s' = baddr c \<and> nodes s' = h'(p := None) else root s' = root s \<and> nodes s' = h'"
    using merge_nodes_ok [OF h(1,3,5,7,8,9,2) ml(1,2) h(4,6) sz(1) ml(3), of past] by blast
  define c' where "c' = Bt (baddr c) (bitems c @ sep # bitems d) (bkids c @ bkids d)"
  let ?P = "Bt p (is1 @ is2) (as @ c' # bs)"
  have 1: "rep h' ?P" "ok_addrs ?P" "dframe (nodes s) (addrs P) h' (addrs ?P)"
    using pair_merge [OF r [unfolded P] o [unfolded P] run(4,2) _ refl, of "bitems c @ sep # bitems d"] run(3)
    by (simp_all only: c'_def P map_append)
  have 2: "mshape k k m c'"
    using mshape_mono [OF mshape_merged [OF sh(1,2) sz(1)] order_refl sz(2)] by (simp add: c'_def)
  have 3: "inorder ?P = inorder P"
    unfolding P inorder_two [OF len] inorder_one [OF len] c'_def inorder_join [OF lv] by simp
  show ?thesis
  proof (cases "is1 @ is2 = [] \<and> p = root s")
    case True
    then have e: "is1 = []" "is2 = []" "as = []" "bs = []" using len by auto
    have pc: "p \<notin> set (addrs c')" "ok_addrs c'" using 1(2) by (simp_all add: e ok_addrs_def)
    have "rep (nodes s') c'"
      by (rule rep_frame [of h']) (use 1(1) pc run(5) True e in auto)
    moreover have "dframe (nodes s) (addrs P) (nodes s') (addrs c')"
      using 1(3) run(5) True unfolding dframe_def by (auto simp: e P)
    ultimately have "resettled k (Suc m) P s c' s'"
      using pc 2 run(5) True unfolding resettled_def by (simp add: P c'_def)
    moreover have "inorder c' = inorder P" using 3 by (simp add: e)
    ultimately show ?thesis using run(1) by auto
  next
    case False
    then have s': "root s' = root s" "nodes s' = h'" using run(5) by (auto split: if_splits)
    have "mshape k (length (bitems P) - 1) (Suc m) ?P" using 2 sh(3,4) len by (auto simp: P order_simps)
    then have "resettled k (Suc m) P s ?P s'" using 1 s' False unfolding resettled_def by (auto simp: P)
    then show ?thesis using 3 run(1) by auto
  qed
qed

text \<open>A child that is short of items, in the place \<open>length as\<close> of its parent.\<close>

definition short_kid :: "nat \<Rightarrow> nat \<Rightarrow> bt \<Rightarrow> bt list \<Rightarrow> bt \<Rightarrow> bt list \<Rightarrow> bool" where
  "short_kid k m P as d bs \<longleftrightarrow>
     bkids P = as @ d # bs \<and> length (bkids P) = Suc (length (bitems P)) \<and> bitems P \<noteq> [] \<and> length (bitems P) \<le> 7 \<and>
     mshape k (k - 1) m d \<and> (\<forall>x\<in>set as \<union> set bs. mshape k k m x) \<and>
     length (bitems d) \<le> 2 \<and> k \<le> 3"

lemma rebalance_right:
  assumes r: "rep (nodes s) P" and o: "ok_addrs P" and d: "short_kid k m P as d (c # bs)"
    and P: "P = Bt p (is1 @ sep # is2) (as @ d # c # bs)" and len: "length is1 = length as" "length is2 = length bs"
  shows "length (bitems c) > 3 \<Longrightarrow> \<exists>s' P'. rotate_right (baddr c) (baddr d) p (length as) s = Inr s' \<and>
      resettled k (Suc m) P s P' s' \<and> inorder P' = inorder P"
    and "length (bitems c) \<le> 3 \<Longrightarrow> \<exists>s' P'. merge_nodes past (baddr c) (baddr d) p (length as) s = Inr s' \<and>
      resettled k (Suc m) P s P' s' \<and> inorder P' = inorder P"
proof -
  have f: "mshape k (k - 1) m d" "mshape k k m c" "\<And>x. x \<in> set as \<union> set bs \<Longrightarrow> mshape k k m x"
    "length (bitems P) \<le> 7" "length (bitems d) \<le> 2" "k \<le> 3"
    using d unfolding short_kid_def by auto
  have kd: "k \<le> length (bitems d) + 1" using f(1) by (cases d) auto
  show "\<exists>s' P'. rotate_right (baddr c) (baddr d) p (length as) s = Inr s' \<and>
      resettled k (Suc m) P s P' s' \<and> inorder P' = inorder P" if "length (bitems c) > 3"
    by (rule rotate_right_tree [OF r o P len f(1-5) kd that f(6)])
  show "\<exists>s' P'. merge_nodes past (baddr c) (baddr d) p (length as) s = Inr s' \<and>
      resettled k (Suc m) P s P' s' \<and> inorder P' = inorder P" if "length (bitems c) \<le> 3"
    by (rule merge_tree [OF r o P len f(1-4)]) (use f(5) that in auto)
qed

lemma rebalance_left:
  assumes r: "rep (nodes s) P" and o: "ok_addrs P" and d: "short_kid k m P (as @ [c]) d bs"
    and P: "P = Bt p (is1 @ sep # is2) (as @ c # d # bs)" and len: "length is1 = length as" "length is2 = length bs"
    and keys: "ok_keys (inorder P)"
  shows "length (bitems c) > 3 \<Longrightarrow> \<exists>s' P'. rotate_left (baddr c) (baddr d) p (Suc (length as)) s = Inr s' \<and>
      resettled k (Suc m) P s P' s' \<and> inorder P' = inorder P"
    and "length (bitems c) \<le> 3 \<Longrightarrow> \<exists>s' P'. merge_nodes past (baddr d) (baddr c) p (length as) s = Inr s' \<and>
      resettled k (Suc m) P s P' s' \<and> inorder P' = inorder P"
proof -
  have f: "mshape k k m c" "mshape k (k - 1) m d" "\<And>x. x \<in> set as \<union> set bs \<Longrightarrow> mshape k k m x"
    "length (bitems P) \<le> 7" "length (bitems d) \<le> 2" "k \<le> 3"
    using d unfolding short_kid_def by auto
  have kd: "k \<le> length (bitems d) + 1" using f(2) by (cases d) auto
  have "set (bitems d) \<subseteq> set (inorder d)"
    using inorder_items [of "bkids d" "bitems d" "baddr d"] f(2) by (cases d; cases m) auto
  then have nz: "ikey i \<noteq> 0" if "i \<in> set (bitems d)" for i
    using keys that unfolding P inorder_two [OF len] ok_keys_def by auto
  show "\<exists>s' P'. rotate_left (baddr c) (baddr d) p (Suc (length as)) s = Inr s' \<and>
      resettled k (Suc m) P s P' s' \<and> inorder P' = inorder P" if "length (bitems c) > 3"
    by (rule rotate_left_tree [OF r o P len f(1-5) kd that f(6) nz])
  show "\<exists>s' P'. merge_nodes past (baddr d) (baddr c) p (length as) s = Inr s' \<and>
      resettled k (Suc m) P s P' s' \<and> inorder P' = inorder P" if "length (bitems c) \<le> 3"
    by (rule merge_tree [OF r o P len f(1-4)]) (use f(5) that in auto)
qed

lemma split_at:
  assumes "length xs = length as + length bs"
  obtains ys zs where "xs = ys @ zs" "length ys = length as" "length zs = length bs"
  by (rule that [of "take (length as) xs" "drop (length as) xs"]) (use assms in auto)

lemma kid_node:
  assumes "rep h P" and "ok_addrs P" and "x \<in> set (bkids P)"
  obtains nd where "h (baddr x) = Some nd" "ncount nd = length (bitems x)" "baddr x \<noteq> 0"
proof -
  have "rep h x" using assms(1,3) by (cases P) simp
  moreover have "baddr x \<in> set (addrs P)" using assms(3) addrs_neq_Nil(2) by (cases P) fastforce
  ultimately have x: "rep h x" "baddr x \<noteq> 0" using assms(2) unfolding ok_addrs_def by metis+
  then show ?thesis using that rep_node [OF x(1)] node_rep_count by blast
qed

lemma rebalance_step:
  assumes "nodes s p = Some pn" and "pos \<le> BTREE_ORDER"
    and "rsb = (if pos \<ge> ncount pn then 0 else children pn ! (pos + 1))"
    and "lsb = (if pos = 0 then 0 else children pn ! (pos - 1))"
    and "rsb \<noteq> 0 \<Longrightarrow> map_option ncount (nodes s rsb) = Some rc" and "lsb \<noteq> 0 \<Longrightarrow> map_option ncount (nodes s lsb) = Some lc"
  shows "rebalance past d p pos s =
    (if rsb \<noteq> 0 \<and> rc > 3 then rotate_right rsb d p pos s
     else if lsb \<noteq> 0 \<and> lc > 3 then rotate_left lsb d p pos s
     else if rsb = 0 then merge_nodes past d lsb p (usub64 pos 1) s
     else merge_nodes past rsb d p pos s)"
proof -
  have "rebalance past d p pos s =
     bindR (if rsb = 0 then Inr 0 else bindR (node_at s rsb) (\<lambda>rd. Inr (ncount rd))) (\<lambda>rc.
      if rsb \<noteq> 0 \<and> rc > BTREE_MIN then rotate_right rsb d p pos s
      else bindR (if lsb = 0 then Inr 0 else bindR (node_at s lsb) (\<lambda>ld. Inr (ncount ld))) (\<lambda>lc.
      if lsb \<noteq> 0 \<and> lc > BTREE_MIN then rotate_left lsb d p pos s
      else if rsb = 0 then merge_nodes past d lsb p (usub64 pos 1) s
      else merge_nodes past rsb d p pos s))"
    unfolding rebalance_def assms(3,4) node_at_eq [OF assms(1)] Let_def using assms(2) by simp
  then show ?thesis using assms(5,6) by (auto simp: node_at_def order_simps)
qed

lemma rebalance_ok:
  assumes r: "rep (nodes s) P" and o: "ok_addrs P" and d: "short_kid k m P as d bs" and keys: "ok_keys (inorder P)"
  shows "\<exists>s' P'. rebalance past (baddr d) (baddr P) (length as) s = Inr s' \<and>
    resettled k (Suc m) P s P' s' \<and> inorder P' = inorder P"
proof -
  obtain p its where P: "P = Bt p its (as @ d # bs)" using d by (cases P) (auto simp: short_kid_def)
  have l: "length its = length as + length bs" "its \<noteq> []" using d by (auto simp: short_kid_def P)
  obtain is1 is2 where i: "its = is1 @ is2" "length is1 = length as" "length is2 = length bs"
    by (rule split_at [OF l(1)])
  obtain pn where pn: "nodes s p = Some pn" "node_rep pn its (map baddr as @ baddr d # map baddr bs)"
    using rep_node [OF r] by (auto simp: P)
  have cnt: "ncount pn = length as + length bs" "length as \<le> BTREE_ORDER"
    using node_rep_count [OF pn(2)] node_rep_max [OF pn(2)] l by (simp_all add: order_simps)
  have ch: "children pn ! j = (map baddr as @ baddr d # map baddr bs) ! j" if "j \<le> length as + length bs" for j
    using node_rep_child [OF pn(2), of j] that by simp
  define rsb where "rsb = (if bs = [] then 0 else baddr (hd bs))"
  define lsb where "lsb = (if as = [] then 0 else baddr (last as))"
  have rsb: "rsb = (if length as \<ge> ncount pn then 0 else children pn ! (length as + 1))"
    using ch [of "length as + 1"] by (cases bs) (auto simp: rsb_def cnt nth_append)
  have lsb: "lsb = (if length as = 0 then 0 else children pn ! (length as - 1))"
    using ch [of "length as - 1"] by (cases as rule: rev_cases) (auto simp: lsb_def nth_append)
  have rn: "bs \<noteq> [] \<Longrightarrow> rsb \<noteq> 0 \<and> map_option ncount (nodes s rsb) = Some (length (bitems (hd bs)))"
    by (rule kid_node [OF r o, of "hd bs"]) (auto simp: P rsb_def)
  have ln: "as \<noteq> [] \<Longrightarrow> lsb \<noteq> 0 \<and> map_option ncount (nodes s lsb) = Some (length (bitems (last as)))"
    by (rule kid_node [OF r o, of "last as"]) (auto simp: P lsb_def)
  have z: "rsb = 0 \<longleftrightarrow> bs = []" "lsb = 0 \<longleftrightarrow> as = []" using rn ln by (auto simp: rsb_def lsb_def)
  have step: "rebalance past (baddr d) p (length as) s =
      (if bs \<noteq> [] \<and> length (bitems (hd bs)) > 3 then rotate_right rsb (baddr d) p (length as) s
       else if as \<noteq> [] \<and> length (bitems (last as)) > 3 then rotate_left lsb (baddr d) p (length as) s
       else if bs = [] then merge_nodes past (baddr d) lsb p (usub64 (length as) 1) s
       else merge_nodes past rsb (baddr d) p (length as) s)"
    unfolding z [symmetric] by (rule rebalance_step [OF pn(1) cnt(2) rsb lsb]) (use rn ln z in auto)
  show ?thesis
  proof (cases "bs = [] \<or> length (bitems (hd bs)) \<le> 3 \<and> as \<noteq> [] \<and> length (bitems (last as)) > 3")
    case False
    then obtain c bs' where bs: "bs = c # bs'" by (cases bs) auto
    then obtain sep is2' where is2: "is2 = sep # is2'" using i(3) by (cases is2) auto
    have "P = Bt p (is1 @ sep # is2') (as @ d # c # bs')" "length is2' = length bs'" using i is2 bs P by auto
    note R = rebalance_right [OF r o d [unfolded bs] this(1) i(2) this(2)]
    show ?thesis using step R False by (auto simp: bs rsb_def P)
  next
    case True
    then have "as \<noteq> []" using l by auto
    then obtain as' c where as: "as = as' @ [c]" by (cases as rule: rev_cases) auto
    then obtain sep is1' where is1: "is1 = is1' @ [sep]" using i(2) by (cases is1 rule: rev_cases) auto
    have e: "P = Bt p (is1' @ sep # is2) (as' @ c # d # bs)" "length is1' = length as'" using i is1 as P by auto
    note R = rebalance_left [OF r o d [unfolded as] e i(3) keys]
    have "usub64 (length as) 1 = length as'" using cnt(2) by (simp add: as usub64_ge order_simps)
    then show ?thesis using step R True by (auto simp: as lsb_def P)
  qed
qed

subsection \<open>After a child has changed\<close>

definition kept :: "nat \<Rightarrow> nat \<Rightarrow> nat \<Rightarrow> bt \<Rightarrow> btree_t \<Rightarrow> bt \<Rightarrow> btree_t \<Rightarrow> bool" where
  "kept k lo n t s t' s' \<longleftrightarrow>
     rep (nodes s') t' \<and> ok_addrs t' \<and> dframe (nodes s) (addrs t) (nodes s') (addrs t') \<and>
     root s' = root s \<and> baddr t' = baddr t \<and> mshape k lo n t'"

lemma settled_kept: "resettled k n t s t' s' \<Longrightarrow> root s \<noteq> baddr t \<Longrightarrow> kept k (length (bitems t) - 1) n t s t' s'"
  unfolding resettled_def kept_def by blast

lemma mshape_lo: "mshape k lo n t \<Longrightarrow> lo \<le> length (bitems t)"
  by (cases t) simp

lemma kept_settled:
  assumes "kept k lo n t s t' s'" and "length (bitems t) - 1 \<le> lo" and "n = 0 \<or> 1 \<le> lo"
  shows "resettled k n t s t' s'"
proof -
  have "n \<noteq> 0 \<longrightarrow> bitems t' \<noteq> []" using assms(1,3) mshape_lo unfolding kept_def by fastforce
  then show ?thesis using assms(1,2) mshape_mono unfolding resettled_def kept_def by blast
qed

lemma resettled_trans:
  assumes "kept k' lo n t s t1 s1" and "resettled k n t1 s1 t' s'" and "length (bitems t) \<le> length (bitems t1)"
  shows "resettled k n t s t' s'"
proof -
  have "length (bitems t) - 1 \<le> length (bitems t1) - 1" using assms(3) by simp
  then show ?thesis
    using assms(1,2) dframe_trans mshape_mono [OF _ order_refl] unfolding resettled_def kept_def by metis
qed

lemma kept_kid:
  assumes r: "rep (nodes s) (Bt p its (as @ d # bs))" and o: "ok_addrs (Bt p its (as @ d # bs))"
    and d: "kept k lo m d s d' s'" and sh: "k \<le> lo" "\<And>x. x \<in> set as \<union> set bs \<Longrightarrow> mshape k k m x"
    and l: "length its = length as + length bs" "length its \<le> 7"
  shows "kept k (length its) (Suc m) (Bt p its (as @ d # bs)) s (Bt p its (as @ d' # bs)) s'"
proof -
  have f: "dframe (nodes s) (addrs d) (nodes s') (addrs d')" "rep (nodes s') d'" "ok_addrs d'" "baddr d' = baddr d"
    "root s' = root s" "mshape k lo m d'"
    using d unfolding kept_def by auto
  have "mshape k k m d'" by (rule mshape_mono [OF f(6) order_refl sh(1)])
  then show ?thesis using replace_child_d [OF r o f(1-4)] f(5) sh(2) l unfolding kept_def by (auto simp: order_simps)
qed

lemma kid_fixed:
  assumes r: "rep (nodes s) P" and o: "ok_addrs P" and P: "P = Bt p its (as @ d # bs)"
    and l: "length its = length as + length bs" "length its \<le> 7" "its \<noteq> []"
    and d: "kept k (k - 1) m d s d1 s1" and sh: "\<And>x. x \<in> set as \<union> set bs \<Longrightarrow> mshape k k m x" "k \<le> 3"
    and keys: "ok_keys (inorder (Bt p its (as @ d1 # bs)))"
  shows "\<exists>nd s' P'. nodes s1 (baddr d) = Some nd \<and>
    (if ncount nd < BTREE_MIN then rebalance past (baddr d) p (length as) s1 else Inr s1) = Inr s' \<and>
    resettled k (Suc m) P s P' s' \<and> inorder P' = inorder (Bt p its (as @ d1 # bs))"
proof -
  let ?P = "Bt p its (as @ d1 # bs)"
  have f: "dframe (nodes s) (addrs d) (nodes s1) (addrs d1)" "rep (nodes s1) d1" "ok_addrs d1" "baddr d1 = baddr d"
    "root s1 = root s" "mshape k (k - 1) m d1"
    using d unfolding kept_def by auto
  note P1 = replace_child_d [OF r [unfolded P] o [unfolded P] f(1-4)]
  obtain nd where nd: "nodes s1 (baddr d) = Some nd" "ncount nd = length (bitems d1)"
    using rep_node [OF f(2)] node_rep_count f(4) by metis
  show ?thesis
  proof (cases "ncount nd < BTREE_MIN")
    case True
    then have "short_kid k m ?P as d1 bs"
      using f(6) sh l nd(2) by (auto simp: short_kid_def order_simps)
    then obtain s' P' where *: "rebalance past (baddr d1) p (length as) s1 = Inr s'" "resettled k (Suc m) ?P s1 P' s'"
        "inorder P' = inorder ?P"
      using rebalance_ok [OF P1(1,2) _ keys] by force
    have "resettled k (Suc m) P s P' s'"
      using *(2) dframe_trans [OF P1(3)] f(5) unfolding resettled_def P by auto
    then show ?thesis using nd * True f(4) by auto
  next
    case False
    then have "k \<le> length (bitems d1)" using nd(2) sh(2) by (simp add: order_simps)
    then have "mshape k k m d1" using f(6) by (cases d1) simp
    then have "kept k k m d s d1 s1" using f unfolding kept_def by blast
    then have "kept k (length its) (Suc m) P s ?P s1"
      unfolding P by (rule kept_kid [OF r [unfolded P] o [unfolded P] _ order_refl sh(1) l(1,2)])
    then have "resettled k (Suc m) P s ?P s1" by (rule kept_settled) (use l(3) in \<open>auto simp: P Suc_le_eq\<close>)
    then show ?thesis using nd False by auto
  qed
qed

subsection \<open>The first item of a subtree\<close>

fun lm_leaf :: "bt \<Rightarrow> bt" where
  "lm_leaf (Bt p its []) = Bt p its []"
| "lm_leaf (Bt p its (c # cs)) = lm_leaf c"

fun lm_parent :: "nat \<Rightarrow> bt \<Rightarrow> nat" where
  "lm_parent par (Bt p its []) = par"
| "lm_parent par (Bt p its (c # cs)) = lm_parent p c"

lemma get_leftmost_leaf_ok:
  "rep (nodes s) t \<Longrightarrow> ok_addrs t \<Longrightarrow> get_leftmost_leaf (baddr t) par s = ret (baddr (lm_leaf t), lm_parent par t)"
proof (induction par t rule: lm_parent.induct)
  case (1 par p its)
  obtain nd where nd: "nodes s p = Some nd" "node_rep nd its []" using rep_node [OF 1(1)] by auto
  then have "children nd ! 0 = 0" using node_rep_leaf [OF nd(2), of 0] by (simp add: order_simps)
  then show ?case by (subst get_leftmost_leaf.simps) (simp add: node_at_def nd)
next
  case (2 par p its c cs)
  obtain nd where nd: "nodes s p = Some nd" "node_rep nd its (map baddr (c # cs))" using rep_node [OF 2(2)] by auto
  have c: "rep (nodes s) c" "ok_addrs c" "baddr c \<noteq> 0"
    using 2(2,3) ok_addrs_kid [of p its "[]" c cs] kid_node [OF 2(2,3), of c] by auto
  have "children nd ! 0 = baddr c" using node_rep_child [OF nd(2), of 0] by simp
  then show ?case using 2(1) [OF c(1,2)] c(3) by (subst get_leftmost_leaf.simps) (simp add: node_at_def nd)
qed

definition pop_leaf :: "(nat \<Rightarrow> nat) \<Rightarrow> nat \<Rightarrow> nat \<Rightarrow> nat \<Rightarrow> btree_t \<Rightarrow> btree_t run" where
  "pop_leaf past l lp pos s =
     bindX (remove_from_node past l lp 0 s) (\<lambda>s.
     bindX (Some (node_at s l)) (\<lambda>ln.
       if ncount ln < BTREE_MIN then Some (rebalance past l lp pos s) else ret s))"

lemma leaf_kept:
  assumes t: "rep (nodes s) t" "ok_addrs t" "t = Bt p (is1 @ x # is2) []" and sz: "length is1 + length is2 < 7"
  shows "\<exists>s'. remove_from_node past p par (length is1) s = ret s' \<and>
    kept k (length (is1 @ is2)) 0 t s (Bt p (is1 @ is2) []) s'"
proof -
  obtain nd where nd: "nodes s p = Some nd" "node_rep nd (is1 @ x # is2) []" using rep_node [OF t(1)] by (auto simp: t(3))
  obtain nd' where "remove_from_node past p par (length is1) s = ret (put_node p nd' s)" "node_rep nd' (is1 @ is2) []"
    using leaf_remove [OF nd] by blast
  moreover have "dframe (nodes s) [p] ((nodes s)(p \<mapsto> nd')) [p]" unfolding dframe_def by simp
  ultimately show ?thesis
    using t(2) sz by (intro exI [of _ "put_node p nd' s"]) (simp add: kept_def t(3) ok_addrs_def order_simps)
qed

lemma pop_kid:
  assumes r: "rep (nodes s) P" and o: "ok_addrs P" and P: "P = Bt p its (as @ d # bs)"
    and l: "length its = length as + length bs" "length its \<le> 7" "its \<noteq> []"
    and d: "d = Bt q (x # rest) []" "mshape k k 0 d" and sh: "\<And>y. y \<in> set as \<union> set bs \<Longrightarrow> mshape k k 0 y" "k \<le> 3"
    and keys: "ok_keys (inorder (Bt p its (as @ Bt q rest [] # bs)))"
  shows "\<exists>s' P'. pop_leaf past q p (length as) s = ret s' \<and> resettled k 1 P s P' s' \<and>
    inorder P' = inorder (Bt p its (as @ Bt q rest [] # bs))"
proof -
  have rd: "rep (nodes s) d" "ok_addrs d" using r o ok_addrs_kid unfolding P by auto
  obtain s1 where s1: "remove_from_node past q p 0 s = ret s1" "kept k (length rest) 0 d s (Bt q rest []) s1"
    using leaf_kept [OF rd, of q "[]" x rest past p k] d by (auto simp: order_simps)
  then have kd: "kept k (k - 1) 0 d s (Bt q rest []) s1" using d unfolding kept_def by auto
  obtain nd s' P' where *: "nodes s1 (baddr d) = Some nd"
    "(if ncount nd < BTREE_MIN then rebalance past (baddr d) p (length as) s1 else Inr s1) = Inr s'"
    "resettled k (Suc 0) P s P' s'" "inorder P' = inorder (Bt p its (as @ Bt q rest [] # bs))"
    using kid_fixed [OF r o P l kd sh keys, of past] by blast
  have "pop_leaf past q p (length as) s = ret s'"
    using s1(1) *(1,2) by (auto simp: pop_leaf_def node_at_def d(1) ret_def split: if_splits)
  then show ?thesis using * by auto
qed

lemma lm_leaf_first:
  "rep (nodes s) t \<Longrightarrow> mshape k lo n t \<Longrightarrow> 1 \<le> k \<Longrightarrow> n = 0 \<longrightarrow> 1 \<le> lo \<Longrightarrow>
   \<exists>nd. nodes s (baddr (lm_leaf t)) = Some nd \<and> items nd ! 0 = hd (inorder t) \<and> inorder t \<noteq> [] \<and>
     baddr (lm_leaf t) \<in> set (addrs t)"
proof (induction t arbitrary: lo n rule: lm_leaf.induct)
  case (1 p its)
  obtain nd where nd: "nodes s p = Some nd" "node_rep nd its []" using rep_node [OF 1(1)] by auto
  have "its \<noteq> []" using 1(2-4) by (cases n) auto
  then show ?case using nd(1) node_rep_items [OF nd(2), of 0] by (auto simp: hd_conv_nth)
next
  case (2 p its c cs)
  then obtain m where n: "n = Suc m" by (cases n) auto
  have "rep (nodes s) c" "mshape k k m c" using 2(2,3) n by auto
  from 2(1) [OF this] 2(4) show ?case by (cases its; cases cs) auto
qed

lemma first_kid:
  assumes "mshape k k (Suc m) t" and "1 \<le> k"
  obtains p its d bs where "t = Bt p its ([] @ d # bs)" "length its = length ([] :: bt list) + length bs" "length its \<le> 7"
    "its \<noteq> []" "mshape k k m d" "\<And>y. y \<in> set [] \<union> set bs \<Longrightarrow> mshape k k m y"
proof -
  obtain p its cs where t: "t = Bt p its cs" by (cases t)
  then obtain d bs where "cs = d # bs" using assms(1) by (cases cs) auto
  then show ?thesis using assms by (intro that [of p its d bs]) (auto simp: t order_simps)
qed

text \<open>The leaf an inner node takes the next item from, with the repair of that leaf.\<close>

lemma pop_first:
  "rep (nodes s) t \<Longrightarrow> ok_addrs t \<Longrightarrow> mshape k k (Suc m) t \<Longrightarrow> 1 \<le> k \<Longrightarrow> k \<le> 3 \<Longrightarrow>
   ok_keys (inorder t) \<Longrightarrow> root s \<notin> set (addrs t) \<Longrightarrow>
   \<exists>s' t'. pop_leaf past (baddr (lm_leaf t)) (lm_parent par t) 0 s = ret s' \<and>
     kept (k - 1) (length (bitems t) - 1) (Suc m) t s t' s' \<and> inorder t = hd (inorder t) # inorder t'"
proof (induction m arbitrary: t par)
  case 0
  obtain p its d bs where t: "t = Bt p its ([] @ d # bs)" and l: "length its = length ([] :: bt list) + length bs" "length its \<le> 7" "its \<noteq> []"
    and sh: "mshape k k 0 d" "\<And>y. y \<in> set [] \<union> set bs \<Longrightarrow> mshape k k 0 y"
    by (rule first_kid [OF 0(3,4)]) (rule that; assumption)
  obtain q x rest where d: "d = Bt q (x # rest) []"
    using sh(1) 0(4) by (cases d; cases "bitems d") auto
  have io: "inorder t = x # inorder (Bt p its ([] @ Bt q rest [] # bs))" using l by (cases its) (auto simp: t d)
  then have keys: "ok_keys (inorder (Bt p its ([] @ Bt q rest [] # bs)))" using 0(6) by (auto simp: ok_keys_def)
  obtain s' t' where *: "pop_leaf past q p 0 s = ret s'" "resettled k 1 t s t' s'" "inorder t' = inorder (Bt p its ([] @ Bt q rest [] # bs))"
    using pop_kid [OF 0(1,2) _ l d sh(1,2) 0(5) keys, of past] by (auto simp: t)
  have "kept k (length (bitems t) - 1) 1 t s t' s'"
    using settled_kept [OF *(2)] 0(7) addrs_neq_Nil(2) [of t] by metis
  then have "kept (k - 1) (length (bitems t) - 1) (Suc 0) t s t' s'"
    unfolding kept_def using mshape_mono [of k _ _ t' "k - 1"] by auto
  moreover have "inorder t = hd (inorder t) # inorder t'" using io *(3) by simp
  ultimately show ?case using *(1) by (auto simp: t d)
next
  case (Suc m)
  obtain p its d bs where t: "t = Bt p its ([] @ d # bs)" and l: "length its = length ([] :: bt list) + length bs" "length its \<le> 7" "its \<noteq> []"
    and sh: "mshape k k (Suc m) d" "\<And>y. y \<in> set [] \<union> set bs \<Longrightarrow> mshape k k (Suc m) y"
    by (rule first_kid [OF Suc.prems(3,4)]) (rule that; assumption)
  have rd: "rep (nodes s) d" "ok_addrs d" using Suc.prems(1,2) ok_addrs_kid [of p its "[]" d bs] by (auto simp: t)
  have io: "inorder t = inorder d @ wpost its (map inorder bs)"
    using inorder_one [of "[]" "[]" its bs p d] l(1) by (simp add: t)
  obtain s' d' where *: "pop_leaf past (baddr (lm_leaf d)) (lm_parent p d) 0 s = ret s'"
    "kept (k - 1) (length (bitems d) - 1) (Suc m) d s d' s'" "inorder d = hd (inorder d) # inorder d'"
    using Suc.IH [OF rd sh(1) Suc.prems(4,5), of p] Suc.prems(6,7) io by (auto simp: t ok_keys_append)
  have "k \<le> length (bitems d)" using sh(1) by (cases d) auto
  then have lo: "k - 1 \<le> length (bitems d) - 1" by simp
  have "kept (k - 1) (length its) (Suc (Suc m)) t s (Bt p its ([] @ d' # bs)) s'"
    unfolding t by (rule kept_kid [OF _ _ *(2) lo _ l(1,2)]) (use Suc.prems(1,2) sh(2) in \<open>auto simp: t intro: mshape_mono [of k k]\<close>)
  then have "kept (k - 1) (length (bitems t) - 1) (Suc (Suc m)) t s (Bt p its ([] @ d' # bs)) s'"
    unfolding kept_def by (simp add: t)
  moreover have "inorder t = hd (inorder t) # inorder (Bt p its ([] @ d' # bs))"
    using inorder_one [of "[]" "[]" its bs p d'] l(1) *(3) unfolding io by (cases "inorder d") auto
  moreover have "pop_leaf past (baddr (lm_leaf t)) (lm_parent par t) 0 s = ret s'" using *(1) by (simp add: t)
  ultimately show ?case by blast
qed

subsection \<open>Removing an item\<close>

lemma remove_inner_eq:
  assumes "nodes s p = Some nd" and "children nd ! 0 \<noteq> 0" and "pos < 7"
    and "get_leftmost_leaf (children nd ! (pos + 1)) p s = ret (l, lp)" and "nodes s l = Some ln"
  shows "remove_from_node past p par pos s =
    pop_leaf past l lp (if lp = p then pos + 1 else 0) (put_node p (nd\<lparr>items := (items nd)[pos := items ln ! 0]\<rparr>) s)"
  using assms by (subst remove_from_node.simps) (simp add: node_at_def upd_node_def pop_leaf_def order_simps cong: if_cong)

lemma lm_parent_in: "bkids t \<noteq> [] \<Longrightarrow> lm_parent par t \<in> set (addrs t)"
proof (induction par t rule: lm_parent.induct)
  case (2 par p its c cs)
  then show ?case by (cases "bkids c"; cases c) auto
qed simp

lemma swap_item:
  assumes r: "rep (nodes s) P" and o: "ok_addrs P" and P: "P = Bt p (is1 @ x # is2) cs" and sh: "mshape k lo n P"
    and nd: "nodes s p = Some nd"
  shows "kept k lo n P s (Bt p (is1 @ y # is2) cs) (put_node p (nd\<lparr>items := (items nd)[length is1 := y]\<rparr>) s)"
proof -
  have nr: "node_rep nd (is1 @ x # is2) (map baddr cs)" using rep_node [OF r] nd by (auto simp: P)
  let ?nd = "nd\<lparr>items := (items nd)[length is1 := y]\<rparr>"
  have "rep ((nodes s)(p \<mapsto> ?nd)) c" if "c \<in> set cs" for c
    by (rule rep_frame [of "nodes s"]) (use r o that in \<open>auto simp: P ok_addrs_def\<close>)
  then have "rep ((nodes s)(p \<mapsto> ?nd)) (Bt p (is1 @ y # is2) cs)"
    using set_sep [OF nr, of y] by simp
  moreover have "dframe (nodes s) (addrs P) ((nodes s)(p \<mapsto> ?nd)) (addrs (Bt p (is1 @ y # is2) cs))"
    by (simp add: dframe_def P)
  moreover have "mshape k lo n (Bt p (is1 @ y # is2) cs)" using sh by (cases n) (auto simp: P)
  ultimately show ?thesis using o unfolding kept_def by (simp add: P ok_addrs_def)
qed

lemma remove_hit_inner:
  assumes r: "rep (nodes s) P" and o: "ok_addrs P" and P: "P = Bt p (is1 @ x # is2) (as @ c0 # c1 # bs)"
    and len: "length is1 = length as" "length is2 = length bs" and sh: "mshape k lo (Suc m) P" "1 \<le> k" "k \<le> 3"
    and keys: "ok_keys (inorder P)" and rt: "root s \<notin> set (concat (map addrs (bkids P)))"
  shows "\<exists>s' P'. remove_from_node past p par (length is1) s = ret s' \<and>
    resettled (if m = 0 then k else k - 1) (Suc m) P s P' s' \<and>
    inorder P' = (wpre (map inorder as) is1 @ inorder c0) @ inorder c1 @ wpost is2 (map inorder bs)"
proof -
  have kids: "\<And>c. c \<in> set (as @ c0 # c1 # bs) \<Longrightarrow> mshape k k m c" "length (is1 @ x # is2) \<le> 7"
    using sh(1) by (auto simp: P order_simps)
  have rc: "rep (nodes s) c1" "ok_addrs c1" using r o ok_addrs_kid [of p "is1 @ x # is2" "as @ [c0]" c1 bs] by (auto simp: P)
  obtain nd where nd: "nodes s p = Some nd" "node_rep nd (is1 @ x # is2) (map baddr (as @ c0 # c1 # bs))"
    using rep_node [OF r] by (auto simp: P)
  have c1: "children nd ! (length is1 + 1) = baddr c1"
    using node_rep_child [OF nd(2), of "length is1 + 1"] len by (simp add: nth_append)
  have c00: "children nd ! 0 \<noteq> 0"
    using node_rep_child [OF nd(2), of 0] kid_node [OF r o, of "hd (as @ c0 # c1 # bs)"]
    by (cases as) (auto simp: P)
  obtain ln where ln: "nodes s (baddr (lm_leaf c1)) = Some ln" "items ln ! 0 = hd (inorder c1)" "inorder c1 \<noteq> []"
    using lm_leaf_first [OF rc(1) kids(1) [of c1]] sh(2) by auto
  let ?y = "hd (inorder c1)" and ?P = "Bt p (is1 @ hd (inorder c1) # is2) (as @ c0 # c1 # bs)"
  define s1 where "s1 = put_node p (nd\<lparr>items := (items nd)[length is1 := ?y]\<rparr>) s"
  have run: "remove_from_node past p par (length is1) s =
      pop_leaf past (baddr (lm_leaf c1)) (lm_parent p c1) (if lm_parent p c1 = p then length is1 + 1 else 0) s1"
    unfolding s1_def ln(2) [symmetric]
    by (rule remove_inner_eq [OF nd(1) c00 _ _ ln(1)]) (use get_leftmost_leaf_ok [OF rc, of p] kids(2) in \<open>simp_all only: c1\<close>, simp)
  have K: "kept k lo (Suc m) P s ?P s1" unfolding s1_def by (rule swap_item [OF r o P sh(1) nd(1)])
  then have r1: "rep (nodes s1) ?P" "ok_addrs ?P" and rt1: "root s1 = root s" unfolding kept_def by auto
  note io = inorder_two [OF len]
  show ?thesis
  proof (cases m)
    case 0
    obtain q rest where d: "c1 = Bt q (?y # rest) []"
      using kids(1) [of c1] ln(3) 0 by (cases c1; cases "inorder c1") auto
    let ?Q = "Bt p (is1 @ ?y # is2) ((as @ [c0]) @ Bt q rest [] # bs)"
    have ioQ: "inorder ?Q = (wpre (map inorder as) is1 @ inorder c0) @ inorder c1 @ wpost is2 (map inorder bs)"
      using io [of p ?y c0 "Bt q rest []"] arg_cong [OF d, of inorder] by simp
    then have kQ: "ok_keys (inorder ?Q)" using keys unfolding P io by (auto simp: ok_keys_def sorted_append)
    obtain s' P' where *: "pop_leaf past q p (length (as @ [c0])) s1 = ret s'" "resettled k 1 ?P s1 P' s'" "inorder P' = inorder ?Q"
      using pop_kid [OF r1, of p "is1 @ ?y # is2" "as @ [c0]" c1 bs q ?y rest k past] d kids sh(3) kQ len 0 by auto
    have "resettled k (Suc m) P s P' s'" by (rule resettled_trans [OF K]) (use *(2) in \<open>simp_all add: 0 P\<close>)
    then show ?thesis using run * ioQ 0 len arg_cong [OF d, of "lm_parent p"] arg_cong [OF d, of lm_leaf] by auto
  next
    case (Suc j)
    have c: "rep (nodes s1) c1" "mshape k k (Suc j) c1" using r1(1) kids(1) [of c1] Suc by auto
    have kc: "ok_keys (inorder c1)" using keys unfolding P io by (simp add: ok_keys_def sorted_append)
    have rc1: "root s1 \<notin> set (addrs c1)" using rt rt1 by (simp add: P)
    obtain s' c' where *: "pop_leaf past (baddr (lm_leaf c1)) (lm_parent p c1) 0 s1 = ret s'"
      "kept (k - 1) (length (bitems c1) - 1) (Suc j) c1 s1 c' s'" "inorder c1 = ?y # inorder c'"
      using pop_first [OF c(1) rc(2) c(2) sh(2,3) kc rc1, of past p] by blast
    have "k \<le> length (bitems c1)" "bkids c1 \<noteq> []" using c(2) by (cases c1; auto)+
    then have lo: "k - 1 \<le> length (bitems c1) - 1" and lp: "lm_parent p c1 \<noteq> p"
      using lm_parent_in [of c1 p] o by (auto simp: P ok_addrs_def)
    let ?Q = "Bt p (is1 @ ?y # is2) ((as @ [c0]) @ c' # bs)"
    have "kept (k - 1) (length (is1 @ ?y # is2)) (Suc (Suc j)) ?P s1 ?Q s'"
      using kept_kid [of s1 p "is1 @ ?y # is2" "as @ [c0]" c1 bs, OF _ _ *(2) lo] r1 kids len Suc
        mshape_mono [of k k "Suc j" _ "k - 1" "k - 1"] by auto
    then have "resettled (k - 1) (Suc m) ?P s1 ?Q s'" using kept_settled Suc by auto
    then have "resettled (if m = 0 then k else k - 1) (Suc m) P s ?Q s'"
      using resettled_trans [OF K] by (simp add: P Suc)
    moreover have "inorder ?Q = (wpre (map inorder as) is1 @ inorder c0) @ inorder c1 @ wpost is2 (map inorder bs)"
      using io [of p ?y c0 c'] *(3) by simp
    moreover have "remove_from_node past p par (length is1) s = ret s'" using run *(1) lp by simp
    ultimately show ?thesis by blast
  qed
qed

text \<open>\<open>removed\<close>: the sequence loses one item with the key, whose value is returned, or holds none and stays.\<close>

definition removed :: "nat \<Rightarrow> nat \<Rightarrow> btree_node_item_t list \<Rightarrow> btree_node_item_t list \<Rightarrow> bool" where
  "removed key v old new \<longleftrightarrow>
     (\<exists>a x b. old = a @ x # b \<and> ikey x = key \<and> v = ival x \<and> new = a @ b) \<or>
     key \<notin> ikey ` set old \<and> v = 0 \<and> new = old"

lemma removed_keys: "removed key v old new \<Longrightarrow> ok_keys (a @ old @ b) \<Longrightarrow> ok_keys (a @ new @ b)"
  unfolding removed_def by (auto simp: ok_keys_def sorted_append)

lemma removed_mid:
  assumes "removed key v old new" and "\<And>x. x \<in> set (a @ old @ b) \<Longrightarrow> ikey x = key \<Longrightarrow> x \<in> set old"
  shows "removed key v (a @ old @ b) (a @ new @ b)"
  using assms(1) unfolding removed_def
proof (elim disjE exE conjE)
  fix c x d assume *: "old = c @ x # d" "ikey x = key" "v = ival x" "new = c @ d"
  have "a @ old @ b = (a @ c) @ x # (d @ b)" "a @ new @ b = (a @ c) @ d @ b" using * by simp_all
  then show "(\<exists>a' x b'. a @ old @ b = a' @ x # b' \<and> ikey x = key \<and> v = ival x \<and> a @ new @ b = a' @ b') \<or>
      key \<notin> ikey ` set (a @ old @ b) \<and> v = 0 \<and> a @ new @ b = a @ old @ b"
    using * by blast
next
  assume "key \<notin> ikey ` set old" "v = 0" "new = old"
  then show "(\<exists>a' x b'. a @ old @ b = a' @ x # b' \<and> ikey x = key \<and> v = ival x \<and> a @ new @ b = a' @ b') \<or>
      key \<notin> ikey ` set (a @ old @ b) \<and> v = 0 \<and> a @ new @ b = a @ old @ b"
    using assms(2) by auto
qed

text \<open>The keys of the nodes above the parents of the leaves.\<close>

fun high_keys :: "nat \<Rightarrow> bt \<Rightarrow> nat list" where
  "high_keys n (Bt p its cs) = (if n \<ge> 2 then map ikey its else []) @ concat (map (high_keys (n - 1)) cs)"

definition remove_body :: "(nat \<Rightarrow> nat) \<Rightarrow> nat \<Rightarrow> nat \<Rightarrow> nat \<Rightarrow> btree_t \<Rightarrow> (nat \<times> btree_t) run" where
  "remove_body past p parent key s =
     bindX (Some (node_at s p)) (\<lambda>nd.
     bindX (Some (node_slot nd key)) (\<lambda>sl.
       case sl of
         Hit i \<Rightarrow> bindX (remove_from_node past p parent i s) (\<lambda>s. ret (ival (items nd ! i), s))
       | Down i \<Rightarrow> remove_item past (children nd ! i) p key i s
       | Miss \<Rightarrow> ret (0, s)))"

lemma remove_item_body:
  assumes "remove_body past p parent key s = ret (v, s')"
  shows "remove_item past p parent key pos s =
    (if parent \<noteq> 0
     then bindX (Some (node_at s' p)) (\<lambda>nd.
            if ncount nd < BTREE_MIN
            then bindX (Some (rebalance past p parent pos s')) (\<lambda>s. ret (v, s))
            else ret (v, s'))
     else ret (v, s'))"
proof -
  obtain nd sl where "node_at s p = Inr nd" "node_slot nd key = Inr sl"
    using assms unfolding remove_body_def by (auto simp: bindX_eq_ret ret_def)
  then show ?thesis
    using assms by (subst remove_item.simps) (simp add: remove_body_def cong: if_cong)
qed

lemma settled_mono: "resettled k n t s t' s' \<Longrightarrow> k' \<le> k \<Longrightarrow> resettled k' n t s t' s'"
  unfolding resettled_def by (auto intro: mshape_mono)

lemma settled_refl:
  "rep (nodes s) t \<Longrightarrow> ok_addrs t \<Longrightarrow> mshape k lo 0 t \<Longrightarrow> resettled k 0 t s t s"
  unfolding resettled_def using dframe_refl by (cases t) auto

lemma body_leaf:
  assumes r: "rep (nodes s) t" and o: "ok_addrs t" and sh: "mshape k lo 0 t"
  shows "\<exists>v s' t'. remove_body past (baddr t) par key s = ret (v, s') \<and> resettled k 0 t s t' s' \<and>
    removed key v (inorder t) (inorder t')"
proof -
  obtain p its where t: "t = Bt p its []" "length its \<le> 7" using sh by (cases t) (auto simp: order_simps)
  obtain nd where nd: "nodes s p = Some nd" "node_rep nd its []" using rep_node [OF r] by (auto simp: t)
  have "length its < BTREE_ORDER" using t(2) by (simp add: order_simps)
  from node_slot_leaf [OF nd(2) this, of key] show ?thesis
  proof (elim disjE exE conjE)
    fix i assume i: "node_slot nd key = Inr (Hit i)" "i < length its" "items nd ! i = its ! i" "ikey (its ! i) = key"
    have sp: "t = Bt p (take i its @ its ! i # drop (Suc i) its) []" using id_take_nth_drop [OF i(2)] by (simp add: t)
    obtain s' where s': "remove_from_node past p par i s = ret s'"
        "kept k (length (take i its @ drop (Suc i) its)) 0 t s (Bt p (take i its @ drop (Suc i) its) []) s'"
      using leaf_kept [OF r o sp _, of past par k] i(2) t(2) by (auto simp: less_eq_Suc_le)
    have "resettled k 0 t s (Bt p (take i its @ drop (Suc i) its) []) s'"
      by (rule kept_settled [OF s'(2)]) (use i(2) in \<open>simp_all add: t\<close>)
    moreover have "removed key (ival (its ! i)) its (take i its @ drop (Suc i) its)"
      unfolding removed_def using id_take_nth_drop [OF i(2)] i(4) by blast
    moreover have "remove_body past (baddr t) par key s = ret (ival (its ! i), s')"
      using nd i s'(1) by (simp add: remove_body_def node_at_def t)
    ultimately show ?thesis by (auto simp: t intro!: exI)
  next
    assume m: "node_slot nd key = Inr Miss" "key \<notin> ikey ` set its"
    then have "remove_body past (baddr t) par key s = ret (0, s)" using nd by (simp add: remove_body_def node_at_def t)
    then show ?thesis using settled_refl [OF r o sh] m(2) unfolding removed_def by (auto simp: t intro!: exI)
  qed
qed

text \<open>The step at an inner node whose child \<open>d\<close> is the next one on the path.\<close>

lemma kid_removed:
  assumes r: "rep (nodes s) t" and o: "ok_addrs t" and t: "t = Bt p (is1 @ is2) (as @ d # bs)"
    and len: "length is1 = length as" "length is2 = length bs" and sh: "mshape k lo (Suc m) t" "1 \<le> lo" "k \<le> 3"
    and keys: "ok_keys (inorder t)" and k': "k' \<le> k" and rt: "root s \<notin> set (addrs d)"
    and le: "\<And>i. i \<in> set is1 \<Longrightarrow> ikey i < key" and ge: "is2 \<noteq> [] \<Longrightarrow> key < ikey (hd is2)"
    and d: "remove_body past (baddr d) p key s = ret (v, s1)" "resettled k' m d s d1 s1" "removed key v (inorder d) (inorder d1)"
  shows "\<exists>s' t'. remove_item past (baddr d) p key (length as) s = ret (v, s') \<and> resettled k' (Suc m) t s t' s' \<and>
    removed key v (inorder t) (inorder t')"
proof -
  let ?a = "wpre (map inorder as) is1" and ?b = "wpost is2 (map inorder bs)" and ?t = "Bt p (is1 @ is2) (as @ d1 # bs)"
  have kids: "\<And>c. c \<in> set (as @ d # bs) \<Longrightarrow> mshape k k m c" "length (is1 @ is2) \<le> 7" "is1 @ is2 \<noteq> []"
    using sh(1,2) by (auto simp: t order_simps)
  have io: "inorder t = ?a @ inorder d @ ?b" "inorder ?t = ?a @ inorder d1 @ ?b"
    unfolding t by (rule inorder_one [OF len])+
  have rem: "removed key v (inorder t) (inorder ?t)"
    unfolding io
  proof (rule removed_mid [OF d(3)])
    fix x assume "x \<in> set (?a @ inorder d @ ?b)" "ikey x = key"
    then show "x \<in> set (inorder d)" using key_in_kid [OF t len keys le ge, of x] io(1) by simp
  qed
  have kt: "ok_keys (inorder ?t)" using removed_keys [OF d(3), of ?a ?b] keys unfolding io by blast
  have "root s \<noteq> baddr d" using rt addrs_neq_Nil(2) [of d] by metis
  then have kd: "kept k' (length (bitems d) - 1) m d s d1 s1" by (rule settled_kept [OF d(2)])
  have "k \<le> length (bitems d)" using kids(1) [of d] by (cases d) auto
  then have "k' - 1 \<le> length (bitems d) - 1" using k' by simp
  then have kd': "kept k' (k' - 1) m d s d1 s1" using kd mshape_mono unfolding kept_def by blast
  have sib: "mshape k' k' m x" if "x \<in> set as \<union> set bs" for x
    by (rule mshape_mono [OF kids(1) k' k']) (use that in auto)
  have l: "length (is1 @ is2) = length as + length bs" using len by simp
  obtain nd s' t' where *: "nodes s1 (baddr d) = Some nd"
    "(if ncount nd < BTREE_MIN then rebalance past (baddr d) p (length as) s1 else Inr s1) = Inr s'"
    "resettled k' (Suc m) t s t' s'" "inorder t' = inorder ?t"
    using kid_fixed [OF r o t l kids(2,3) kd' sib le_trans [OF k' sh(3)] kt, of past] by blast
  have "p \<noteq> 0" using o by (simp add: t ok_addrs_def)
  then have "remove_item past (baddr d) p key (length as) s = ret (v, s')"
    using remove_item_body [OF d(1), of "length as"] *(1,2) by (auto simp: node_at_def ret_def split: if_splits)
  then show ?thesis using *(3) rem unfolding *(4) [symmetric] by blast
qed

lemma removedI: "ikey x = key \<Longrightarrow> old = a @ x # b \<Longrightarrow> new = a @ b \<Longrightarrow> removed key (ival x) old new"
  unfolding removed_def by blast

lemma hit_removed:
  assumes r: "rep (nodes s) t" and o: "ok_addrs t" and t: "t = Bt p its cs" and sh: "mshape k lo (Suc m) t"
    and k: "1 \<le> k" "k \<le> 3" and keys: "ok_keys (inorder t)" and rt: "root s \<notin> set (concat (map addrs (bkids t)))"
    and i: "i < length its" and x: "ikey (its ! i) = key"
  shows "\<exists>s' t'. remove_from_node past p par i s = ret s' \<and>
    resettled (if key \<in> set (high_keys (Suc m) t) then k - 1 else k) (Suc m) t s t' s' \<and>
    removed key (ival (its ! i)) (inorder t) (inorder t')"
proof -
  have l: "length cs = Suc (length its)" using sh by (simp add: t)
  define as bs where "as = take i cs" and "bs = drop (i + 2) cs"
  have cs: "cs = as @ cs ! i # cs ! Suc i # bs"
    using id_take_nth_drop [of i cs] Cons_nth_drop_Suc [of "Suc i" cs] i l by (simp add: as_def bs_def)
  have te: "t = Bt p (take i its @ its ! i # drop (Suc i) its) (as @ cs ! i # cs ! Suc i # bs)"
    using cs id_take_nth_drop [OF i] by (simp add: t)
  have len: "length (take i its) = length as" "length (drop (Suc i) its) = length bs"
    using i l by (simp_all add: as_def bs_def)
  obtain s' t' where *: "remove_from_node past p par i s = ret s'" "resettled (if m = 0 then k else k - 1) (Suc m) t s t' s'"
    "inorder t' = (wpre (map inorder as) (take i its) @ inorder (cs ! i)) @ inorder (cs ! Suc i) @ wpost (drop (Suc i) its) (map inorder bs)"
    using remove_hit_inner [OF r o te len sh k keys rt, of past par] i by auto
  have "removed key (ival (its ! i)) (inorder t) (inorder t')"
    by (rule removedI [OF x _ *(3)]) (simp only: te inorder_two [OF len] append_assoc)
  moreover have "(if key \<in> set (high_keys (Suc m) t) then k - 1 else k) \<le> (if m = 0 then k else k - 1)"
    using nth_mem [OF i] x by (cases m) (auto simp: t)
  then have "resettled (if key \<in> set (high_keys (Suc m) t) then k - 1 else k) (Suc m) t s t' s'"
    by (rule settled_mono [OF *(2)])
  ultimately show ?thesis using *(1) by blast
qed

lemma body_ok:
  "rep (nodes s) t \<Longrightarrow> ok_addrs t \<Longrightarrow> mshape k lo n t \<Longrightarrow> n = 0 \<or> 1 \<le> lo \<Longrightarrow> 1 \<le> k \<Longrightarrow> k \<le> 3 \<Longrightarrow>
   ok_keys (inorder t) \<Longrightarrow> root s \<notin> set (concat (map addrs (bkids t))) \<Longrightarrow>
   \<exists>v s' t'. remove_body past (baddr t) par key s = ret (v, s') \<and>
     resettled (if key \<in> set (high_keys n t) then k - 1 else k) n t s t' s' \<and> removed key v (inorder t) (inorder t')"
proof (induction n arbitrary: t lo par)
  case 0
  have "key \<notin> set (high_keys 0 t)" using 0(3) by (cases t) auto
  then show ?case using body_leaf [OF 0(1-3), of past par key] by simp
next
  case (Suc m)
  note r = Suc.prems(1) and o = Suc.prems(2) and sh = Suc.prems(3) and keys = Suc.prems(7)
  obtain p its cs where t: "t = Bt p its cs" by (cases t)
  have l: "length cs = Suc (length its)" "length its \<le> 7" "1 \<le> lo" using sh Suc.prems(4) by (auto simp: t order_simps)
  obtain nd where nd: "nodes s p = Some nd" "node_rep nd its (map baddr cs)" using rep_node [OF r] by (auto simp: t)
  have "baddr c \<noteq> 0" if "c \<in> set cs" for c by (rule kid_node [OF r o, of c]) (use that in \<open>simp_all add: t\<close>)
  then have "0 \<notin> set (map baddr cs)" by force
  moreover have "length its < BTREE_ORDER" "length (map baddr cs) = Suc (length its)" using l by (simp_all add: order_simps)
  ultimately consider i where "node_slot nd key = Inr (Hit i)" "i < length its" "items nd ! i = its ! i" "ikey (its ! i) = key"
    | i where "node_slot nd key = Inr (Down i)" "i \<le> length its" "\<forall>j<i. ikey (its ! j) < key"
       "i < length its \<longrightarrow> key < ikey (its ! i)" "children nd ! i = map baddr cs ! i"
    using node_slot_inner [OF nd(2), of key] by blast
  then show ?case
  proof cases
    case 1
    obtain s' t' where *: "remove_from_node past p par i s = ret s'"
      "resettled (if key \<in> set (high_keys (Suc m) t) then k - 1 else k) (Suc m) t s t' s'"
      "removed key (ival (its ! i)) (inorder t) (inorder t')"
      using hit_removed [OF r o t sh Suc.prems(5,6) keys Suc.prems(8) 1(2,4), of past par] by blast
    have "remove_body past (baddr t) par key s = ret (ival (its ! i), s')"
      using *(1) nd 1(1,3) by (simp add: remove_body_def node_at_def t)
    then show ?thesis using * by blast
  next
    case 2
    define as d bs where "as = take i cs" and "d = cs ! i" and "bs = drop (Suc i) cs"
    have te: "t = Bt p (take i its @ drop i its) (as @ d # bs)"
      using id_take_nth_drop [of i cs] 2(2) l(1) by (simp add: t as_def bs_def d_def)
    have len: "length (take i its) = length as" "length (drop i its) = length bs" using 2(2) l(1) by (simp_all add: as_def bs_def)
    have d: "rep (nodes s) d" "ok_addrs d" "mshape k k m d" "root s \<notin> set (addrs d)"
      using r ok_addrs_kid [OF o [unfolded te]] sh Suc.prems(8) by (auto simp: te)
    have kd: "ok_keys (inorder d)" using keys unfolding te inorder_one [OF len] by (rule ok_keys_mid)
    have rd: "root s \<notin> set (concat (map addrs (bkids d)))" using d(4) by (cases d) auto
    let ?k = "if key \<in> set (high_keys m d) then k - 1 else k"
    have kk: "?k \<le> k" by simp
    obtain v s1 d1 where B: "remove_body past (baddr d) p key s = ret (v, s1)" "resettled ?k m d s d1 s1" "removed key v (inorder d) (inorder d1)"
      using Suc.IH [OF d(1-3) _ Suc.prems(5,6) kd rd, of p] Suc.prems(5) by auto
    have le: "ikey x < key" if "x \<in> set (take i its)" for x using that 2(2,3) by (auto simp: in_set_conv_nth)
    have ge: "key < ikey (hd (drop i its))" if "drop i its \<noteq> []" using that 2(4) by (simp add: hd_drop_conv_nth)
    obtain s' t' where *: "remove_item past (baddr d) p key (length as) s = ret (v, s')" "resettled ?k (Suc m) t s t' s'"
      "removed key v (inorder t) (inorder t')"
      using kid_removed [OF r o te len sh l(3) Suc.prems(6) keys kk d(4) le ge B] by blast
    have "(if key \<in> set (high_keys (Suc m) t) then k - 1 else k) \<le> ?k" by (auto simp: te)
    note S = settled_mono [OF *(2) this]
    have "children nd ! i = baddr d" "i = length as" using 2(2,5) l(1) by (simp_all add: d_def as_def)
    then have "remove_body past (baddr t) par key s = ret (v, s')"
      using nd 2(1) *(1) by (simp add: remove_body_def node_at_def t)
    then show ?thesis using S *(3) by blast
  qed
qed

subsection \<open>The tree after a removal\<close>

definition tree_occ :: "nat \<Rightarrow> nat \<Rightarrow> btree_t \<Rightarrow> bt \<Rightarrow> bool" where
  "tree_occ k n s t \<longleftrightarrow>
     root s = baddr t \<and> rep (nodes s) t \<and> ok_addrs t \<and> mshape k (if n = 0 then 0 else 1) n t \<and> ok_keys (inorder t)"

lemma tree_in_occ: "tree_in s (Some t) \<longleftrightarrow> (\<exists>n. tree_occ BTREE_MIN n s t)"
  unfolding tree_in_def tree_occ_def bt_shape_mshape by auto

lemma settled_occ:
  assumes s: "resettled k n t s t' s'" and "root s = baddr t" and "ok_keys (inorder t')"
  shows "\<exists>n'. tree_occ k n' s' t'"
proof -
  consider (same) "root s' = root s" "baddr t' = baddr t" "mshape k (length (bitems t) - 1) n t'" "n \<noteq> 0 \<longrightarrow> bitems t' \<noteq> []"
    | (shrunk) m where "root s' = baddr t'" "n = Suc m" "mshape k k m t'" "bitems t' \<noteq> []"
    using s assms(2) unfolding resettled_def by blast
  then show ?thesis
  proof cases
    case same
    then have "mshape k (if n = 0 then 0 else 1) n t'" by (cases t') (auto simp: Suc_le_eq)
    then show ?thesis using s assms(2,3) same unfolding resettled_def tree_occ_def by metis
  next
    case shrunk
    then have "mshape k (if m = 0 then 0 else 1) m t'"
      by (cases t') (auto simp: Suc_le_eq)
    then show ?thesis using s assms(3) shrunk unfolding resettled_def tree_occ_def by blast
  qed
qed

lemma remove_tree:
  assumes T: "tree_occ k n s t" and k: "1 \<le> k" "k \<le> BTREE_MIN"
  shows "\<exists>v s' t' n'. btree_remove past key s = ret (v, s') \<and>
    tree_occ (if key \<in> set (high_keys n t) then k - 1 else k) n' s' t' \<and>
    removed key v (inorder t) (inorder t') \<and> dframe (nodes s) (addrs t) (nodes s') (addrs t')"
proof -
  have t: "root s = baddr t" "rep (nodes s) t" "ok_addrs t" "mshape k (if n = 0 then 0 else 1) n t" "ok_keys (inorder t)"
    using T unfolding tree_occ_def by auto
  have rt: "root s \<notin> set (concat (map addrs (bkids t)))" using t(1,3) by (cases t) (simp add: ok_addrs_def)
  have k3: "k \<le> 3" using k(2) by (simp add: order_simps)
  obtain v s' t' where *: "remove_body past (baddr t) 0 key s = ret (v, s')"
    "resettled (if key \<in> set (high_keys n t) then k - 1 else k) n t s t' s'" "removed key v (inorder t) (inorder t')"
    using body_ok [OF t(2-4) _ k(1) k3 t(5) rt, of past 0 key] by (cases "n = 0") auto
  have "ok_keys (inorder t')" using removed_keys [OF *(3), of "[]" "[]"] t(5) by simp
  from settled_occ [OF *(2) t(1) this] obtain n' where
    "tree_occ (if key \<in> set (high_keys n t) then k - 1 else k) n' s' t'" by blast
  moreover have "dframe (nodes s) (addrs t) (nodes s') (addrs t')" using *(2) unfolding resettled_def by blast
  moreover have "btree_remove past key s = ret (v, s')"
    using remove_item_body [OF *(1), of 0] t(1) by (simp add: btree_remove_def)
  ultimately show ?thesis using *(3) by blast
qed

text \<open>
  C16: A removal from a tree returns, whatever stands behind a node in memory. The sequence of items loses one
  item with the key and its value is returned, or the key is not there and 0 is returned. The nodes the new
  tree no longer has are freed and no other node changes. Every node but the root keeps the \<open>k\<close> items it had,
  unless the key was in a node above the parents of the leaves: then nodes may be left with one item less.
\<close>

theorem btree_remove_correct:
  assumes "tree_occ k n s t" and "1 \<le> k" and "k \<le> BTREE_MIN"
  shows "\<exists>v s' t' n'. btree_remove past key s = ret (v, s') \<and>
    tree_occ (if key \<in> set (high_keys n t) then k - 1 else k) n' s' t' \<and>
    removed key v (inorder t) (inorder t') \<and> dframe (nodes s) (addrs t) (nodes s') (addrs t')"
  by (rule remove_tree [OF assms])

lemma occ_value:
  assumes T: "tree_occ k n s t" and x: "x \<in> set (inorder t)" and inj: "inj_on ikey (set (inorder t))"
  shows "btree_get (ikey x) s = ret (ival x) \<and> btree_map_lookup (ikey x) s = ret 1"
  using tree_finds [of s t k _ n "ikey x"] T x inj_onD [OF inj _ _ x] unfolding tree_occ_def by fastforce

lemma occ_none:
  assumes "tree_occ k n s t" and "key \<notin> ikey ` set (inorder t)"
  shows "btree_get key s = ret 0 \<and> btree_map_lookup key s = ret 0"
  using tree_finds [of s t k _ n key] assms unfolding tree_occ_def by fastforce

lemma removed_distinct:
  assumes "removed key v old new" and "inj_on ikey (set old)" and "distinct old"
  shows "set new = {x \<in> set old. ikey x \<noteq> key}"
  using assms(1) unfolding removed_def
proof (elim disjE exE conjE)
  fix a x b assume *: "old = a @ x # b" "ikey x = key" "new = a @ b"
  have "ikey y \<noteq> key" if "y \<in> set a \<union> set b" for y
    using inj_onD [OF assms(2), of y x] assms(3) that * by auto
  then show ?thesis using * by auto
qed auto

text \<open>
  After a removal from a tree with distinct keys, \<open>get\<close> and \<open>lookup\<close> no longer find the key, and every
  query for another key returns what it returned before.
\<close>

theorem btree_remove_get:
  assumes T: "tree_occ k n s t" and k: "1 \<le> k" "k \<le> BTREE_MIN" and d: "inj_on ikey (set (inorder t))" "distinct (inorder t)"
    and ok: "btree_remove past key s = ret (v, s')"
  shows "btree_get key s = ret v \<and> btree_get key s' = ret 0 \<and> btree_map_lookup key s' = ret 0 \<and>
    (\<forall>j. j \<noteq> key \<longrightarrow> btree_get j s' = btree_get j s \<and> btree_map_lookup j s' = btree_map_lookup j s)"
proof -
  obtain k' n' t' where T': "tree_occ k' n' s' t'" and r: "removed key v (inorder t) (inorder t')"
    using remove_tree [OF T k, of past key] ok by (auto simp: ret_def)
  note st = removed_distinct [OF r d]
  have inj: "inj_on ikey (set (inorder t'))" using d(1) unfolding st by (auto intro: inj_on_subset)
  have "btree_get j s' = btree_get j s \<and> btree_map_lookup j s' = btree_map_lookup j s" if j: "j \<noteq> key" for j
  proof (cases "j \<in> ikey ` set (inorder t)")
    case True
    then obtain x where x: "x \<in> set (inorder t)" "j = ikey x" by blast
    then have "x \<in> set (inorder t')" using j unfolding st by simp
    then show ?thesis using occ_value [OF T x(1) d(1)] occ_value [OF T' _ inj] x(2) by simp
  next
    case False
    then have "j \<notin> ikey ` set (inorder t')" unfolding st by auto
    then show ?thesis using occ_none [OF T False] occ_none [OF T'] by simp
  qed
  moreover have "key \<notin> ikey ` set (inorder t')" unfolding st by auto
  moreover have "btree_get key s = ret v"
    using r occ_none [OF T] occ_value [OF T _ d(1)] unfolding removed_def by fastforce
  ultimately show ?thesis using occ_none [OF T'] by blast
qed

subsection \<open>A tree of three nodes\<close>

definition item3 :: "nat \<Rightarrow> nat \<Rightarrow> nat \<Rightarrow> btree_node_item_t list" where
  "item3 a b c = [\<lparr>ikey = a, ival = 10 * a\<rparr>, \<lparr>ikey = b, ival = 10 * b\<rparr>, \<lparr>ikey = c, ival = 10 * c\<rparr>]"

definition leaf3 :: "nat \<Rightarrow> nat \<Rightarrow> nat \<Rightarrow> btree_node_t" where
  "leaf3 a b c = \<lparr>ncount = 3, items = item3 a b c @ replicate 4 zero_item, children = replicate 8 0\<rparr>"

definition demo_two :: btree_t where
  "demo_two = \<lparr>root = 1, nodes = [1 \<mapsto> \<lparr>ncount = 1, items = \<lparr>ikey = 4, ival = 40\<rparr> # replicate 6 zero_item,
       children = [2, 3] @ replicate 6 0\<rparr>, 2 \<mapsto> leaf3 1 2 3, 3 \<mapsto> leaf3 5 6 7]\<rparr>"

definition demo_bt :: bt where
  "demo_bt = Bt 1 [\<lparr>ikey = 4, ival = 40\<rparr>] [Bt 2 (item3 1 2 3) [], Bt 3 (item3 5 6 7) []]"

lemma demo_two_occ: "tree_occ BTREE_MIN 1 demo_two demo_bt"
  unfolding tree_occ_def
  by (simp add: demo_two_def demo_bt_def leaf3_def item3_def node_rep_def order_simps ok_addrs_def ok_keys_def)

lemma demo_bt_inorder: "inorder demo_bt = item3 1 2 3 @ \<lparr>ikey = 4, ival = 40\<rparr> # item3 5 6 7"
  by (simp add: demo_bt_def)

theorem btree_remove_correct_witness:
  "\<exists>v s' t' n'. btree_remove (\<lambda>_. 9) 4 demo_two = ret (v, s') \<and> tree_occ BTREE_MIN n' s' t' \<and>
     removed 4 v (inorder demo_bt) (inorder t')"
proof -
  have "4 \<notin> set (high_keys 1 demo_bt)" by (simp add: demo_bt_def)
  then show ?thesis
    using btree_remove_correct [OF demo_two_occ, of "\<lambda>_. 9" 4] by (auto simp: order_simps)
qed

theorem btree_remove_get_witness:
  "\<exists>v s'. btree_remove (\<lambda>_. 9) 4 demo_two = ret (v, s') \<and> btree_get 4 demo_two = ret v \<and>
     btree_get 4 s' = ret 0 \<and> btree_get 6 s' = btree_get 6 demo_two"
proof -
  obtain v s' where r: "btree_remove (\<lambda>_. 9) 4 demo_two = ret (v, s')"
    using remove_tree [OF demo_two_occ, of "\<lambda>_. 9" 4] by (auto simp: order_simps)
  have "inj_on ikey (set (inorder demo_bt))" "distinct (inorder demo_bt)"
    by (auto simp: demo_bt_inorder item3_def)
  from btree_remove_get [OF demo_two_occ _ _ this r] show ?thesis
    using r by (intro exI [of _ v] exI [of _ s']) (auto simp: order_simps)
qed

end
