(* ===== verification/FdTable.thy ===== *)
theory FdTable
  imports Prelude "HOL-Library.AList"
begin

text \<open>
  The file-descriptor table of the two user-space file systems, libcxlfs.cc and libvramfs.cc.  Their functions are the
  same but for the allocator behind \<^verbatim>\<open>lseek\<close>, which is therefore an argument here; the theories \<open>CxlFs\<close> and
  \<open>VramFs\<close> apply them to the allocator of each library.  The three maps of the source are association lists,
  \<^verbatim>\<open>errno\<close> is a field of the table.

  The locale \<open>region_alloc\<close> is what the table needs of an allocator: the bytes it hands out were not handed out
  before.  Under it, no two files share a byte.
\<close>

unbundle bit_operations_syntax

text \<open>The conversion of a signed 64-bit offset to \<^verbatim>\<open>size_t\<close>.\<close>

definition to_size :: "int \<Rightarrow> nat" where
  "to_size i = nat (i mod 2 ^ 64)"

subsection \<open>State\<close>

record fd_desc_t =
  fdd_fd :: int
  fdd_region :: addr
  fdd_len :: nat
  fdd_va_alloc_off :: nat
  fdd_seek :: int

record fs_tab =
  path_to_fd :: "(string \<times> int) list"
  fd_to_path :: "(int \<times> string) list"
  fd_desc :: "(int \<times> fd_desc_t) list"
  fs_errno :: int

definition fdd_end :: "fd_desc_t \<Rightarrow> addr" where
  "fdd_end d = uadd64 (uadd64 (fdd_region d) (fdd_va_alloc_off d)) (to_size (fdd_seek d))"

definition fdd_end_off :: "fd_desc_t \<Rightarrow> nat" where
  "fdd_end_off d = uadd64 (fdd_va_alloc_off d) (to_size (fdd_seek d))"

definition EBADF :: int where "EBADF = 9"
definition EINVAL :: int where "EINVAL = 22"
definition ENOSYS :: int where "ENOSYS = 38"
definition ENOTSUP :: int where "ENOTSUP = 95"
definition SEEK_SET :: int where "SEEK_SET = 0"

definition MAP_FAILED :: addr where "MAP_FAILED = 2 ^ 64 - 1"
definition MAP_SHARED :: "32 word" where "MAP_SHARED = 0x01"
definition MAP_PRIVATE :: "32 word" where "MAP_PRIVATE = 0x02"
definition MAP_SHARED_VALIDATE :: "32 word" where "MAP_SHARED_VALIDATE = 0x03"
definition MAP_FIXED :: "32 word" where "MAP_FIXED = 0x10"
definition MAP_ANONYMOUS :: "32 word" where "MAP_ANONYMOUS = 0x20"
definition MAP_SYNC :: "32 word" where "MAP_SYNC = 0x80000"
definition MAP_FIXED_NOREPLACE :: "32 word" where "MAP_FIXED_NOREPLACE = 0x100000"

lemmas map_flag_defs = MAP_SHARED_def MAP_PRIVATE_def MAP_SHARED_VALIDATE_def MAP_FIXED_def MAP_ANONYMOUS_def
  MAP_SYNC_def MAP_FIXED_NOREPLACE_def

subsection \<open>Operations\<close>

function free_from :: "(int \<times> string) list \<Rightarrow> int \<Rightarrow> int" where
  "free_from tab r = (if r \<in> fst ` set tab then free_from tab (r + 1) else r)"
  by pat_completeness auto
termination
proof (relation "measure (\<lambda>(tab, r). card {k \<in> fst ` set tab. r \<le> k})", goal_cases)
  case (2 tab r)
  have "{k \<in> fst ` set tab. r + 1 \<le> k} \<subset> {k \<in> fst ` set tab. r \<le> k}" using 2 by force
  then have "card {k \<in> fst ` set tab. r + 1 \<le> k} < card {k \<in> fst ` set tab. r \<le> k}"
    by (rule psubset_card_mono [rotated]) simp
  then show ?case by simp
qed simp

declare free_from.simps [simp del]

definition get_free_fd :: "fs_tab \<Rightarrow> int" where
  "get_free_fd t = free_from (fd_to_path t) 1"

definition fd_exists :: "int \<Rightarrow> fs_tab \<Rightarrow> bool" where
  "fd_exists fd t \<longleftrightarrow> fd \<in> fst ` set (fd_desc t)"

definition create_fd :: "string \<Rightarrow> fs_tab \<Rightarrow> int \<times> fs_tab" where
  "create_fd pathname_str t =
     (let fd = get_free_fd t
      in (fd, t\<lparr>fd_to_path := AList.update fd pathname_str (fd_to_path t),
                path_to_fd := AList.update pathname_str fd (path_to_fd t),
                fd_desc := AList.update fd \<lparr>fdd_fd = fd, fdd_region = 0, fdd_len = 0, fdd_va_alloc_off = 0, fdd_seek = 0\<rparr>
                             (fd_desc t)\<rparr>))"

definition fs_lseek ::
  "(nat \<Rightarrow> 's \<Rightarrow> (addr \<times> 's) res) \<Rightarrow> int \<Rightarrow> int \<Rightarrow> int \<Rightarrow> fs_tab \<times> 's \<Rightarrow> (int \<times> fs_tab \<times> 's) res" where
  "fs_lseek malloc fd offset whence = (\<lambda>(t, s).
     case map_of (fd_desc t) fd of
       None \<Rightarrow> Inr (-1, t\<lparr>fs_errno := EBADF\<rparr>, s)
     | Some d \<Rightarrow>
         if whence \<noteq> SEEK_SET then Inr (-1, t\<lparr>fs_errno := ENOSYS\<rparr>, s)
         else let new_off = offset; d1 = d\<lparr>fdd_seek := new_off\<rparr>; un = to_size new_off
              in guardR (fdd_len d1 = 0) AssertFailed
                (if un > fdd_len d1
                 then bindR (malloc un s) (\<lambda>(p, s').
                        Inr (new_off, t\<lparr>fd_desc := AList.update fd (d1\<lparr>fdd_len := un, fdd_region := p\<rparr>) (fd_desc t)\<rparr>, s'))
                 else Inr (new_off, t\<lparr>fd_desc := AList.update fd d1 (fd_desc t)\<rparr>, s)))"

definition fs_open :: "string \<Rightarrow> fs_tab \<Rightarrow> int \<times> fs_tab" where
  "fs_open pathname t =
     (case map_of (path_to_fd t) pathname of Some fd \<Rightarrow> (fd, t) | None \<Rightarrow> create_fd pathname t)"

definition fs_mmap :: "nat \<Rightarrow> 32 word \<Rightarrow> int \<Rightarrow> int \<Rightarrow> fs_tab \<Rightarrow> addr \<times> fs_tab" where
  "fs_mmap length' flags fd offset t =
     (case map_of (fd_desc t) fd of
        None \<Rightarrow> (MAP_FAILED, t\<lparr>fs_errno := EBADF\<rparr>)
      | Some d \<Rightarrow>
          if flags AND MAP_FIXED \<noteq> 0 \<or> flags AND MAP_FIXED_NOREPLACE \<noteq> 0 then (MAP_FAILED, t\<lparr>fs_errno := ENOTSUP\<rparr>)
          else if flags AND MAP_PRIVATE \<noteq> 0 \<or> flags AND MAP_ANONYMOUS \<noteq> 0 then (MAP_FAILED, t\<lparr>fs_errno := ENOTSUP\<rparr>)
          else if uadd64 length' (to_size offset) > fdd_len d then (MAP_FAILED, t\<lparr>fs_errno := EINVAL\<rparr>)
          else (uadd64 (fdd_region d) (fdd_va_alloc_off d), t))"

text \<open>A client's sequence of calls.\<close>

datatype fs_call = Open string | Seek int int int | Map nat "32 word" int int

fun fs_run :: "(nat \<Rightarrow> 's \<Rightarrow> (addr \<times> 's) res) \<Rightarrow> fs_call list \<Rightarrow> fs_tab \<times> 's \<Rightarrow> (fs_tab \<times> 's) res" where
  "fs_run malloc [] ts = Inr ts"
| "fs_run malloc (Open p # cs) (t, s) = fs_run malloc cs (snd (fs_open p t), s)"
| "fs_run malloc (Seek fd off w # cs) (t, s) = bindR (fs_lseek malloc fd off w (t, s)) (\<lambda>(r, ts). fs_run malloc cs ts)"
| "fs_run malloc (Map n fl fd off # cs) (t, s) = fs_run malloc cs (snd (fs_mmap n fl fd off t), s)"

fun fs_total :: "fs_call list \<Rightarrow> nat" where
  "fs_total [] = 0"
| "fs_total (Seek fd off w # cs) = to_size off + fs_total cs"
| "fs_total (c # cs) = fs_total cs"

definition empty_tab :: fs_tab where
  "empty_tab = \<lparr>path_to_fd = [], fd_to_path = [], fd_desc = [], fs_errno = 0\<rparr>"

definition file_byte :: "fs_tab \<Rightarrow> int \<Rightarrow> addr \<Rightarrow> bool" where
  "file_byte t fd x \<longleftrightarrow> (\<exists>d. map_of (fd_desc t) fd = Some d \<and> inr (fdd_region d) (fdd_len d) x)"

subsection \<open>Descriptors\<close>

lemma free_from_fresh: "r \<le> free_from tab r \<and> free_from tab r \<notin> fst ` set tab"
proof (induction tab r rule: free_from.induct)
  case (1 tab r)
  show ?case
  proof (cases "r \<in> fst ` set tab")
    case True
    then have "free_from tab r = free_from tab (r + 1)" by (subst free_from.simps) simp
    then show ?thesis using "1.IH" [OF True] by simp
  next
    case False
    then have "free_from tab r = r" by (subst free_from.simps) simp
    then show ?thesis using False by simp
  qed
qed

lemma free_from_least: "r \<le> k \<Longrightarrow> k < free_from tab r \<Longrightarrow> k \<in> fst ` set tab"
proof (induction tab r rule: free_from.induct)
  case (1 tab r)
  show ?case
  proof (cases "r \<in> fst ` set tab")
    case True
    then have "free_from tab r = free_from tab (r + 1)" by (subst free_from.simps) simp
    then show ?thesis using "1.IH" [OF True] "1.prems" True by (cases "k = r") auto
  next
    case False
    then have "free_from tab r = r" by (subst free_from.simps) simp
    then show ?thesis using "1.prems" by simp
  qed
qed

text \<open>The three maps describe the same files.\<close>

definition tab_ok :: "fs_tab \<Rightarrow> bool" where
  "tab_ok t \<longleftrightarrow>
     (\<forall>p fd. map_of (path_to_fd t) p = Some fd \<longrightarrow> map_of (fd_to_path t) fd = Some p \<and> 1 \<le> fd) \<and>
     (\<forall>fd p. map_of (fd_to_path t) fd = Some p \<longrightarrow> map_of (path_to_fd t) p = Some fd) \<and>
     (\<forall>fd. map_of (fd_desc t) fd = None \<longleftrightarrow> map_of (fd_to_path t) fd = None) \<and>
     (\<forall>fd d. map_of (fd_desc t) fd = Some d \<longrightarrow> fdd_fd d = fd \<and> fdd_va_alloc_off d = 0)"

lemma fs_open_fd:
  assumes "tab_ok t"
  shows "map_of (path_to_fd (snd (fs_open p t))) p = Some (fst (fs_open p t)) \<and>
    (\<forall>q. q \<noteq> p \<longrightarrow> map_of (path_to_fd (snd (fs_open p t))) q = map_of (path_to_fd t) q)"
  by (simp add: fs_open_def create_fd_def Let_def update_conv' split: option.split)

lemma fs_open_tab_ok:
  assumes "tab_ok t"
  shows "tab_ok (snd (fs_open p t))"
proof (cases "map_of (path_to_fd t) p")
  case None
  define fd where "fd = get_free_fd t"
  have fd: "1 \<le> fd" "map_of (fd_to_path t) fd = None"
    using free_from_fresh [of 1 "fd_to_path t"] by (auto simp: fd_def get_free_fd_def map_of_eq_None_iff)
  then have nofd: "map_of (path_to_fd t) q \<noteq> Some fd" for q using assms unfolding tab_ok_def by (metis option.distinct(1))
  have eqs: "map_of (path_to_fd (snd (fs_open p t))) = (map_of (path_to_fd t))(p \<mapsto> fd)"
    "map_of (fd_to_path (snd (fs_open p t))) = (map_of (fd_to_path t))(fd \<mapsto> p)"
    "map_of (fd_desc (snd (fs_open p t))) =
       (map_of (fd_desc t))(fd \<mapsto> \<lparr>fdd_fd = fd, fdd_region = 0, fdd_len = 0, fdd_va_alloc_off = 0, fdd_seek = 0\<rparr>)"
    by (simp_all add: fs_open_def None create_fd_def Let_def fd_def update_conv')
  have nop: "map_of (fd_to_path t) k \<noteq> Some p" for k using assms None unfolding tab_ok_def by (metis option.distinct(1))
  have o1: "map_of (fd_to_path t) k = Some q \<and> 1 \<le> k" if "map_of (path_to_fd t) q = Some k" for q k
    using assms that unfolding tab_ok_def by blast
  have o2: "map_of (path_to_fd t) q = Some k" if "map_of (fd_to_path t) k = Some q" for q k
    using assms that unfolding tab_ok_def by blast
  have o3: "map_of (fd_desc t) k = None \<longleftrightarrow> map_of (fd_to_path t) k = None" for k
    using assms unfolding tab_ok_def by blast
  have o4: "fdd_fd d = k \<and> fdd_va_alloc_off d = 0" if "map_of (fd_desc t) k = Some d" for k d
    using assms that unfolding tab_ok_def by blast
  show ?thesis
    unfolding tab_ok_def eqs
  proof (intro conjI allI impI)
    fix q k assume *: "((map_of (path_to_fd t))(p \<mapsto> fd)) q = Some k"
    show "((map_of (fd_to_path t))(fd \<mapsto> p)) k = Some q" using * o1 nofd by (cases "q = p") auto
    show "1 \<le> k" using * o1 fd(1) by (cases "q = p") auto
  next
    fix k q assume *: "((map_of (fd_to_path t))(fd \<mapsto> p)) k = Some q"
    show "((map_of (path_to_fd t))(p \<mapsto> fd)) q = Some k" using * o2 nop by (cases "k = fd") auto
  next
    fix k d assume *: "((map_of (fd_desc t))(fd \<mapsto> \<lparr>fdd_fd = fd, fdd_region = 0, fdd_len = 0, fdd_va_alloc_off = 0, fdd_seek = 0\<rparr>)) k = Some d"
    show "fdd_fd d = k" "fdd_va_alloc_off d = 0" using * o4 by (cases "k = fd"; auto)+
  qed (simp add: o3)
qed (use assms in \<open>simp add: fs_open_def\<close>)

lemma tab_ok_desc:
  assumes "tab_ok t" "map_of (fd_desc t) fd = Some d" "fdd_fd d' = fdd_fd d" "fdd_va_alloc_off d' = fdd_va_alloc_off d"
    and "path_to_fd t' = path_to_fd t" "fd_to_path t' = fd_to_path t" "fd_desc t' = AList.update fd d' (fd_desc t)"
  shows "tab_ok t'"
proof -
  have m: "map_of (fd_desc t') = (map_of (fd_desc t))(fd \<mapsto> d')" by (simp add: assms(7) update_conv')
  have "map_of (fd_desc t') k = None \<longleftrightarrow> map_of (fd_desc t) k = None" for k using assms(2) by (simp add: m)
  moreover have "fdd_fd e = k \<and> fdd_va_alloc_off e = 0" if "map_of (fd_desc t') k = Some e" for k e
  proof -
    have o4: "fdd_fd e = k \<and> fdd_va_alloc_off e = 0" if "map_of (fd_desc t) k = Some e" for k e
      using assms(1) that unfolding tab_ok_def by blast
    show ?thesis using that o4 [of k e] o4 [OF assms(2)] assms(3,4) unfolding m by (cases "k = fd") simp_all
  qed
  ultimately show ?thesis using assms(1) unfolding tab_ok_def assms(5,6) by blast
qed

lemma fs_lseek_cases:
  assumes "fs_lseek malloc fd off w (t, s) = Inr (r, t', s')"
  obtains (error) e where "r = -1" "t' = t\<lparr>fs_errno := e\<rparr>" "s' = s"
  | (same) d where "map_of (fd_desc t) fd = Some d" "r = off" "s' = s" "to_size off = 0" "fdd_len d = 0"
      "t' = t\<lparr>fd_desc := AList.update fd (d\<lparr>fdd_seek := off\<rparr>) (fd_desc t)\<rparr>"
  | (alloc) d p where "map_of (fd_desc t) fd = Some d" "r = off" "malloc (to_size off) s = Inr (p, s')" "fdd_len d = 0"
      "t' = t\<lparr>fd_desc := AList.update fd (d\<lparr>fdd_seek := off, fdd_len := to_size off, fdd_region := p\<rparr>) (fd_desc t)\<rparr>"
proof (cases "map_of (fd_desc t) fd")
  case None
  then show thesis using assms error [of EBADF] by (simp add: fs_lseek_def)
next
  case (Some d)
  show thesis
  proof (cases "w = SEEK_SET")
    case False
    then show thesis using assms Some error [of ENOSYS] by (simp add: fs_lseek_def)
  next
    case True
    then have z: "fdd_len d = 0" using assms Some by (simp add: fs_lseek_def Let_def guardR_eq_Inr)
    show thesis
    proof (cases "to_size off = 0")
      case t0: True
      then show thesis using assms Some True z same [OF Some] by (auto simp: fs_lseek_def Let_def)
    next
      case False
      then have "\<exists>p. malloc (to_size off) s = Inr (p, s') \<and> r = off \<and>
          t' = t\<lparr>fd_desc := AList.update fd (d\<lparr>fdd_seek := off, fdd_len := to_size off, fdd_region := p\<rparr>) (fd_desc t)\<rparr>"
        using assms Some True z by (auto simp: fs_lseek_def Let_def bindR_eq_Inr)
      then show thesis using alloc Some z by blast
    qed
  qed
qed

lemma tab_ok_errno [simp]: "tab_ok (t\<lparr>fs_errno := e\<rparr>) = tab_ok t"
  unfolding tab_ok_def by simp

lemma fs_lseek_tab_ok:
  assumes "tab_ok t" "fs_lseek malloc fd off w (t, s) = Inr (r, t', s')"
  shows "tab_ok t'"
  using assms(2)
proof (cases rule: fs_lseek_cases)
  case (error e)
  then show ?thesis using assms(1) by simp
next
  case (same d)
  then show ?thesis by (intro tab_ok_desc [OF assms(1) same(1)]) simp_all
next
  case (alloc d p)
  then show ?thesis by (intro tab_ok_desc [OF assms(1) alloc(1)]) simp_all
qed

subsection \<open>Files do not overlap\<close>

lemma fs_mmap_tab: "\<exists>e. snd (fs_mmap n fl fd off t) = t\<lparr>fs_errno := e\<rparr>"
proof -
  have id: "t = t\<lparr>fs_errno := fs_errno t\<rparr>" by simp
  show ?thesis unfolding fs_mmap_def by (auto split: option.split intro: id)
qed

locale region_alloc =
  fixes malloc :: "nat \<Rightarrow> 's \<Rightarrow> (addr \<times> 's) res"
    and owned :: "'s \<Rightarrow> addr \<Rightarrow> bool"
    and room :: "nat \<Rightarrow> 's \<Rightarrow> bool"
  assumes malloc_fresh: "room n s \<Longrightarrow> malloc n s = Inr (p, s') \<Longrightarrow> inr p n x \<Longrightarrow> \<not> owned s x \<and> owned s' x"
    and malloc_keeps: "room n s \<Longrightarrow> malloc n s = Inr (p, s') \<Longrightarrow> owned s x \<Longrightarrow> owned s' x"
    and malloc_room: "room (n + k) s \<Longrightarrow> malloc n s = Inr (p, s') \<Longrightarrow> room k s'"
    and room_less: "room (n + k) s \<Longrightarrow> room n s"
begin

definition separate :: "fs_tab \<times> 's \<Rightarrow> bool" where
  "separate ts \<longleftrightarrow>
     (\<forall>fd x. file_byte (fst ts) fd x \<longrightarrow> owned (snd ts) x) \<and>
     (\<forall>fd fd' x. file_byte (fst ts) fd x \<and> file_byte (fst ts) fd' x \<longrightarrow> fd = fd')"

lemma open_bytes: "tab_ok t \<Longrightarrow> file_byte (snd (fs_open p t)) fd x \<Longrightarrow> file_byte t fd x"
  by (auto simp: file_byte_def fs_open_def create_fd_def Let_def update_conv' inr_def split: option.split_asm if_split_asm)

lemma open_separate: "tab_ok t \<Longrightarrow> separate (t, s) \<Longrightarrow> separate (snd (fs_open p t), s)"
  unfolding separate_def fst_conv snd_conv using open_bytes by blast

lemma lseek_separate:
  assumes sep: "separate (t, s)" and run: "fs_lseek malloc fd off w (t, s) = Inr (r, t', s')"
    and room: "room (to_size off) s"
  shows "separate (t', s')"
  using run
proof (cases rule: fs_lseek_cases)
  case (error e)
  then show ?thesis using sep by (simp add: separate_def file_byte_def)
next
  case (same d)
  then have "file_byte t' fd' x \<longleftrightarrow> file_byte t fd' x" for fd' x by (auto simp: file_byte_def update_conv')
  then show ?thesis using sep same by (simp add: separate_def)
next
  case (alloc d p)
  let ?n = "to_size off"
  have fb: "file_byte t' fd' x \<longleftrightarrow> (if fd' = fd then inr p ?n x else file_byte t fd' x)" for fd' x
    using alloc by (auto simp: file_byte_def update_conv')
  have o: "owned s' x" if "owned s x" for x using malloc_keeps [OF room alloc(3)] that by auto
  have f: "inr p ?n x \<Longrightarrow> \<not> owned s x \<and> owned s' x" for x using malloc_fresh [OF room alloc(3)] by auto
  show ?thesis
    using sep o f unfolding separate_def fst_conv snd_conv fb by (metis (full_types))
qed

lemma lseek_room:
  assumes "fs_lseek malloc fd off w (t, s) = Inr (r, t', s')" "room (to_size off + k) s"
  shows "room k s'"
  using assms(1)
proof (cases rule: fs_lseek_cases)
  case (alloc d p)
  then show ?thesis using malloc_room [OF assms(2)] by blast
qed (use assms(2) room_less [of k "to_size off"] in \<open>simp_all add: add.commute\<close>)

lemma run_separate:
  "tab_ok (fst ts) \<Longrightarrow> separate ts \<Longrightarrow> room (fs_total cs) (snd ts) \<Longrightarrow> fs_run malloc cs ts = Inr ts' \<Longrightarrow>
     tab_ok (fst ts') \<and> separate ts'"
proof (induction cs arbitrary: ts)
  case (Cons c cs)
  obtain t s where ts: "ts = (t, s)" by (cases ts)
  show ?case
  proof (cases c)
    case (Open p)
    then show ?thesis using Cons.IH [of "(snd (fs_open p t), s)"] Cons.prems ts open_separate fs_open_tab_ok by simp
  next
    case (Seek fd off w)
    obtain r t1 s1 where l: "fs_lseek malloc fd off w (t, s) = Inr (r, t1, s1)" and run: "fs_run malloc cs (t1, s1) = Inr ts'"
      using Cons.prems(4) ts Seek by (auto simp: bindR_eq_Inr)
    have rm: "room (to_size off) s" using room_less Cons.prems(3) ts Seek by simp
    have "tab_ok t1" using fs_lseek_tab_ok [OF _ l] Cons.prems(1) ts by simp
    moreover have "separate (t1, s1)" using lseek_separate [OF _ l rm] Cons.prems(2) ts by simp
    moreover have "room (fs_total cs) s1" using lseek_room [OF l] Cons.prems(3) ts Seek by simp
    ultimately show ?thesis using Cons.IH [of "(t1, s1)"] run by simp
  next
    case (Map n fl fd off)
    obtain e where e: "snd (fs_mmap n fl fd off t) = t\<lparr>fs_errno := e\<rparr>" using fs_mmap_tab by blast
    have "separate (t\<lparr>fs_errno := e\<rparr>, s)" using Cons.prems(2) ts by (simp add: separate_def file_byte_def)
    then show ?thesis using Cons.IH [of "(t\<lparr>fs_errno := e\<rparr>, s)"] Cons.prems ts Map e by simp
  qed
qed simp

lemma separate_empty: "separate (empty_tab, s)"
  by (simp add: separate_def file_byte_def empty_tab_def)

end

lemma tab_ok_empty: "tab_ok empty_tab"
  by (simp add: tab_ok_def empty_tab_def)

subsection \<open>Properties\<close>

text \<open>
  Opening files.  The descriptor of a path is the same at every open, different paths have different descriptors,
  a new descriptor is the least positive one that is free, and the three maps stay consistent.
\<close>

theorem fs_open_consistent:
  assumes "tab_ok t"
  shows "tab_ok (snd (fs_open p t)) \<and> fst (fs_open p (snd (fs_open p t))) = fst (fs_open p t) \<and>
    (\<forall>q fd. q \<noteq> p \<and> map_of (path_to_fd (snd (fs_open p t))) q = Some fd \<longrightarrow> fd \<noteq> fst (fs_open p t)) \<and>
    (map_of (path_to_fd t) p = None \<longrightarrow>
       1 \<le> fst (fs_open p t) \<and> (\<forall>k. 1 \<le> k \<and> k < fst (fs_open p t) \<longrightarrow> map_of (fd_to_path t) k \<noteq> None))"
proof -
  let ?t = "snd (fs_open p t)" and ?fd = "fst (fs_open p t)"
  have ok: "tab_ok ?t" by (rule fs_open_tab_ok [OF assms])
  have p: "map_of (path_to_fd ?t) p = Some ?fd" using fs_open_fd [OF assms] by simp
  have again: "fst (fs_open p ?t) = ?fd" using p by (simp add: fs_open_def [of p ?t])
  have inj: "q = p" if "map_of (path_to_fd ?t) q = Some ?fd" for q
    using ok p that unfolding tab_ok_def by (metis option.inject)
  have new: "1 \<le> ?fd \<and> (\<forall>k. 1 \<le> k \<and> k < ?fd \<longrightarrow> map_of (fd_to_path t) k \<noteq> None)" if n: "map_of (path_to_fd t) p = None"
  proof -
    have "?fd = free_from (fd_to_path t) 1" using n by (simp add: fs_open_def create_fd_def Let_def get_free_fd_def)
    then show ?thesis
      using free_from_fresh [of 1 "fd_to_path t"] free_from_least [of 1 _ "fd_to_path t"] by (auto simp: map_of_eq_None_iff)
  qed
  show ?thesis using ok again inj new by blast
qed

theorem fs_open_consistent_witness:
  "tab_ok (snd (fs_open ''/mnt/mss0/a'' empty_tab)) \<and> 1 \<le> fst (fs_open ''/mnt/mss0/a'' empty_tab)"
  using fs_open_consistent [OF tab_ok_empty, of "''/mnt/mss0/a''"] by (simp add: empty_tab_def)

text \<open>
  Mapping a file.  The offset only takes part in the size check: the address returned for any accepted offset is the
  start of the file.  A shared-validate mapping is refused, because its flag value contains the bit of a private one.
\<close>

theorem fs_mmap_offset_ignored:
  assumes "tab_ok t" and "map_of (fd_desc t) fd = Some d" and "fdd_region d < 2 ^ 64"
    and "fst (fs_mmap n MAP_SHARED fd off t) \<noteq> MAP_FAILED"
  shows "fst (fs_mmap n MAP_SHARED fd off t) = fdd_region d \<and>
    fs_mmap n MAP_SHARED_VALIDATE fd off t = (MAP_FAILED, t\<lparr>fs_errno := ENOTSUP\<rparr>)"
proof -
  have "fdd_va_alloc_off d = 0" using assms(1,2) unfolding tab_ok_def by blast
  then show ?thesis using assms(2-4) by (auto simp: fs_mmap_def map_flag_defs uadd64_def split: if_splits)
qed

definition demo_tab :: fs_tab where
  "demo_tab = \<lparr>path_to_fd = [(''/f'', 1)], fd_to_path = [(1, ''/f'')],
     fd_desc = [(1, \<lparr>fdd_fd = 1, fdd_region = 2 ^ 30, fdd_len = 8192, fdd_va_alloc_off = 0, fdd_seek = 8192\<rparr>)], fs_errno = 0\<rparr>"

theorem fs_mmap_offset_ignored_witness:
  "fst (fs_mmap 4096 MAP_SHARED 1 4096 demo_tab) = 2 ^ 30"
proof -
  have "tab_ok demo_tab" by (simp add: tab_ok_def demo_tab_def)
  moreover have "map_of (fd_desc demo_tab) 1 =
      Some \<lparr>fdd_fd = 1, fdd_region = 2 ^ 30, fdd_len = 8192, fdd_va_alloc_off = 0, fdd_seek = 8192\<rparr>"
    by (simp add: demo_tab_def)
  moreover have "fst (fs_mmap 4096 MAP_SHARED 1 4096 demo_tab) \<noteq> MAP_FAILED"
    by (simp add: fs_mmap_def demo_tab_def map_flag_defs to_size_def uadd64_def MAP_FAILED_def)
  ultimately show ?thesis using fs_mmap_offset_ignored [of demo_tab 1 _ 4096 4096] by fastforce
qed

end
