(* ===== verification/OsEnv.thy ===== *)
theory OsEnv
  imports PMem FdTable
begin

text \<open>
  What libstoreinst uses from outside the repository: system calls and \<^verbatim>\<open>std::filesystem\<close> on an abstract kernel state, and
  helpers of the nvsl submodule (environment variables, splitting, prefixes, number formatting, the name behind a
  descriptor).  They are the fields of the record \<open>os\<close>.  Mapping and unmapping also change the memory of the machine.  The parts of the
  C++ library the code relies on, number parsing and path concatenation, are defined.
\<close>

record 'k os =
  os_is_regular_file :: "string \<Rightarrow> 'k \<Rightarrow> bool"
  os_is_directory :: "string \<Rightarrow> 'k \<Rightarrow> bool"
  os_create_directory :: "string \<Rightarrow> 'k \<Rightarrow> 'k option"
  os_remove_all :: "string \<Rightarrow> 'k \<Rightarrow> 'k"
  os_read_file :: "string \<Rightarrow> 'k \<Rightarrow> string"
  os_file_size :: "string \<Rightarrow> 'k \<Rightarrow> nat option"
  os_open :: "string \<Rightarrow> 32 word \<Rightarrow> 'k \<Rightarrow> int \<times> 'k"
  os_close :: "int \<Rightarrow> 'k \<Rightarrow> 'k"
  os_fallocate :: "int \<Rightarrow> nat \<Rightarrow> nat \<Rightarrow> 'k \<Rightarrow> int \<times> 'k"
  os_lseek :: "int \<Rightarrow> nat \<Rightarrow> 'k \<Rightarrow> int \<times> 'k"
  os_write :: "int \<Rightarrow> string \<Rightarrow> 'k \<Rightarrow> int \<times> 'k"
  os_copy_file :: "string \<Rightarrow> string \<Rightarrow> 'k \<Rightarrow> (bool \<times> 'k) option"
  os_sendfile :: "int \<Rightarrow> int \<Rightarrow> nat \<Rightarrow> 'k \<Rightarrow> int \<times> 'k"
  os_mmap :: "addr \<Rightarrow> nat \<Rightarrow> 32 word \<Rightarrow> 32 word \<Rightarrow> int \<Rightarrow> nat \<Rightarrow> mach \<times> 'k \<Rightarrow> addr \<times> mach \<times> 'k"
  os_munmap :: "addr \<Rightarrow> nat \<Rightarrow> mach \<times> 'k \<Rightarrow> int \<times> mach \<times> 'k"
  os_madvise :: "addr \<Rightarrow> nat \<Rightarrow> nat \<Rightarrow> 'k \<Rightarrow> int"
  os_fsync :: "int \<Rightarrow> 'k \<Rightarrow> int \<times> 'k"
  os_fdatasync :: "int \<Rightarrow> 'k \<Rightarrow> int \<times> 'k"
  os_getpid :: nat
  os_pthread_self :: nat
  nv_S :: "int \<Rightarrow> string"
  nv_split :: "string \<Rightarrow> string \<Rightarrow> nat option \<Rightarrow> string list"
  nv_is_prefix :: "string \<Rightarrow> string \<Rightarrow> bool"
  nv_fd_to_fname :: "int \<Rightarrow> 'k \<Rightarrow> string"
  nv_env_val :: "string \<Rightarrow> bool"
  nv_env_str :: "string \<Rightarrow> string option"

subsection \<open>Constants\<close>

definition O_RDONLY :: "32 word" where "O_RDONLY = 0"
definition O_WRONLY :: "32 word" where "O_WRONLY = 1"
definition O_RDWR :: "32 word" where "O_RDWR = 2"
definition O_CREAT :: "32 word" where "O_CREAT = 0x40"
definition O_APPEND :: "32 word" where "O_APPEND = 0x400"
definition PROT_RW :: "32 word" where "PROT_RW = 1 OR 2"
definition MADV_HUGEPAGE :: nat where "MADV_HUGEPAGE = 14"
definition MADV_NOHUGEPAGE :: nat where "MADV_NOHUGEPAGE = 15"

definition newline :: string where
  "newline = [CHR 0x0A]"

subsection \<open>std::filesystem::path\<close>

definition path_join :: "string \<Rightarrow> string \<Rightarrow> string" where
  "path_join a b =
     (if take 1 b = ''/'' then b else if a = [] \<or> last a = CHR ''/'' then a @ b else a @ ''/'' @ b)"

subsection \<open>std::stoi and std::stoull\<close>

definition digit_of :: "char \<Rightarrow> nat" where
  "digit_of c =
     (let n = of_char c :: nat
      in if 48 \<le> n \<and> n \<le> 57 then n - 48 else if 97 \<le> n \<and> n \<le> 122 then n - 87
         else if 65 \<le> n \<and> n \<le> 90 then n - 55 else 36)"

definition digits_val :: "nat \<Rightarrow> string \<Rightarrow> nat" where
  "digits_val b ds = foldl (\<lambda>v c. v * b + digit_of c) 0 ds"

definition str_num :: "nat \<Rightarrow> string \<Rightarrow> (bool \<times> nat) option" where
  "str_num b s =
     (let s1 = dropWhile is_space_char s;
          neg = (take 1 s1 = ''-'');
          s2 = (if take 1 s1 = ''-'' \<or> take 1 s1 = ''+'' then drop 1 s1 else s1);
          s3 = (if b = 16 \<and> (take 2 s2 = ''0x'' \<or> take 2 s2 = ''0X'') \<and> 2 < length s2 \<and> digit_of (s2 ! 2) < 16 then drop 2 s2 else s2);
          ds = takeWhile (\<lambda>c. digit_of c < b) s3
      in if ds = [] then None else Some (neg, digits_val b ds))"

definition stoull :: "nat \<Rightarrow> string \<Rightarrow> nat res" where
  "stoull b s =
     (case str_num b s of
        None \<Rightarrow> Inl Uncaught
      | Some (neg, v) \<Rightarrow> if v < 2 ^ 64 then Inr (if neg then usub64 0 v else v) else Inl Uncaught)"

definition stoi :: "string \<Rightarrow> int res" where
  "stoi s =
     (case str_num 10 s of
        None \<Rightarrow> Inl Uncaught
      | Some (neg, v) \<Rightarrow> let i = (if neg then - int v else int v)
                         in if - (2 ^ 31) \<le> i \<and> i < 2 ^ 31 then Inr i else Inl Uncaught)"

text \<open>\<^verbatim>\<open>std::to_string\<close> of an unsigned number, what \<^verbatim>\<open>nvsl::S\<close> returns.\<close>

fun dec_str :: "nat \<Rightarrow> string" where
  "dec_str n = (if n < 10 then [char_of (48 + n)] else dec_str (n div 10) @ [char_of (48 + n mod 10)])"

declare dec_str.simps [simp del]

lemma digit_of_char: "n < 10 \<Longrightarrow> digit_of (char_of (48 + n)) = n"
  by (simp add: digit_of_def Let_def)

lemma dec_str_digits: "c \<in> set (dec_str n) \<Longrightarrow> \<exists>k<10. c = char_of (48 + k :: nat)"
proof (induction n rule: dec_str.induct)
  case (1 n)
  show ?case
  proof (cases "n < 10")
    case True
    then show ?thesis using "1.prems" by (auto simp: dec_str.simps [of n])
  next
    case False
    then have "c \<in> set (dec_str (n div 10)) \<or> c = char_of (48 + n mod 10)"
      using "1.prems" by (auto simp: dec_str.simps [of n])
    then show ?thesis using "1.IH" [OF False] by (metis mod_less_divisor zero_less_numeral)
  qed
qed

lemma dec_str_nonempty: "dec_str n \<noteq> []"
  by (simp add: dec_str.simps [of n])

lemma digits_val_snoc: "digits_val b (ds @ [c]) = digits_val b ds * b + digit_of c"
  by (simp add: digits_val_def)

lemma digits_val_dec_str: "digits_val 10 (dec_str n) = n"
proof (induction n rule: dec_str.induct)
  case (1 n)
  show ?case
  proof (cases "n < 10")
    case True
    then show ?thesis by (simp add: dec_str.simps [of n] digits_val_def digit_of_char)
  next
    case False
    have "n mod 10 < 10" by simp
    then show ?thesis using False "1.IH" [OF False]
      by (simp add: dec_str.simps [of n] digits_val_snoc digit_of_char)
  qed
qed

lemma digit_char_props:
  fixes k :: nat
  assumes "k < 10"
  shows "\<not> is_space_char (char_of (48 + k))" "char_of (48 + k) \<noteq> CHR ''-''" "char_of (48 + k) \<noteq> CHR ''+''"
    "char_of (48 + k) \<noteq> CHR '',''" "char_of (48 + k) \<noteq> CHR 0x0A"
proof -
  have k: "of_char (char_of (48 + k) :: char) = (48 + k :: nat)" using assms by simp
  show "\<not> is_space_char (char_of (48 + k))" using assms by (simp add: is_space_char_def Let_def k)
  have ne: "(char_of (48 + k) :: char) \<noteq> c" if "of_char c \<noteq> (48 + k :: nat)" for c using that k by auto
  show "char_of (48 + k) \<noteq> CHR ''-''" "char_of (48 + k) \<noteq> CHR ''+''" "char_of (48 + k) \<noteq> CHR '',''"
    "char_of (48 + k) \<noteq> CHR 0x0A" by (rule ne, simp)+
qed

lemma str_num_dec_str: "str_num 10 (dec_str n) = Some (False, n)"
proof -
  obtain c cs where cs: "dec_str n = c # cs" using dec_str_nonempty [of n] by (cases "dec_str n") auto
  have digs: "\<exists>k<10. d = char_of (48 + k :: nat)" if "d \<in> set (dec_str n)" for d using dec_str_digits [OF that] .
  have c: "\<not> is_space_char c" "c \<noteq> CHR ''-''" "c \<noteq> CHR ''+''"
    using digs [of c] digit_char_props cs by (metis list.set_intros(1))+
  have "takeWhile (\<lambda>c. digit_of c < 10) (dec_str n) = dec_str n"
    by (rule takeWhile_eq_all_conv [THEN iffD2]) (use digs digit_of_char in fastforce)
  then show ?thesis using c digits_val_dec_str [of n] by (simp add: str_num_def Let_def cs)
qed

lemma stoull_dec_str: "n < 2 ^ 64 \<Longrightarrow> stoull 10 (dec_str n) = Inr n"
  by (simp add: stoull_def str_num_dec_str)

lemma stoi_dec_str: "n < 2 ^ 31 \<Longrightarrow> stoi (dec_str n) = Inr (int n)"
  by (simp add: stoi_def str_num_dec_str)

end
