(* ===== verification/MapProgram.thy ===== *)
theory MapProgram
  imports BTreeRemove OsEnv
begin

text \<open>
  The map program (examples/map/map.cc and map_btree.cc): the table of operations over the B-tree, the command
  line, the bulk operations and the interactive loop. \<open>rand\<close> is the parameter \<open>rnd\<close>, the allocator of the mapped file is
  the one of BTree, and an input line is what one call of \<open>fgets\<close> leaves in the buffer. What the program prints
  and its calls of \<open>msync\<close> are the events of a trace, in order.
\<close>

section \<open>The map program\<close>

record map_ops =
  mo_insert :: "nat \<Rightarrow> nat \<Rightarrow> btree_t \<Rightarrow> btree_t run"
  mo_remove :: "nat \<Rightarrow> btree_t \<Rightarrow> btree_t run"
  mo_get :: "nat \<Rightarrow> btree_t \<Rightarrow> nat run"
  mo_foreach :: "(nat \<Rightarrow> nat \<Rightarrow> nat list \<Rightarrow> int \<times> nat list) \<Rightarrow> btree_t \<Rightarrow> nat list \<Rightarrow> nat list run"
  mo_lookup :: "nat \<Rightarrow> btree_t \<Rightarrow> bool run"

definition map_btree :: "node_alloc \<Rightarrow> (nat \<Rightarrow> nat) \<Rightarrow> map_ops" where
  "map_btree al past =
     \<lparr>mo_insert = (\<lambda>key val tree. bindX (btree_insert al key val tree) (\<lambda>(r, tree). ret tree)),
      mo_remove = (\<lambda>key tree. bindX (btree_remove past key tree) (\<lambda>(v, tree). ret tree)),
      mo_get = btree_get,
      mo_foreach = (\<lambda>cb tree acc. bindX (btree_foreach cb tree acc) (\<lambda>(r, acc). ret acc)),
      mo_lookup = (\<lambda>key tree. bindX (btree_map_lookup key tree) (\<lambda>r. ret (r \<noteq> 0)))\<rparr>"

datatype map_event = Help | Msync | Keys "nat list" | Unknown | NotImplemented | Summary nat | AllocatedAll

record mprog =
  mtree :: btree_t
  mtrace :: "map_event list"

definition emit :: "map_event \<Rightarrow> mprog \<Rightarrow> mprog" where
  "emit ev s = s\<lparr>mtrace := mtrace s @ [ev]\<rparr>"

definition do_insert :: "map_ops \<Rightarrow> nat \<Rightarrow> mprog \<Rightarrow> mprog run" where
  "do_insert ops key s = bindX (mo_insert ops key 0 (mtree s)) (\<lambda>tr. ret (s\<lparr>mtree := tr\<rparr>))"

definition do_remove :: "map_ops \<Rightarrow> nat \<Rightarrow> mprog \<Rightarrow> mprog run" where
  "do_remove ops key s = bindX (mo_remove ops key (mtree s)) (\<lambda>tr. ret (s\<lparr>mtree := tr\<rparr>))"

subsection \<open>The command line\<close>

record args_t =
  puddle_path :: string
  bulk :: bool
  bulk_op :: string
  bulk_cnt :: nat

definition parse_args :: "string list \<Rightarrow> args_t res" where
  "parse_args args_v =
     (let n = length args_v in
      guardR (\<not> ((n \<noteq> 3 \<and> n \<noteq> 6) \<or> (n = 6 \<and> args_v ! 3 \<noteq> ''bulk''))) ExitFailure
      (guardR (args_v ! 2 = ''btree'') ExitFailure
       (Inr (if n = 6
             then \<lparr>puddle_path = args_v ! 1, bulk = True, bulk_op = args_v ! 4,
                    bulk_cnt = (case stoull 10 (args_v ! 5) of Inl e \<Rightarrow> 0 | Inr v \<Rightarrow> v)\<rparr>
             else \<lparr>puddle_path = args_v ! 1, bulk = False, bulk_op = [], bulk_cnt = 0\<rparr>))))"

function split :: "string \<Rightarrow> char \<Rightarrow> string list" where
  "split txt sep =
     (case dropWhile (\<lambda>c. c \<noteq> sep) txt of
        [] \<Rightarrow> [txt]
      | c # rest \<Rightarrow> takeWhile (\<lambda>c. c \<noteq> sep) txt # split rest sep)"
  by auto
termination
proof (relation "measure (\<lambda>(txt, sep). length txt)")
  fix str :: string and sep c rest assume "dropWhile (\<lambda>c. c \<noteq> sep) str = c # rest"
  then have "length (c # rest) \<le> length str" using length_dropWhile_le [of "\<lambda>c. c \<noteq> sep" str] by simp
  then show "((rest, sep), (str, sep)) \<in> measure (\<lambda>(txt, sep). length txt)" by simp
qed simp

declare split.simps [simp del]

subsection \<open>Bulk operations\<close>

fun insert_loop :: "map_ops \<Rightarrow> (nat \<Rightarrow> nat) \<Rightarrow> (nat \<Rightarrow> bool) \<Rightarrow> nat list \<Rightarrow> mprog \<Rightarrow> mprog run" where
  "insert_loop ops rnd sync [] s = ret s"
| "insert_loop ops rnd sync (i # js) s =
     bindX (do_insert ops (rnd i) s) (\<lambda>s. insert_loop ops rnd sync js (if sync i then emit Msync s else s))"

fun remove_loop :: "map_ops \<Rightarrow> nat list \<Rightarrow> mprog \<Rightarrow> mprog run" where
  "remove_loop ops [] s = ret s"
| "remove_loop ops (k # ks) s = bindX (do_remove ops k s) (\<lambda>s. remove_loop ops ks (emit Msync s))"

fun lookup_loop :: "map_ops \<Rightarrow> nat list \<Rightarrow> mprog \<Rightarrow> mprog run" where
  "lookup_loop ops [] s = ret s"
| "lookup_loop ops (k # ks) s = bindX (mo_lookup ops k (mtree s)) (\<lambda>r. lookup_loop ops ks s)"

definition perform_bulk_ops :: "map_ops \<Rightarrow> (nat \<Rightarrow> nat) \<Rightarrow> args_t \<Rightarrow> mprog \<Rightarrow> mprog run" where
  "perform_bulk_ops ops rnd args s =
     (let idx = [0..<bulk_cnt args]; keys = map rnd idx; op = take 1 (bulk_op args)
      in bindX (if op = ''i'' then insert_loop ops rnd (\<lambda>i. True) idx s
           else if op = ''r'' then
             bindX (insert_loop ops rnd (\<lambda>i. True) idx s) (\<lambda>s. remove_loop ops keys (emit AllocatedAll s))
           else if op = ''c'' then
             bindX (insert_loop ops rnd (\<lambda>i. i mod 100 \<noteq> 0) idx s) (lookup_loop ops keys)
           else ret (emit NotImplemented s)) (\<lambda>s. ret (emit (Summary (bulk_cnt args)) s)))"

subsection \<open>The interactive loop\<close>

definition print_cb :: "nat \<Rightarrow> nat \<Rightarrow> nat list \<Rightarrow> int \<times> nat list" where
  "print_cb k v acc = (0, acc @ [k])"

definition map_command :: "map_ops \<Rightarrow> string \<Rightarrow> mprog \<Rightarrow> mprog run" where
  "map_command ops buf s =
     (if buf = [] \<or> take 1 buf = newline then ret s
      else if take 1 buf = ''i'' then
        (if length buf < 3 then ret (emit Help s)
         else bindX (Some (stoull 10 (drop 1 buf))) (\<lambda>k. bindX (do_insert ops k s) (\<lambda>s. ret (emit Msync s))))
      else if take 1 buf = ''p'' then
        bindX (mo_foreach ops print_cb (mtree s) []) (\<lambda>ks. ret (emit (Keys ks) s))
      else if take 1 buf = ''r'' then
        (if length buf < 4 then ret (emit Help s)
         else bindX (Some (stoull 10 (drop 1 buf))) (\<lambda>k. bindX (do_remove ops k s) (\<lambda>s. ret (emit Msync s))))
      else if take 1 buf = ''h'' then ret (emit Help s)
      else ret (emit Unknown s))"

fun map_loop :: "map_ops \<Rightarrow> string list \<Rightarrow> mprog \<Rightarrow> mprog run" where
  "map_loop ops [] s = ret s"
| "map_loop ops (buf # bufs) s = bindX (map_command ops buf s) (map_loop ops bufs)"

definition UINT64_MAX :: nat where
  "UINT64_MAX = 2 ^ 64 - 1"

text \<open>\<open>found\<close> is the root Boost finds in the file, \<open>fresh\<close> the one it constructs.\<close>

definition map_main ::
  "node_alloc \<Rightarrow> (nat \<Rightarrow> nat) \<Rightarrow> (nat \<Rightarrow> nat) \<Rightarrow> string list \<Rightarrow> btree_t option \<Rightarrow> btree_t option \<Rightarrow> string list \<Rightarrow> mprog run" where
  "map_main al past rnd argv found fresh input =
     bindX (Some (parse_args argv)) (\<lambda>args.
     bindX (Some (case found of
                    Some tr \<Rightarrow> Inr tr
                  | None \<Rightarrow> (case fresh of None \<Rightarrow> Inl Uncaught | Some tr \<Rightarrow> Inr tr))) (\<lambda>tr.
     let ops = map_btree al past
     in bindX (do_insert ops UINT64_MAX \<lparr>mtree = tr, mtrace = []\<rparr>) (\<lambda>s.
        if bulk args then perform_bulk_ops ops rnd args (emit Msync s) else map_loop ops input (emit Msync s))))"

subsection \<open>What a session without removals does\<close>

text \<open>The specification keeps the sorted list of the keys.\<close>

definition spec_command :: "string \<Rightarrow> nat list \<times> map_event list \<Rightarrow> (nat list \<times> map_event list) res" where
  "spec_command buf = (\<lambda>(ks, tr).
     if buf = [] \<or> take 1 buf = newline then Inr (ks, tr)
     else if take 1 buf = ''i'' then
       (if length buf < 3 then Inr (ks, tr @ [Help])
        else bindR (stoull 10 (drop 1 buf)) (\<lambda>k. Inr (insort k ks, tr @ [Msync])))
     else if take 1 buf = ''p'' then Inr (ks, tr @ [Keys ks])
     else if take 1 buf = ''h'' \<or> take 1 buf = ''r'' then Inr (ks, tr @ [Help])
     else Inr (ks, tr @ [Unknown]))"

fun spec_loop :: "string list \<Rightarrow> nat list \<times> map_event list \<Rightarrow> (nat list \<times> map_event list) res" where
  "spec_loop [] kt = Inr kt"
| "spec_loop (buf # bufs) kt = bindR (spec_command buf kt) (spec_loop bufs)"

definition plain_line :: "string \<Rightarrow> bool" where
  "plain_line buf \<longleftrightarrow> \<not> (take 1 buf = ''r'' \<and> 4 \<le> length buf) \<and> \<not> (take 1 buf = ''i'' \<and> stoull 10 (drop 1 buf) = Inr 0)"

definition mp_rep :: "mprog \<Rightarrow> nat list \<times> map_event list \<Rightarrow> bool" where
  "mp_rep s kt \<longleftrightarrow> mtrace s = snd kt \<and> (\<exists>T. tree_in (mtree s) T \<and> map ikey (contents T) = fst kt)"

text \<open>The run fails as the specification does, or ends in a state the specification describes.\<close>

definition agrees :: "mprog run \<Rightarrow> (nat list \<times> map_event list) res \<Rightarrow> bool" where
  "agrees r sp \<longleftrightarrow> (case sp of Inl f \<Rightarrow> r = Some (Inl f) | Inr kt \<Rightarrow> \<exists>s'. r = ret s' \<and> mp_rep s' kt)"

definition no_memory :: "node_alloc \<Rightarrow> mprog run \<Rightarrow> bool" where
  "no_memory al r \<longleftrightarrow> r = Some (Inl Uncaught) \<and> (\<exists>h. refused al h)"

lemma agrees_simps [simp]:
  "agrees r (Inl f) \<longleftrightarrow> r = Some (Inl f)" "agrees (ret s) (Inr kt) \<longleftrightarrow> mp_rep s kt"
  by (simp_all add: agrees_def ret_def)

lemma ins_rel_insort:
  assumes "ins_rel k it old new" and "ikey it = k" and "sorted (map ikey old)"
  shows "map ikey new = insort k (map ikey old)"
proof -
  obtain xs ys where s: "old = xs @ ys" "new = xs @ it # ys" "\<forall>x\<in>set xs. ikey x \<le> k" "\<forall>y\<in>set ys. k \<le> ikey y"
    using assms(1) unfolding ins_rel_def by blast
  have "sorted (map ikey new)" using s assms(2,3) by (auto simp: sorted_append)
  moreover have "mset (map ikey new) = mset (insort k (map ikey old))" using s assms(2) by simp
  ultimately show ?thesis using sorted_insort assms(3) by (metis properties_for_sort sorted_sort_id)
qed

lemma visit_print: "visit print_cb xs acc = (0, acc @ map ikey xs)"
  by (induction xs arbitrary: acc) (simp_all add: print_cb_def)

lemma insert_agrees:
  assumes al: "alloc_ok al" and r: "mp_rep s (ks, tr)" and k: "k \<noteq> 0"
  shows "no_memory al (do_insert (map_btree al past) k s) \<or>
    (\<exists>s'. do_insert (map_btree al past) k s = ret s' \<and> mp_rep s' (insort k ks, tr))"
proof -
  obtain T where T: "tree_in (mtree s) T" "map ikey (contents T) = ks" and t: "mtrace s = tr"
    using r by (auto simp: mp_rep_def)
  have so: "sorted (map ikey (contents T))" using btree_foreach_in_order [OF T(1), of print_cb "[]"] by blast
  from insert_tree [OF al T(1) k, of 0] show ?thesis
  proof (elim disjE exE conjE)
    assume "btree_insert al k 0 (mtree s) = Some (Inl Uncaught)" "refused al (nodes (mtree s))"
    then show ?thesis by (auto simp: no_memory_def do_insert_def map_btree_def)
  next
    fix s' T' assume i: "btree_insert al k 0 (mtree s) = ret (0, s')" "tree_in s' T'"
      "ins_rel k \<lparr>ikey = k, ival = 0\<rparr> (contents T) (contents T')"
    have "map ikey (contents T') = insort k ks" using ins_rel_insort [OF i(3) _ so] T(2) by simp
    then have "mp_rep (s\<lparr>mtree := s'\<rparr>) (insort k ks, tr)" using i(2) t by (auto simp: mp_rep_def)
    moreover have "do_insert (map_btree al past) k s = ret (s\<lparr>mtree := s'\<rparr>)" using i(1) by (simp add: do_insert_def map_btree_def)
    ultimately show ?thesis by blast
  qed
qed

lemma emit_rep [simp]: "mp_rep s (ks, tr) \<Longrightarrow> mp_rep (emit ev s) (ks, tr @ [ev])"
  by (simp add: mp_rep_def emit_def)

lemma print_agrees:
  assumes "mp_rep s (ks, tr)"
  shows "mo_foreach (map_btree al past) print_cb (mtree s) [] = ret ks"
proof -
  obtain T where T: "tree_in (mtree s) T" "map ikey (contents T) = ks" using assms by (auto simp: mp_rep_def)
  then show ?thesis using btree_foreach_in_order [OF T(1), of print_cb "[]"] by (simp add: map_btree_def visit_print)
qed

lemma command_agrees:
  assumes al: "alloc_ok al" and r: "mp_rep s (ks, tr)" and p: "plain_line buf"
  shows "no_memory al (map_command (map_btree al past) buf s) \<or> agrees (map_command (map_btree al past) buf s) (spec_command buf (ks, tr))"
proof (cases "take 1 buf = ''i'' \<and> \<not> length buf < 3")
  case True
  then have b: "buf \<noteq> []" "take 1 buf \<noteq> newline" by (auto simp: newline_def)
  show ?thesis
  proof (cases "stoull 10 (drop 1 buf)")
    case (Inl f)
    then show ?thesis using True b by (simp add: map_command_def spec_command_def)
  next
    case (Inr k)
    then have "k \<noteq> 0" using p True by (auto simp: plain_line_def)
    from insert_agrees [OF al r this, of past] show ?thesis
    proof (elim disjE exE conjE)
      assume "no_memory al (do_insert (map_btree al past) k s)"
      then show ?thesis using True b Inr by (simp add: map_command_def no_memory_def)
    next
      fix s' assume "do_insert (map_btree al past) k s = ret s'" "mp_rep s' (insort k ks, tr)"
      then show ?thesis using True b Inr by (simp add: map_command_def spec_command_def)
    qed
  qed
next
  case False
  have "agrees (map_command (map_btree al past) buf s) (spec_command buf (ks, tr))"
    using False p r print_agrees [OF r, of al past] by (auto simp: map_command_def spec_command_def plain_line_def newline_def)
  then show ?thesis ..
qed

lemma loop_agrees:
  "alloc_ok al \<Longrightarrow> mp_rep s kt \<Longrightarrow> \<forall>buf\<in>set input. plain_line buf \<Longrightarrow>
   no_memory al (map_loop (map_btree al past) input s) \<or> agrees (map_loop (map_btree al past) input s) (spec_loop input kt)"
proof (induction input arbitrary: s kt)
  case (Cons buf input)
  obtain ks tr where kt: "kt = (ks, tr)" by (cases kt)
  have "no_memory al (map_command (map_btree al past) buf s) \<or> agrees (map_command (map_btree al past) buf s) (spec_command buf kt)"
    using command_agrees Cons.prems kt by simp
  then show ?case
  proof
    assume "no_memory al (map_command (map_btree al past) buf s)"
    then show ?thesis by (simp add: no_memory_def)
  next
    assume a: "agrees (map_command (map_btree al past) buf s) (spec_command buf kt)"
    show ?thesis
    proof (cases "spec_command buf kt")
      case (Inl f)
      then show ?thesis using a by simp
    next
      case (Inr kt')
      then obtain s' where s': "map_command (map_btree al past) buf s = ret s'" "mp_rep s' kt'"
        using a by (auto simp: agrees_def)
      then show ?thesis using Cons.IH [OF Cons.prems(1) s'(2)] Cons.prems(3) Inr by simp
    qed
  qed
qed simp


lemma demo_insert_max: "\<exists>s'. btree_insert demo_alloc UINT64_MAX 0 demo_tree = ret (0, s')"
proof -
  have "find_dest_node demo_alloc 1 0 UINT64_MAX 0 demo_tree = ret (1, 1, demo_tree)"
    by (subst find_dest_node.simps)
      (simp add: split_full_def node_at_def demo_tree_def blank_node_def order_simps UINT64_MAX_def upt_rec [of 0] upt_rec [of "Suc 0"])
  moreover have "\<exists>s'. insert_item 1 1 \<lparr>ikey = UINT64_MAX, ival = 0\<rparr> demo_tree = Inr s'"
    by (simp add: insert_item_def upd_node_def node_at_def put_node_def set_item_def demo_tree_def demo_items_def
        blank_node_def order_simps uadd64_def zero_item_def)
  moreover have "is_empty demo_tree = Inr False" "root demo_tree = 1"
    by (simp_all add: is_empty_def node_at_def demo_tree_def blank_node_def)
  ultimately show ?thesis by (auto simp: btree_insert_def)
qed


lemma split_join: "concat (map (\<lambda>w. w @ [sep]) (split str sep)) = str @ [sep]"
proof (induction str sep rule: split.induct)
  case (1 str sep)
  show ?case
  proof (cases "dropWhile (\<lambda>c. c \<noteq> sep) str")
    case Nil
    then show ?thesis unfolding split.simps [of str] Nil by simp
  next
    case (Cons c rest)
    have "c = sep" using hd_dropWhile [of "\<lambda>c. c \<noteq> sep" str] Cons by simp
    then show ?thesis using 1 [OF Cons] Cons takeWhile_dropWhile_id [of "\<lambda>c. c \<noteq> sep" str]
      by (simp add: split.simps [of str])
  qed
qed

end
