(* ===== verification/BTreePmdk.thy ===== *)
theory BTreePmdk
  imports BTreeInv "HOL-Library.Countable"
begin

text \<open>
  The B-tree map on libpmemobj (examples/map_pmdk/btree_map.c), except its removal. It is the algorithm of
  BTree with a signed counter, object identifiers as values, and new nodes that are zeroed objects. The abstraction
  \<open>abst\<close> forgets these differences; the operations commute with it, and so they are correct because those of BTree are.
  libpmemobj is a parameter: the allocator \<open>zal\<close> of zeroed objects, and \<open>tx\<close>, which runs the body of an outermost
  transaction. Inside a body an allocation that fails is the fault \<open>Uncaught\<close>: it leaves the body.
\<close>

section \<open>The B-tree map on libpmemobj\<close>

type_synonym oid = "nat \<times> nat"

definition OID_NULL :: oid where
  "OID_NULL = (0, 0)"

record tree_map_node_item =
  tkey :: nat
  tvalue :: oid

record tree_map_node =
  tn :: int
  titems :: "tree_map_node_item list"
  tslots :: "nat list"

record btree_map =
  mroot :: nat
  mnodes :: "nat \<Rightarrow> tree_map_node option"

type_synonym zalloc = "(nat \<Rightarrow> bool) \<Rightarrow> nat option"

type_synonym tx_impl = "(btree_map \<Rightarrow> btree_map run) \<Rightarrow> btree_map \<Rightarrow> (bool \<times> btree_map) run"

definition empty_item :: tree_map_node_item where
  "empty_item = \<lparr>tkey = 0, tvalue = OID_NULL\<rparr>"

definition set_empty_item :: "nat \<Rightarrow> tree_map_node \<Rightarrow> tree_map_node res" where
  "set_empty_item i nd = guardR (i < 7) OutOfBounds (Inr (nd\<lparr>titems := (titems nd)[i := empty_item]\<rparr>))"

definition tnode_at :: "btree_map \<Rightarrow> nat \<Rightarrow> tree_map_node res" where
  "tnode_at s p = (case mnodes s p of None \<Rightarrow> Inl NullDeref | Some nd \<Rightarrow> Inr nd)"

definition tput :: "nat \<Rightarrow> tree_map_node \<Rightarrow> btree_map \<Rightarrow> btree_map" where
  "tput p nd s = s\<lparr>mnodes := (mnodes s)(p \<mapsto> nd)\<rparr>"

definition tupd :: "nat \<Rightarrow> (tree_map_node \<Rightarrow> tree_map_node res) \<Rightarrow> btree_map \<Rightarrow> btree_map res" where
  "tupd p f s = bindR (tnode_at s p) (\<lambda>nd. bindR (f nd) (\<lambda>nd'. Inr (tput p nd' s)))"

definition zero_tnode :: tree_map_node where
  "zero_tnode = \<lparr>tn = 0, titems = replicate 7 empty_item, tslots = replicate 8 0\<rparr>"

definition TX_ZNEW :: "zalloc \<Rightarrow> btree_map \<Rightarrow> (nat \<times> btree_map) res" where
  "TX_ZNEW zal s =
     (case zal (\<lambda>p. mnodes s p \<noteq> None) of None \<Rightarrow> Inl Uncaught | Some p \<Rightarrow> Inr (p, tput p zero_tnode s))"

subsection \<open>Clearing\<close>

partial_function (option) btree_map_clear_node :: "nat \<Rightarrow> nat \<Rightarrow> btree_map \<Rightarrow> btree_map run" where
  "btree_map_clear_node p i s =
     (if p = 0 then ret s
      else bindX (Some (tnode_at s p)) (\<lambda>nd.
        if int i < tn nd
        then guardX (i < 8) OutOfBounds
               (bindX (btree_map_clear_node (tslots nd ! i) 0 s) (\<lambda>s'. btree_map_clear_node p (Suc i) s'))
        else ret (s\<lparr>mnodes := (mnodes s)(p := None)\<rparr>)))"

definition btree_map_clear :: "tx_impl \<Rightarrow> btree_map \<Rightarrow> (int \<times> btree_map) run" where
  "btree_map_clear tx s =
     bindX (tx (\<lambda>s. bindX (btree_map_clear_node (mroot s) 0 s) (\<lambda>s'. ret (s'\<lparr>mroot := 0\<rparr>))) s) (\<lambda>(ok, s').
       ret (if ok then 0 else 1, s'))"

subsection \<open>Insertion\<close>

definition btree_map_insert_item_at :: "nat \<Rightarrow> tree_map_node_item \<Rightarrow> tree_map_node \<Rightarrow> tree_map_node res" where
  "btree_map_insert_item_at pos it nd =
     guardR (pos < 7) OutOfBounds (Inr (nd\<lparr>titems := (titems nd)[pos := it], tn := tn nd + 1\<rparr>))"

definition btree_map_insert_empty :: "zalloc \<Rightarrow> tree_map_node_item \<Rightarrow> btree_map \<Rightarrow> btree_map res" where
  "btree_map_insert_empty zal it s =
     bindR (TX_ZNEW zal s) (\<lambda>(p, s). tupd p (btree_map_insert_item_at 0 it) (s\<lparr>mroot := p\<rparr>))"

definition btree_map_insert_node ::
  "nat \<Rightarrow> nat \<Rightarrow> tree_map_node_item \<Rightarrow> nat \<Rightarrow> nat \<Rightarrow> btree_map \<Rightarrow> btree_map res" where
  "btree_map_insert_node node p it left right s =
     tupd node (\<lambda>nd.
       guardR (p < 7) OutOfBounds
         (bindR (if tkey (titems nd ! p) \<noteq> 0
                 then bindR (arr_move (p + 1) p (BTREE_ORDER - 2 - p) (titems nd)) (\<lambda>its.
                      bindR (arr_move (p + 1) p (BTREE_ORDER - 1 - p) (tslots nd)) (\<lambda>cs.
                        Inr (nd\<lparr>titems := its, tslots := cs\<rparr>)))
                 else Inr nd)
            (\<lambda>nd. btree_map_insert_item_at p it (nd\<lparr>tslots := (tslots nd)[p := left, p + 1 := right]\<rparr>)))) s"

definition tsplit_step :: "nat \<Rightarrow> tree_map_node \<times> tree_map_node \<Rightarrow> tree_map_node \<times> tree_map_node" where
  "tsplit_step i nr =
     (let nd = fst nr; rt = snd nr; c = BTREE_ORDER div 2;
          rt1 = (if i \<noteq> BTREE_ORDER - 1
                 then rt\<lparr>titems := (titems rt)[nat (tn rt) := titems nd ! i], tn := tn rt + 1\<rparr>
                 else rt);
          nd1 = (if i \<noteq> BTREE_ORDER - 1 then nd\<lparr>titems := (titems nd)[i := empty_item]\<rparr> else nd)
      in (nd1\<lparr>tslots := (tslots nd1)[i := 0]\<rparr>,
          rt1\<lparr>tslots := (tslots rt1)[i - c := tslots nd1 ! i]\<rparr>))"

definition btree_map_create_split_node ::
  "zalloc \<Rightarrow> nat \<Rightarrow> btree_map \<Rightarrow> (nat \<times> tree_map_node_item \<times> btree_map) res" where
  "btree_map_create_split_node zal node s =
     bindR (TX_ZNEW zal s) (\<lambda>(right, s).
     bindR (tnode_at s node) (\<lambda>nd.
     let c = BTREE_ORDER div 2; m = titems nd ! (c - 1) in
     bindR (set_empty_item (c - 1) nd) (\<lambda>nd.
     bindR (tnode_at s right) (\<lambda>rt.
     let (nd', rt') = fold tsplit_step [c..<BTREE_ORDER] (nd, rt)
     in Inr (right, m, tput node (nd'\<lparr>tn := int (c - 1)\<rparr>) (tput right rt' s))))))"

text \<open>\<open>tsplit_full\<close> is the head of \<open>btree_map_find_dest_node\<close> and \<open>tdest_pos\<close> its loop.\<close>

definition tsplit_full :: "zalloc \<Rightarrow> nat \<Rightarrow> nat \<Rightarrow> nat \<Rightarrow> nat \<Rightarrow> btree_map \<Rightarrow> (nat \<times> btree_map) res" where
  "tsplit_full zal n parent key p s =
     bindR (tnode_at s n) (\<lambda>nd.
     if tn nd = int (BTREE_ORDER - 1)
     then bindR (btree_map_create_split_node zal n s) (\<lambda>(right, m, s).
       if parent \<noteq> 0
       then bindR (btree_map_insert_node parent p m n right s) (\<lambda>s. Inr (if key > tkey m then right else n, s))
       else bindR (TX_ZNEW zal s) (\<lambda>(up, s).
            bindR (tupd up (\<lambda>nd. Inr (nd\<lparr>tn := 1, titems := (titems nd)[0 := m], tslots := (tslots nd)[0 := n, 1 := right]\<rparr>)) s) (\<lambda>s.
              Inr (up, s\<lparr>mroot := up\<rparr>))))
     else Inr (n, s))"

fun tdest_pos :: "tree_map_node \<Rightarrow> nat \<Rightarrow> nat list \<Rightarrow> nat option" where
  "tdest_pos nd key [] = None"
| "tdest_pos nd key (i # js) = (if tn nd = int i \<or> tkey (titems nd ! i) > key then Some i else tdest_pos nd key js)"

partial_function (option) btree_map_find_dest_node ::
  "zalloc \<Rightarrow> nat \<Rightarrow> nat \<Rightarrow> nat \<Rightarrow> nat \<Rightarrow> btree_map \<Rightarrow> (nat \<times> nat \<times> btree_map) run" where
  "btree_map_find_dest_node zal n parent key p s =
     bindX (Some (tsplit_full zal n parent key p s)) (\<lambda>ns.
     bindX (Some (tnode_at (snd ns) (fst ns))) (\<lambda>nd.
     case tdest_pos nd key [0..<BTREE_ORDER - 1] of
       Some i \<Rightarrow>
         if tslots nd ! i = 0 then ret (fst ns, i, snd ns)
         else btree_map_find_dest_node zal (tslots nd ! i) (fst ns) key i (snd ns)
     | None \<Rightarrow>
         btree_map_find_dest_node zal (tslots nd ! (BTREE_ORDER - 1)) (fst ns) key (BTREE_ORDER - 2) (snd ns)))"

definition btree_map_insert_item :: "nat \<Rightarrow> nat \<Rightarrow> tree_map_node_item \<Rightarrow> btree_map \<Rightarrow> btree_map res" where
  "btree_map_insert_item node p it s =
     tupd node (\<lambda>nd.
       guardR (p < 7) OutOfBounds
         (bindR (if tkey (titems nd ! p) \<noteq> 0
                 then bindR (arr_move (p + 1) p (BTREE_ORDER - 2 - p) (titems nd)) (\<lambda>its. Inr (nd\<lparr>titems := its\<rparr>))
                 else Inr nd)
            (btree_map_insert_item_at p it))) s"

definition btree_map_is_empty :: "btree_map \<Rightarrow> bool res" where
  "btree_map_is_empty s =
     (if mroot s = 0 then Inr True else bindR (tnode_at s (mroot s)) (\<lambda>nd. Inr (tn nd = 0)))"

definition btree_map_insert_body :: "zalloc \<Rightarrow> nat \<Rightarrow> oid \<Rightarrow> btree_map \<Rightarrow> btree_map run" where
  "btree_map_insert_body zal key value s =
     (let it = \<lparr>tkey = key, tvalue = value\<rparr> in
      bindX (Some (btree_map_is_empty s)) (\<lambda>e.
      if e then Some (btree_map_insert_empty zal it s)
      else bindX (btree_map_find_dest_node zal (mroot s) 0 key 0 s) (\<lambda>(dest, p, s).
             Some (btree_map_insert_item dest p it s))))"

definition btree_map_insert :: "tx_impl \<Rightarrow> zalloc \<Rightarrow> nat \<Rightarrow> oid \<Rightarrow> btree_map \<Rightarrow> (int \<times> btree_map) run" where
  "btree_map_insert tx zal key value s =
     bindX (tx (btree_map_insert_body zal key value) s) (\<lambda>(ok, s'). ret (0, s'))"

text \<open>\<open>obj\<close> allocates and constructs the value; a nested transaction that aborts aborts the outer one.\<close>

definition btree_map_insert_new :: "tx_impl \<Rightarrow> zalloc \<Rightarrow> nat \<Rightarrow> oid option \<Rightarrow> btree_map \<Rightarrow> (int \<times> btree_map) run" where
  "btree_map_insert_new tx zal key obj s =
     bindX (tx (\<lambda>s. case obj of None \<Rightarrow> Some (Inl Uncaught) | Some n \<Rightarrow> btree_map_insert_body zal key n s) s) (\<lambda>(ok, s').
       ret (if ok then 0 else 1, s'))"

subsection \<open>Queries\<close>

definition tnode_contains_item :: "tree_map_node \<Rightarrow> nat \<Rightarrow> nat \<Rightarrow> bool" where
  "tnode_contains_item nd i key \<longleftrightarrow> int i \<noteq> tn nd \<and> tkey (titems nd ! i) = key"

definition tnode_child_can_contain_item :: "tree_map_node \<Rightarrow> nat \<Rightarrow> nat \<Rightarrow> bool" where
  "tnode_child_can_contain_item nd i key \<longleftrightarrow> (int i = tn nd \<or> tkey (titems nd ! i) > key) \<and> tslots nd ! i \<noteq> 0"

fun tscan_node :: "tree_map_node \<Rightarrow> nat \<Rightarrow> nat list \<Rightarrow> slot" where
  "tscan_node nd key [] = Miss"
| "tscan_node nd key (i # js) =
     (if tnode_contains_item nd i key then Hit i
      else if tnode_child_can_contain_item nd i key then Down i
      else tscan_node nd key js)"

definition tnode_slot :: "tree_map_node \<Rightarrow> nat \<Rightarrow> slot res" where
  "tnode_slot nd key = guardR (tn nd < 8) OutOfBounds (Inr (tscan_node nd key [0..<nat (tn nd + 1)]))"

partial_function (option) btree_map_get_in_node :: "nat \<Rightarrow> nat \<Rightarrow> btree_map \<Rightarrow> oid run" where
  "btree_map_get_in_node node key s =
     bindX (Some (tnode_at s node)) (\<lambda>nd.
     bindX (Some (tnode_slot nd key)) (\<lambda>sl.
     case sl of
       Hit i \<Rightarrow> ret (tvalue (titems nd ! i))
     | Down i \<Rightarrow> btree_map_get_in_node (tslots nd ! i) key s
     | Miss \<Rightarrow> ret OID_NULL))"

definition btree_map_get :: "nat \<Rightarrow> btree_map \<Rightarrow> oid run" where
  "btree_map_get key s = (if mroot s = 0 then ret OID_NULL else btree_map_get_in_node (mroot s) key s)"

partial_function (option) btree_map_lookup_in_node :: "nat \<Rightarrow> nat \<Rightarrow> btree_map \<Rightarrow> int run" where
  "btree_map_lookup_in_node node key s =
     bindX (Some (tnode_at s node)) (\<lambda>nd.
     bindX (Some (tnode_slot nd key)) (\<lambda>sl.
     case sl of
       Hit i \<Rightarrow> ret 1
     | Down i \<Rightarrow> btree_map_lookup_in_node (tslots nd ! i) key s
     | Miss \<Rightarrow> ret 0))"

definition btree_map_lookup_key :: "nat \<Rightarrow> btree_map \<Rightarrow> int run" where
  "btree_map_lookup_key key s = (if mroot s = 0 then ret 0 else btree_map_lookup_in_node (mroot s) key s)"

partial_function (option) btree_map_foreach_node ::
  "(nat \<Rightarrow> oid \<Rightarrow> 'a \<Rightarrow> int \<times> 'a) \<Rightarrow> nat \<Rightarrow> nat \<Rightarrow> btree_map \<Rightarrow> 'a \<Rightarrow> (int \<times> 'a) run" where
  "btree_map_foreach_node cb p i s arg =
     (if p = 0 then ret (0, arg)
      else bindX (Some (tnode_at s p)) (\<lambda>nd.
        if int i \<le> tn nd
        then guardX (i < 8) OutOfBounds
          (bindX (btree_map_foreach_node cb (tslots nd ! i) 0 s arg) (\<lambda>ra.
           if fst ra \<noteq> 0 then ret (1, snd ra)
           else if int i \<noteq> tn nd \<and> tkey (titems nd ! i) \<noteq> 0
           then (let rb = cb (tkey (titems nd ! i)) (tvalue (titems nd ! i)) (snd ra)
                 in if fst rb \<noteq> 0 then ret (1, snd rb) else btree_map_foreach_node cb p (Suc i) s (snd rb))
           else btree_map_foreach_node cb p (Suc i) s (snd ra)))
        else ret (0, arg)))"

definition btree_map_foreach :: "(nat \<Rightarrow> oid \<Rightarrow> 'a \<Rightarrow> int \<times> 'a) \<Rightarrow> btree_map \<Rightarrow> 'a \<Rightarrow> (int \<times> 'a) run" where
  "btree_map_foreach cb s arg = btree_map_foreach_node cb (mroot s) 0 s arg"

subsection \<open>The abstraction to BTree\<close>

definition absi :: "tree_map_node_item \<Rightarrow> btree_node_item_t" where
  "absi it = \<lparr>ikey = tkey it, ival = prod_encode (tvalue it)\<rparr>"

definition absn :: "tree_map_node \<Rightarrow> btree_node_t" where
  "absn nd = \<lparr>ncount = nat (tn nd), items = map absi (titems nd), children = tslots nd\<rparr>"

definition abst :: "btree_map \<Rightarrow> btree_t" where
  "abst s = \<lparr>root = mroot s, nodes = (\<lambda>p. map_option absn (mnodes s p))\<rparr>"

definition abs_alloc :: "zalloc \<Rightarrow> node_alloc" where
  "abs_alloc zal h = map_option (\<lambda>p. (p, blank_node)) (zal (\<lambda>p. h p \<noteq> None))"

definition wfn :: "tree_map_node \<Rightarrow> bool" where
  "wfn nd \<longleftrightarrow> 0 \<le> tn nd \<and> tn nd \<le> 7 \<and> length (titems nd) = 7 \<and> length (tslots nd) = 8"

definition wf_map :: "btree_map \<Rightarrow> bool" where
  "wf_map s \<longleftrightarrow> (\<forall>p nd. mnodes s p = Some nd \<longrightarrow> wfn nd)"

abbreviation absR :: "('a \<Rightarrow> 'b) \<Rightarrow> 'a res \<Rightarrow> 'b res" where
  "absR f \<equiv> map_sum id f"

lemma absi_sel [simp]: "ikey (absi it) = tkey it" "absi empty_item = zero_item"
  by (simp_all add: absi_def empty_item_def zero_item_def OID_NULL_def prod_encode_def)

lemma encode_null [simp]: "prod_encode OID_NULL = 0"
  by (simp add: OID_NULL_def prod_encode_def)

lemma encode_null_iff: "prod_encode v = 0 \<longleftrightarrow> v = OID_NULL"
  using encode_null prod_encode_eq [of v OID_NULL] by simp

lemma absn_sel [simp]:
  "ncount (absn nd) = nat (tn nd)" "items (absn nd) = map absi (titems nd)" "children (absn nd) = tslots nd"
  by (simp_all add: absn_def)

lemma abst_sel [simp]: "root (abst s) = mroot s" "nodes (abst s) p = map_option absn (mnodes s p)"
  by (simp_all add: abst_def)

lemma absn_zero [simp]: "absn zero_tnode = blank_node"
  by (simp add: absn_def zero_tnode_def blank_node_def)

lemma wfn_zero [simp]: "wfn zero_tnode"
  by (simp add: wfn_def zero_tnode_def)

lemma node_at_abst [simp]: "node_at (abst s) p = absR absn (tnode_at s p)"
  by (simp add: node_at_def tnode_at_def split: option.split)

lemma put_node_abst [simp]: "put_node p (absn nd) (abst s) = abst (tput p nd s)"
  by (auto simp: put_node_def tput_def abst_def)

lemma root_abst [simp]: "(abst s)\<lparr>root := p\<rparr> = abst (s\<lparr>mroot := p\<rparr>)"
  by (simp add: abst_def)

lemma bindR_abs: "(\<And>x. r = Inr x \<Longrightarrow> g (F x) = absR G (f x)) \<Longrightarrow> bindR (absR F r) g = absR G (bindR r f)"
  by (cases r) simp_all

lemma guardR_abs: "(b \<Longrightarrow> x = absR F y) \<Longrightarrow> guardR b e x = absR F (guardR b e y)"
  by (cases b) simp_all

lemma upd_node_abst:
  assumes "\<And>nd. mnodes s p = Some nd \<Longrightarrow> g (absn nd) = absR absn (f nd)"
  shows "upd_node p g (abst s) = absR abst (tupd p f s)"
  using assms by (auto simp: upd_node_def tupd_def tnode_at_def bindR_def split: option.splits sum.splits)

lemma arr_copy_map: "arr_copy d i n (map f ys) (map f xs) = absR (map f) (arr_copy d i n ys xs)"
  by (auto simp: arr_copy_def guardR_def take_map drop_map)

lemma arr_move_map: "arr_move d i n (map f xs) = absR (map f) (arr_move d i n xs)"
  by (simp add: arr_move_def arr_copy_map)

lemma absR_id [simp]: "absR (\<lambda>x. x) r = r"
  by (cases r) simp_all

lemma arr_move_len: "arr_move d i n xs = Inr ys \<Longrightarrow> length ys = length xs"
  by (auto simp: arr_move_def arr_copy_def guardR_eq_Inr)

lemma wf_node: "wf_map s \<Longrightarrow> tnode_at s p = Inr nd \<Longrightarrow> wfn nd"
  by (auto simp: wf_map_def tnode_at_def split: option.splits)

lemma wf_put: "wf_map s \<Longrightarrow> wfn nd \<Longrightarrow> wf_map (tput p nd s)"
  by (simp add: wf_map_def tput_def)

lemma wf_root [simp]: "wf_map (s\<lparr>mroot := p\<rparr>) = wf_map s"
  by (simp add: wf_map_def)

lemma wf_upd:
  assumes "wf_map s" and "tupd p f s = Inr s'" and "\<And>nd nd'. mnodes s p = Some nd \<Longrightarrow> f nd = Inr nd' \<Longrightarrow> wfn nd'"
  shows "wf_map s'"
  using assms by (auto simp: tupd_def bindR_eq_Inr tnode_at_def intro!: wf_put split: option.splits)

lemma alloc_abst: "alloc_node (abs_alloc zal) (abst s) = absR (map_prod id abst) (TX_ZNEW zal s)"
proof (cases "zal (\<lambda>p. mnodes s p \<noteq> None)")
  case (Some p)
  have "put_node p blank_node (abst s) = abst (tput p zero_tnode s)" using put_node_abst [of p zero_tnode s] by simp
  then show ?thesis using Some by (simp add: alloc_node_def abs_alloc_def TX_ZNEW_def abst_def [of s])
qed (simp add: alloc_node_def abs_alloc_def TX_ZNEW_def abst_def)

lemma set_item_abst:
  assumes "wfn nd \<or> (0 \<le> tn nd \<and> tn nd < 2 ^ 63)"
  shows "set_item pos (absi it) (absn nd) = absR absn (btree_map_insert_item_at pos it nd)"
  using assms by (auto simp: set_item_def btree_map_insert_item_at_def BTREE_ORDER_def guardR_def absn_def map_update uadd64_def wfn_def nat_add_distrib)

lemma wfn_lens: "wfn nd \<Longrightarrow> length (titems nd) = 7 \<and> length (tslots nd) = 8 \<and> 0 \<le> tn nd \<and> tn nd \<le> 7"
  by (simp add: wfn_def)

lemma wf_someD: "wf_map s \<Longrightarrow> mnodes s p = Some nd \<Longrightarrow> wfn nd"
  by (simp add: wf_map_def)

lemma absn_upd:
  "absn (nd\<lparr>titems := its\<rparr>) = (absn nd)\<lparr>items := map absi its\<rparr>" "absn (nd\<lparr>tslots := cs\<rparr>) = (absn nd)\<lparr>children := cs\<rparr>"
  "absn (nd\<lparr>tn := k\<rparr>) = (absn nd)\<lparr>ncount := nat k\<rparr>"
  by (simp_all add: absn_def)

lemma move_items_abst:
  assumes "wfn nd" and "p < 7" and "\<And>its. F (map absi its) = absR absn (G its)"
  shows "(if ikey (items (absn nd) ! p) \<noteq> 0
      then bindR (arr_move (p + 1) p n (items (absn nd))) (\<lambda>its. F its) else Inr (absn nd)) =
    absR absn (if tkey (titems nd ! p) \<noteq> 0 then bindR (arr_move (p + 1) p n (titems nd)) (\<lambda>its. G its) else Inr nd)"
  using assms by (auto simp: wfn_def arr_move_map intro!: bindR_abs)

lemma insert_item_abst:
  assumes "wf_map s"
  shows "insert_item p pos (absi it) (abst s) = absR abst (btree_map_insert_item p pos it s)"
  unfolding insert_item_def btree_map_insert_item_def
proof (rule upd_node_abst, goal_cases)
  case (1 nd)
  note w = wf_someD [OF assms 1]
  have "bindR (if ikey (items (absn nd) ! pos) \<noteq> 0
        then bindR (arr_move (pos + 1) pos (BTREE_ORDER - 2 - pos) (items (absn nd))) (\<lambda>its. Inr ((absn nd)\<lparr>items := its\<rparr>))
        else Inr (absn nd)) (set_item pos (absi it)) =
      absR absn (bindR (if tkey (titems nd ! pos) \<noteq> 0
        then bindR (arr_move (pos + 1) pos (BTREE_ORDER - 2 - pos) (titems nd)) (\<lambda>its. Inr (nd\<lparr>titems := its\<rparr>))
        else Inr nd) (btree_map_insert_item_at pos it))" if p: "pos < 7"
    unfolding move_items_abst [OF w p, of "\<lambda>its. Inr ((absn nd)\<lparr>items := its\<rparr>)" "\<lambda>its. Inr (nd\<lparr>titems := its\<rparr>)", unfolded absn_upd map_sum.simps, OF refl]
    by (rule bindR_abs, rule set_item_abst) (use w in \<open>auto simp: wfn_def bindR_eq_Inr split: if_splits\<close>)
  then show ?case by (auto simp: BTREE_ORDER_def intro!: guardR_abs)
qed

lemma insert_node_abst:
  assumes "wf_map s"
  shows "insert_node p pos (absi it) l r (abst s) = absR abst (btree_map_insert_node p pos it l r s)"
  unfolding insert_node_def btree_map_insert_node_def
proof (rule upd_node_abst, goal_cases)
  case (1 nd)
  note w = wf_someD [OF assms 1]
  let ?F = "\<lambda>its. bindR (arr_move (pos + 1) pos (BTREE_ORDER - 1 - pos) (children (absn nd))) (\<lambda>cs. Inr ((absn nd)\<lparr>items := its, children := cs\<rparr>))"
  let ?G = "\<lambda>its. bindR (arr_move (pos + 1) pos (BTREE_ORDER - 1 - pos) (tslots nd)) (\<lambda>cs. Inr (nd\<lparr>titems := its, tslots := cs\<rparr>))"
  have F: "?F (map absi its) = absR absn (?G its)" for its
    using bindR_abs [of "arr_move (pos + 1) pos (BTREE_ORDER - 1 - pos) (tslots nd)" _ "\<lambda>x. x" absn "\<lambda>cs. Inr (nd\<lparr>titems := its, tslots := cs\<rparr>)"]
    by (simp add: absn_upd)
  have "bindR (if ikey (items (absn nd) ! pos) \<noteq> 0
        then bindR (arr_move (pos + 1) pos (BTREE_ORDER - 2 - pos) (items (absn nd))) ?F
        else Inr (absn nd)) (\<lambda>x. set_item pos (absi it) (x\<lparr>children := (children x)[pos := l, pos + 1 := r]\<rparr>)) =
      absR absn (bindR (if tkey (titems nd ! pos) \<noteq> 0
        then bindR (arr_move (pos + 1) pos (BTREE_ORDER - 2 - pos) (titems nd)) ?G
        else Inr nd) (\<lambda>x. btree_map_insert_item_at pos it (x\<lparr>tslots := (tslots x)[pos := l, pos + 1 := r]\<rparr>)))" if p: "pos < 7"
    unfolding move_items_abst [OF w p, of ?F ?G, OF F]
  proof (rule bindR_abs, goal_cases)
    case (1 x)
    have "wfn x \<or> 0 \<le> tn x \<and> tn x < 2 ^ 63" using 1 w by (auto simp: wfn_def bindR_eq_Inr split: if_splits)
    then have "0 \<le> tn x \<and> tn x < 2 ^ 63" by (auto simp: wfn_def)
    then show ?case using set_item_abst [of "x\<lparr>tslots := (tslots x)[pos := l, pos + 1 := r]\<rparr>" pos it] by (simp add: absn_upd)
  qed
  then show ?case by (auto simp: BTREE_ORDER_def intro!: guardR_abs)
qed

lemma split_step_abst:
  assumes "length (titems nd) = 7" "length (titems rt) = 7" "0 \<le> tn rt" "i < 8"
  shows "split_step i (absn nd, absn rt) = map_prod absn absn (tsplit_step i (nd, rt))"
  using assms by (auto simp: split_step_def tsplit_step_def Let_def BTREE_ORDER_def absn_def map_update nat_add_distrib)

definition splittable :: "tree_map_node \<times> tree_map_node \<Rightarrow> bool" where
  "splittable nr \<longleftrightarrow> length (titems (fst nr)) = 7 \<and> length (tslots (fst nr)) = 8 \<and>
     length (titems (snd nr)) = 7 \<and> length (tslots (snd nr)) = 8 \<and> 0 \<le> tn (snd nr)"

lemma tsplit_step_ok: "splittable nr \<Longrightarrow> splittable (tsplit_step i nr) \<and> tn (snd (tsplit_step i nr)) \<le> tn (snd nr) + 1"
  by (simp add: splittable_def tsplit_step_def Let_def)

lemma split_fold_abst:
  "splittable nr \<Longrightarrow> \<forall>i\<in>set js. i < 8 \<Longrightarrow>
   fold split_step js (map_prod absn absn nr) = map_prod absn absn (fold tsplit_step js nr) \<and>
   splittable (fold tsplit_step js nr) \<and> tn (snd (fold tsplit_step js nr)) \<le> tn (snd nr) + int (length js)"
proof (induction js arbitrary: nr)
  case (Cons i js)
  have "split_step i (map_prod absn absn nr) = map_prod absn absn (tsplit_step i nr)"
    using split_step_abst [of "fst nr" "snd nr" i] Cons.prems by (cases nr) (auto simp: splittable_def)
  then show ?case using Cons.IH [of "tsplit_step i nr"] Cons.prems tsplit_step_ok [of nr i] by auto
qed simp

lemma ZNEW_wf: "wf_map s \<Longrightarrow> TX_ZNEW zal s = Inr (p, s') \<Longrightarrow> wf_map s' \<and> s' = tput p zero_tnode s"
  by (auto simp: TX_ZNEW_def intro: wf_put split: option.splits)

definition split_at :: "nat \<Rightarrow> nat \<Rightarrow> btree_map \<Rightarrow> tree_map_node \<Rightarrow> nat \<times> tree_map_node_item \<times> btree_map" where
  "split_at p q s nd =
     (let nr = fold tsplit_step [4..<8] (nd\<lparr>titems := (titems nd)[3 := empty_item]\<rparr>, zero_tnode)
      in (q, titems nd ! 3, tput p ((fst nr)\<lparr>tn := 3\<rparr>) (tput q (snd nr) s)))"

lemma split_node_split:
  assumes w: "wf_map s" and a: "TX_ZNEW zal s = Inr (q, s1)"
  shows "split_node (abs_alloc zal) p (abst s) = absR (\<lambda>(q, m, s'). (q, absi m, abst s')) (absR (split_at p q s1) (tnode_at s1 p))"
    and "btree_map_create_split_node zal p s = absR (split_at p q s1) (tnode_at s1 p)"
proof -
  have s1: "wf_map s1" "s1 = tput q zero_tnode s" using ZNEW_wf [OF w a] by blast+
  have q: "tnode_at s1 q = Inr zero_tnode" using s1 by (simp add: tnode_at_def tput_def)
  have o: "[BTREE_ORDER div 2..<BTREE_ORDER] = [4..<8]" "BTREE_ORDER div 2 - Suc 0 = 3" by (simp_all add: BTREE_ORDER_def)
  have "upd_node q (\<lambda>rt. Inr (node_init rt)) (abst s1) = absR abst (tupd q Inr s1)"
    by (rule upd_node_abst) (use q in \<open>simp add: tnode_at_def node_init_def blank_node_def split: option.splits\<close>)
  moreover have "tupd q Inr s1 = Inr s1" using q s1(2) by (simp add: tupd_def tput_def)
  ultimately have i: "upd_node q (\<lambda>rt. Inr (node_init rt)) (abst s1) = Inr (abst s1)" by simp
  show "btree_map_create_split_node zal p s = absR (split_at p q s1) (tnode_at s1 p)"
    using q by (cases "tnode_at s1 p")
      (simp_all add: btree_map_create_split_node_def a o set_empty_item_def split_at_def Let_def split_beta)
  show "split_node (abs_alloc zal) p (abst s) = absR (\<lambda>(q, m, s'). (q, absi m, abst s')) (absR (split_at p q s1) (tnode_at s1 p))"
  proof (cases "tnode_at s1 p")
    case (Inl e)
    then show ?thesis by (simp add: split_node_def alloc_abst a i)
  next
    case (Inr nd)
    let ?nr = "(nd\<lparr>titems := (titems nd)[3 := empty_item]\<rparr>, zero_tnode)"
    have "wfn nd" by (rule wf_node [OF s1(1) Inr])
    then have l: "length (titems nd) = 7" and "splittable ?nr" by (simp_all add: wfn_def splittable_def zero_tnode_def)
    then have f: "fold split_step [4..<8] (absn (fst ?nr), absn (snd ?nr)) = map_prod absn absn (fold tsplit_step [4..<8] ?nr)"
      using split_fold_abst [of ?nr "[4..<8]"] by simp
    have c: "clear_item 3 (absn nd) = Inr (absn (fst ?nr))" by (simp add: clear_item_def BTREE_ORDER_def absn_upd map_update)
    have u: "(absn x)\<lparr>ncount := 3\<rparr> = absn (x\<lparr>tn := 3\<rparr>)" for x by (simp add: absn_upd)
    show ?thesis
      using Inr q c f l by (simp add: split_node_def alloc_abst a i o Let_def split_beta u split_at_def)
  qed
qed

lemma split_node_abst:
  assumes w: "wf_map s"
  shows "split_node (abs_alloc zal) p (abst s) =
    absR (\<lambda>(q, m, s'). (q, absi m, abst s')) (btree_map_create_split_node zal p s)"
proof (cases "TX_ZNEW zal s")
  case (Inl e)
  then show ?thesis by (simp add: split_node_def btree_map_create_split_node_def alloc_abst)
next
  case (Inr qs)
  then show ?thesis using split_node_split [OF w, of zal "fst qs" "snd qs" p] by simp
qed

lemma split_node_wf:
  assumes w: "wf_map s" and r: "btree_map_create_split_node zal p s = Inr (q, m, s')"
  shows "wf_map s' \<and> (\<exists>s1. TX_ZNEW zal s = Inr (q, s1)) \<and> (\<forall>x. x \<noteq> p \<and> x \<noteq> q \<longrightarrow> mnodes s' x = mnodes s x) \<and>
    (\<exists>nd. mnodes s' p = Some nd \<and> tn nd = 3) \<and> (p \<noteq> q \<longrightarrow> (\<exists>nd. mnodes s' q = Some nd \<and> tn nd \<le> 4))"
proof -
  obtain q1 s1 where a: "TX_ZNEW zal s = Inr (q1, s1)"
    using r by (auto simp: btree_map_create_split_node_def bindR_eq_Inr)
  have s1: "wf_map s1" "s1 = tput q1 zero_tnode s" using ZNEW_wf [OF w a] by blast+
  obtain nd where nd: "tnode_at s1 p = Inr nd" "split_at p q1 s1 nd = (q, m, s')"
    using r unfolding split_node_split(2) [OF w a] by (cases "tnode_at s1 p") auto
  let ?nr = "(nd\<lparr>titems := (titems nd)[3 := empty_item]\<rparr>, zero_tnode)"
  let ?f = "fold tsplit_step [4..<8] ?nr"
  have "wfn nd" by (rule wf_node [OF s1(1) nd(1)])
  then have "splittable ?nr" by (simp add: wfn_def splittable_def zero_tnode_def)
  then have f: "splittable ?f" "tn (snd ?f) \<le> 4"
    using split_fold_abst [of ?nr "[4..<8]"] by (simp_all add: zero_tnode_def)
  have e: "q = q1" "s' = tput p ((fst ?f)\<lparr>tn := 3\<rparr>) (tput q (snd ?f) s1)"
    using nd(2) by (auto simp: split_at_def Let_def)
  have "wf_map s'" unfolding e(2) by (intro wf_put s1(1)) (use f in \<open>simp_all add: splittable_def wfn_def\<close>)
  then show ?thesis using e a s1(2) f(2) by (auto simp: tput_def)
qed

lemma insert_node_wf:
  assumes w: "wf_map s" and r: "btree_map_insert_node p pos it l q s = Inr s'" and n: "\<And>nd. mnodes s p = Some nd \<Longrightarrow> tn nd < 7"
  shows "wf_map s'"
  by (rule wf_upd [OF w r [unfolded btree_map_insert_node_def]])
    (use wf_someD [OF w] n in \<open>fastforce simp: wfn_def guardR_eq_Inr bindR_eq_Inr btree_map_insert_item_at_def dest!: arr_move_len split: if_splits\<close>)

lemma ZNEW_fresh: "TX_ZNEW zal s = Inr (q, s1) \<Longrightarrow> zal (\<lambda>p. mnodes s p \<noteq> None) = Some q"
  by (auto simp: TX_ZNEW_def split: option.splits)

definition zal_ok :: "zalloc \<Rightarrow> bool" where
  "zal_ok zal \<longleftrightarrow> (\<forall>used p. zal used = Some p \<longrightarrow> p \<noteq> 0 \<and> \<not> used p)"

lemma abs_alloc_ok: "zal_ok zal \<Longrightarrow> alloc_ok (abs_alloc zal)"
  unfolding alloc_ok_def abs_alloc_def zal_ok_def by (fastforce simp: blank_node_def order_simps)

text \<open>A full node is split below a parent that is not full.\<close>

definition roomy :: "btree_map \<Rightarrow> nat \<Rightarrow> bool" where
  "roomy s p \<longleftrightarrow> (\<forall>nd. mnodes s p = Some nd \<longrightarrow> tn nd < 7)"

lemma split_full_abst:
  assumes w: "wf_map s"
  shows "split_full (abs_alloc zal) p parent key pos (abst s) = absR (map_prod id abst) (tsplit_full zal p parent key pos s)"
proof (cases "tnode_at s p")
  case (Inl e)
  then show ?thesis by (simp add: split_full_def tsplit_full_def)
next
  case (Inr nd)
  have n: "nat (tn nd) = 7 \<longleftrightarrow> tn nd = 7" using wf_node [OF w Inr] by (auto simp: wfn_def)
  show ?thesis
  proof (cases "tn nd = 7")
    case False
    then show ?thesis using Inr n by (simp add: split_full_def tsplit_full_def BTREE_ORDER_def)
  next
    case True
    show ?thesis
    proof (cases "btree_map_create_split_node zal p s")
      case (Inl e)
      then show ?thesis using Inr n True by (simp add: split_full_def tsplit_full_def BTREE_ORDER_def split_node_abst [OF w])
    next
      case r: (Inr qms)
      obtain q m s1 where q: "qms = (q, m, s1)" by (cases qms)
      have w1: "wf_map s1" using split_node_wf [OF w r [unfolded q]] by blast
      have up: "upd_node u (\<lambda>nd. Inr (nd\<lparr>ncount := Suc 0, items := (items nd)[0 := absi m], children := (children nd)[0 := p, Suc 0 := q]\<rparr>)) (abst s2) =
          absR abst (tupd u (\<lambda>nd. Inr (nd\<lparr>tn := 1, titems := (titems nd)[0 := m], tslots := (tslots nd)[0 := p, Suc 0 := q]\<rparr>)) s2)" for u s2
        by (rule upd_node_abst) (simp add: absn_def map_update)
      show ?thesis
      proof (cases "parent = 0")
        case True
        then show ?thesis
          using Inr n \<open>tn nd = 7\<close> r q
          by (cases "TX_ZNEW zal s1")
            (auto simp: split_full_def tsplit_full_def BTREE_ORDER_def split_node_abst [OF w] alloc_abst up bindR_def split: sum.splits)
      next
        case False
        then show ?thesis
          using Inr n \<open>tn nd = 7\<close> r q
          by (cases "btree_map_insert_node parent pos m p q s1")
            (simp_all add: split_full_def tsplit_full_def BTREE_ORDER_def split_node_abst [OF w] insert_node_abst [OF w1])
      qed
    qed
  qed
qed

lemma insert_node_counts:
  assumes r: "btree_map_insert_node p pos it l q s = Inr s'" and x: "mnodes s' x = Some nd'"
  shows "\<exists>nd. mnodes s x = Some nd \<and> tn nd' \<le> tn nd + 1"
  using r x
  by (auto simp: btree_map_insert_node_def tupd_def tnode_at_def tput_def bindR_eq_Inr guardR_eq_Inr btree_map_insert_item_at_def
      split: option.splits if_splits)

lemma tsplit_full_wf:
  assumes w: "wf_map s" and o: "parent \<noteq> 0 \<longrightarrow> roomy s parent" and r: "tsplit_full zal p parent key pos s = Inr (n, s')"
  shows "wf_map s' \<and> roomy s' n"
proof -
  obtain nd where nd: "tnode_at s p = Inr nd" using r by (auto simp: tsplit_full_def bindR_eq_Inr)
  have wn: "wfn nd" by (rule wf_node [OF w nd])
  show ?thesis
  proof (cases "tn nd = 7")
    case False
    then have "n = p" "s' = s" using r nd by (auto simp: tsplit_full_def BTREE_ORDER_def)
    then show ?thesis using w nd wn False by (auto simp: roomy_def tnode_at_def wfn_def split: option.splits)
  next
    case True
    obtain q m s1 where q: "btree_map_create_split_node zal p s = Inr (q, m, s1)"
      using r nd True by (auto simp: tsplit_full_def BTREE_ORDER_def bindR_eq_Inr)
    note sp = split_node_wf [OF w q]
    have w1: "wf_map s1" using sp by blast
    have small: "tn x \<le> 4" if "mnodes s1 a = Some x" "a = p \<or> a = q" for a x
      using sp that by (cases "p = q") auto
    show ?thesis
    proof (cases "parent = 0")
      case True
      then have "\<exists>u s2. TX_ZNEW zal s1 = Inr (u, s2) \<and> n = u \<and> s' = tput u
          (zero_tnode\<lparr>tn := 1, titems := (titems zero_tnode)[0 := m], tslots := (tslots zero_tnode)[0 := p, 1 := q]\<rparr>) s2\<lparr>mroot := u\<rparr>"
        using r nd \<open>tn nd = 7\<close> q
        by (auto simp: tsplit_full_def BTREE_ORDER_def bindR_eq_Inr tupd_def tnode_at_def TX_ZNEW_def tput_def split: option.splits)
      then obtain u s2 where u: "TX_ZNEW zal s1 = Inr (u, s2)" "n = u" "s' = tput u
          (zero_tnode\<lparr>tn := 1, titems := (titems zero_tnode)[0 := m], tslots := (tslots zero_tnode)[0 := p, 1 := q]\<rparr>) s2\<lparr>mroot := u\<rparr>"
        by blast
      have "wf_map s2" using ZNEW_wf [OF w1 u(1)] by blast
      then have "wf_map s'" unfolding u(3) by (simp, intro wf_put) (auto simp: wfn_def zero_tnode_def)
      then show ?thesis using u(2,3) by (simp add: roomy_def tput_def)
    next
      case False
      then have i: "btree_map_insert_node parent pos m p q s1 = Inr s'" and n: "n = p \<or> n = q"
        using r nd \<open>tn nd = 7\<close> q by (auto simp: tsplit_full_def BTREE_ORDER_def bindR_eq_Inr)
      have "tn x < 7" if x: "mnodes s1 parent = Some x" for x
      proof (cases "parent = p \<or> parent = q")
        case True
        then show ?thesis using small [OF x] by auto
      next
        case False
        then have "mnodes s parent = Some x" using sp x by simp
        then show ?thesis using o \<open>parent \<noteq> 0\<close> by (simp add: roomy_def)
      qed
      then have "wf_map s'" by (rule insert_node_wf [OF w1 i])
      moreover have "tn x < 7" if x: "mnodes s' n = Some x" for x
      proof -
        obtain y where y: "mnodes s1 n = Some y" "tn x \<le> tn y + 1" using insert_node_counts [OF i x] by blast
        show ?thesis using small [OF y(1) n] y(2) by simp
      qed
      ultimately show ?thesis by (simp add: roomy_def)
    qed
  qed
qed

lemma dest_pos_abst: "wfn nd \<Longrightarrow> \<forall>i\<in>set js. i < 7 \<Longrightarrow> dest_pos (absn nd) key js = tdest_pos nd key js"
  by (induction js) (auto simp: wfn_def)

text \<open>The runs of the recursive operations match the runs of BTree that return.\<close>

definition dest_sim :: "(nat \<times> nat \<times> btree_map) run \<Rightarrow> (nat \<times> nat \<times> btree_t) res \<Rightarrow> bool" where
  "dest_sim c r \<longleftrightarrow> (\<exists>r'. c = Some r' \<and> r = absR (\<lambda>(d, i, s'). (d, i, abst s')) r' \<and> (\<forall>d i s'. r' = Inr (d, i, s') \<longrightarrow> wf_map s' \<and> roomy s' d))"

lemma find_dest_abst:
  assumes "find_dest_node (abs_alloc zal) p parent key pos (abst s) = Some r" and "wf_map s" and "parent \<noteq> 0 \<longrightarrow> roomy s parent"
  shows "dest_sim (btree_map_find_dest_node zal p parent key pos s) r"
proof -
  have "\<forall>s. al = abs_alloc zal \<longrightarrow> a = abst s \<longrightarrow> wf_map s \<longrightarrow> (parent \<noteq> 0 \<longrightarrow> roomy s parent) \<longrightarrow>
      dest_sim (btree_map_find_dest_node zal p parent key pos s) r"
    if "find_dest_node al p parent key pos a = Some r" for al p parent key pos a r
    using that
  proof (rule find_dest_node.raw_induct [where P = "\<lambda>al p parent key pos a r. \<forall>s. al = abs_alloc zal \<longrightarrow> a = abst s \<longrightarrow>
      wf_map s \<longrightarrow> (parent \<noteq> 0 \<longrightarrow> roomy s parent) \<longrightarrow> dest_sim (btree_map_find_dest_node zal p parent key pos s) r", rotated], intro allI impI)
    fix f al p parent key pos a r s
    assume IH: "\<And>al p parent key pos a r. f al p parent key pos a = Some r \<Longrightarrow> \<forall>s. al = abs_alloc zal \<longrightarrow> a = abst s \<longrightarrow>
        wf_map s \<longrightarrow> (parent \<noteq> 0 \<longrightarrow> roomy s parent) \<longrightarrow> dest_sim (btree_map_find_dest_node zal p parent key pos s) r"
      and y: "bindX (Some (split_full al p parent key pos a)) (\<lambda>ps.
       bindX (Some (node_at (snd ps) (fst ps))) (\<lambda>nd.
       case dest_pos nd key [0..<BTREE_ORDER - 1] of
         Some i \<Rightarrow>
           if children nd ! i = 0 then ret (fst ps, i, snd ps)
           else f al (children nd ! i) (fst ps) key i (snd ps)
       | None \<Rightarrow> f al (children nd ! (BTREE_ORDER - 1)) (fst ps) key (BTREE_ORDER - 2) (snd ps))) = Some r"
      and al: "al = abs_alloc zal" "a = abst s" and w: "wf_map s" "parent \<noteq> 0 \<longrightarrow> roomy s parent"
    note e = btree_map_find_dest_node.simps [of zal p parent key pos s]
    show "dest_sim (btree_map_find_dest_node zal p parent key pos s) r"
    proof (cases "tsplit_full zal p parent key pos s")
      case (Inl er)
      then show ?thesis using y al by (simp add: e split_full_abst [OF w(1)] dest_sim_def)
    next
      case (Inr ns)
      obtain n s1 where ns: "ns = (n, s1)" by (cases ns)
      note w1 = tsplit_full_wf [OF w Inr [unfolded ns]]
      show ?thesis
      proof (cases "tnode_at s1 n")
        case (Inl er)
        then show ?thesis using y al Inr ns by (simp add: e split_full_abst [OF w(1)] dest_sim_def \<open>tsplit_full zal p parent key pos s = Inr ns\<close>)
      next
        case nd: (Inr nd)
        have wn: "wfn nd" using wf_node w1 nd by blast
        have d: "dest_pos (absn nd) key [0..<BTREE_ORDER - 1] = tdest_pos nd key [0..<BTREE_ORDER - 1]"
          by (rule dest_pos_abst [OF wn]) (simp add: BTREE_ORDER_def)
        have go: "dest_sim (btree_map_find_dest_node zal q n key j s1) r" if "f al q n key j (abst s1) = Some r" for q j
          using IH [OF that] al(1) w1 by blast
        show ?thesis
          using y al Inr ns nd d w1 go
          by (auto simp: e split_full_abst [OF w(1)] dest_sim_def ret_def split: option.splits if_splits)
      qed
    qed
  qed
  then show ?thesis using assms by blast
qed

subsection \<open>Insertion is correct\<close>

text \<open>
  What libpmemobj documents of a transaction: when the body is left by a failed allocation it is aborted and what it changed is as
  before, otherwise it is committed.
\<close>

definition tx_ok :: "tx_impl \<Rightarrow> bool" where
  "tx_ok tx \<longleftrightarrow> (\<forall>body s. tx body s =
     (case body s of
        None \<Rightarrow> None
      | Some (Inl f) \<Rightarrow> if f = Uncaught then ret (False, s) else Some (Inl f)
      | Some (Inr s') \<Rightarrow> ret (True, s')))"

lemma insert_item_wf:
  assumes w: "wf_map s" and o: "roomy s p" and r: "btree_map_insert_item p pos it s = Inr s'"
  shows "wf_map s'"
  by (rule wf_upd [OF w r [unfolded btree_map_insert_item_def]])
    (use wf_someD [OF w] o in \<open>fastforce simp: roomy_def wfn_def guardR_eq_Inr bindR_eq_Inr btree_map_insert_item_at_def dest!: arr_move_len split: if_splits\<close>)

lemma insert_empty_abst:
  assumes w: "wf_map s"
  shows "insert_node_empty_tree (abs_alloc zal) (absi it) (abst (s\<lparr>mroot := 0\<rparr>)) = absR abst (btree_map_insert_empty zal it s) \<and>
    (\<forall>s'. btree_map_insert_empty zal it s = Inr s' \<longrightarrow> wf_map s')"
proof (cases "TX_ZNEW zal s")
  case (Inl e)
  then have "TX_ZNEW zal (s\<lparr>mroot := 0\<rparr>) = Inl e" by (auto simp: TX_ZNEW_def split: option.splits)
  then show ?thesis using Inl by (simp add: insert_node_empty_tree_def btree_map_insert_empty_def alloc_abst del: root_abst)
next
  case (Inr ps)
  obtain p s1 where ps: "ps = (p, s1)" by (cases ps)
  have s1: "wf_map s1" "s1 = tput p zero_tnode s" using ZNEW_wf [OF w Inr [unfolded ps]] by blast+
  have z: "TX_ZNEW zal (s\<lparr>mroot := 0\<rparr>) = Inr (p, s1\<lparr>mroot := 0\<rparr>)"
    using Inr ps s1(2) by (auto simp: TX_ZNEW_def tput_def split: option.splits)
  have u: "upd_node p (\<lambda>nd. set_item 0 (absi it) (node_init nd)) (abst (s1\<lparr>mroot := p\<rparr>)) =
      absR abst (tupd p (btree_map_insert_item_at 0 it) (s1\<lparr>mroot := p\<rparr>))"
  proof (rule upd_node_abst)
    fix nd assume "mnodes (s1\<lparr>mroot := p\<rparr>) p = Some nd"
    then have "nd = zero_tnode" using s1(2) by (simp add: tput_def)
    then show "set_item 0 (absi it) (node_init (absn nd)) = absR absn (btree_map_insert_item_at 0 it nd)"
      using set_item_abst [of zero_tnode 0 it] by (simp add: node_init_def blank_node_def)
  qed
  have "wf_map s'" if "tupd p (btree_map_insert_item_at 0 it) (s1\<lparr>mroot := p\<rparr>) = Inr s'" for s'
    by (rule wf_upd [OF _ that]) (use s1 in \<open>auto simp: tput_def btree_map_insert_item_at_def guardR_eq_Inr wfn_def zero_tnode_def\<close>)
  then show ?thesis
    using Inr ps z u by (simp add: insert_node_empty_tree_def btree_map_insert_empty_def alloc_abst del: root_abst abst_sel(1)) (simp add: abst_def)
qed

lemma is_empty_tree:
  assumes "tree_in s T"
  shows "\<exists>e. is_empty s = Inr e \<and> (e \<longrightarrow> contents T = [])"
proof (cases T)
  case None
  then show ?thesis using assms by (auto simp: tree_in_def is_empty_def)
next
  case (Some t)
  obtain n where t: "root s = baddr t" "rep (nodes s) t" "ok_addrs t" "bt_shape (if n = 0 then 0 else 1) n t"
    using assms unfolding Some tree_in_def option.case by blast
  have r0: "root s \<noteq> 0" using t(1,3) addrs_neq_Nil(2) [of t] unfolding ok_addrs_def by metis
  obtain nd where nd: "nodes s (root s) = Some nd" "node_rep nd (bitems t) (map baddr (bkids t))"
    using rep_node [OF t(2)] t(1) by auto
  have "is_empty s = Inr (bitems t = [])" using r0 nd(1) node_rep_count [OF nd(2)] by (simp add: is_empty_def node_at_def)
  moreover have "contents T = []" if "bitems t = []" using inorder_empty [OF t(4) that] Some by (metis contents.simps(2) inorder.simps weave.simps list.map(1))
  ultimately show ?thesis by blast
qed

lemma is_empty_abst: "wf_map s \<Longrightarrow> is_empty (abst s) = btree_map_is_empty s"
  using wf_someD [of s "mroot s"] by (auto simp: is_empty_def btree_map_is_empty_def tnode_at_def wfn_def split: option.splits)

lemma refused_zal: "refused (abs_alloc zal) h \<Longrightarrow> \<exists>used. zal used = None"
  by (auto simp: refused_def abs_alloc_def)

definition body_sim :: "zalloc \<Rightarrow> nat \<Rightarrow> tree_map_node_item \<Rightarrow> bt option \<Rightarrow> btree_map run \<Rightarrow> bool" where
  "body_sim zal key it T r \<longleftrightarrow> r = Some (Inl Uncaught) \<and> (\<exists>used. zal used = None) \<or>
     (\<exists>s' T'. r = ret s' \<and> wf_map s' \<and> tree_in (abst s') T' \<and> ins_rel key (absi it) (contents T) (contents T'))"

lemma insert_empty_ok:
  assumes al: "alloc_ok (abs_alloc zal)" and w: "wf_map s" and T: "contents T = []" and it: "tkey it = key" "key \<noteq> 0"
  shows "body_sim zal key it T (Some (btree_map_insert_empty zal it s))"
proof -
  let ?s = "abst (s\<lparr>mroot := 0\<rparr>)"
  have r0: "root ?s = 0 \<or> tree_in ?s (Some (Bt (root ?s) [] []))" by simp
  have k: "ikey (absi it) \<noteq> 0" using it by simp
  note sim = insert_empty_abst [OF w, of zal it]
  from empty_insert [OF al k r0] show ?thesis
  proof (elim disjE exE conjE)
    assume a: "insert_node_empty_tree (abs_alloc zal) (absi it) ?s = Inl Uncaught" "refused (abs_alloc zal) (nodes ?s)"
    then have "btree_map_insert_empty zal it s = Inl Uncaught" using sim by (cases "btree_map_insert_empty zal it s") auto
    then show ?thesis using refused_zal [OF a(2)] by (simp add: body_sim_def)
  next
    fix s' p assume a: "insert_node_empty_tree (abs_alloc zal) (absi it) ?s = Inr s'" "tree_in s' (Some (Bt p [absi it] []))"
    then obtain s1 where s1: "btree_map_insert_empty zal it s = Inr s1" "s' = abst s1" "wf_map s1"
      using sim by (cases "btree_map_insert_empty zal it s") auto
    have "ins_rel key (absi it) (contents T) (contents (Some (Bt p [absi it] [])))" using ins_rel_Nil T by simp
    then show ?thesis using s1 a(2) unfolding body_sim_def ret_def by blast
  qed
qed

lemma insert_found_ok:
  assumes zal: "alloc_ok (abs_alloc zal)" and w: "wf_map s" and T: "tree_in (abst s) T" and it: "tkey it = key" "key \<noteq> 0"
    and e: "is_empty (abst s) = Inr False"
  shows "body_sim zal key it T (bindX (btree_map_find_dest_node zal (mroot s) 0 key 0 s) (\<lambda>(dest, p, s). Some (btree_map_insert_item dest p it s)))"
proof -
  have ai: "absi it = \<lparr>ikey = key, ival = prod_encode (tvalue it)\<rparr>" using it by (simp add: absi_def)
  let ?fd = "find_dest_node (abs_alloc zal) (mroot s) 0 key 0 (abst s)"
  have ab: "btree_insert (abs_alloc zal) key (prod_encode (tvalue it)) (abst s) =
      bindX ?fd (\<lambda>(dest, pos, s). bindX (Some (insert_item dest pos (absi it) s)) (\<lambda>s. ret (0, s)))"
    using e ai by (simp add: btree_insert_def)
  note ins = insert_tree [OF zal T it(2), of "prod_encode (tvalue it)", folded ai, unfolded ab]
  obtain r where r: "?fd = Some r" using ins by (cases ?fd) (auto simp: bindX_def ret_def)
  have "dest_sim (btree_map_find_dest_node zal (mroot s) 0 key 0 s) r" by (rule find_dest_abst [OF r w]) simp
  then obtain r' where r': "btree_map_find_dest_node zal (mroot s) 0 key 0 s = Some r'" "r = absR (\<lambda>(d, i, s'). (d, i, abst s')) r'"
      "\<And>d i s'. r' = Inr (d, i, s') \<Longrightarrow> wf_map s' \<and> roomy s' d"
    unfolding dest_sim_def by blast
  show ?thesis
  proof (cases r')
    case (Inl f)
    then have "f = Uncaught" "refused (abs_alloc zal) (nodes (abst s))" using ins r r'(2) by (auto simp: ret_def)
    then show ?thesis using r'(1) Inl refused_zal by (auto simp: body_sim_def)
  next
    case (Inr dis)
    obtain d i s1 where dis: "r' = Inr (d, i, s1)" using Inr by (cases dis) auto
    have w1: "wf_map s1" "roomy s1 d" using r'(3) dis by blast+
    note ii = insert_item_abst [OF w1(1), of d i it]
    show ?thesis
    proof (cases "btree_map_insert_item d i it s1")
      case (Inl f)
      then have "f = Uncaught" "refused (abs_alloc zal) (nodes (abst s))" using ins r r'(2) dis ii by (auto simp: ret_def)
      then show ?thesis using r'(1) dis Inl refused_zal by (auto simp: body_sim_def)
    next
      case (Inr s2)
      then obtain T' where "tree_in (abst s2) T'" "ins_rel key (absi it) (contents T) (contents T')"
        using ins r r'(2) dis ii by (auto simp: ret_def)
      then show ?thesis using r'(1) dis Inr insert_item_wf [OF w1 Inr] by (auto simp: body_sim_def ret_def)
    qed
  qed
qed

lemma insert_body_ok:
  assumes zal: "zal_ok zal" and w: "wf_map s" and T: "tree_in (abst s) T" and key: "key \<noteq> 0"
  shows "body_sim zal key \<lparr>tkey = key, tvalue = v\<rparr> T (btree_map_insert_body zal key v s)"
proof -
  note al = abs_alloc_ok [OF zal]
  obtain e where e: "is_empty (abst s) = Inr e" "e \<longrightarrow> contents T = []" using is_empty_tree [OF T] by blast
  have e': "btree_map_is_empty s = Inr e" using e(1) is_empty_abst [OF w] by simp
  show ?thesis
    using e e' insert_empty_ok [OF al w, of T "\<lparr>tkey = key, tvalue = v\<rparr>" key] insert_found_ok [OF al w T, of "\<lparr>tkey = key, tvalue = v\<rparr>" key] key
    by (cases e) (simp_all add: btree_map_insert_body_def)
qed


subsection \<open>Queries are correct\<close>

lemma scan_tests_abst:
  assumes "wfn nd" and "int i \<le> tn nd"
  shows "node_contains_item (absn nd) i key = tnode_contains_item nd i key"
    and "node_child_can_contain_item (absn nd) i key = tnode_child_can_contain_item nd i key"
proof -
  have n: "i = nat (tn nd) \<longleftrightarrow> int i = tn nd" using assms(1) nat_eq_iff2 [of i "tn nd"] by (auto simp: wfn_def)
  have k: "ikey (map absi (titems nd) ! i) = tkey (titems nd ! i)" if "int i \<noteq> tn nd"
    using assms that by (simp add: wfn_def)
  show "node_contains_item (absn nd) i key = tnode_contains_item nd i key"
    "node_child_can_contain_item (absn nd) i key = tnode_child_can_contain_item nd i key"
    using n k by (auto simp: node_contains_item_def tnode_contains_item_def node_child_can_contain_item_def tnode_child_can_contain_item_def)
qed

lemma scan_abst: "wfn nd \<Longrightarrow> \<forall>i\<in>set js. int i \<le> tn nd \<Longrightarrow> scan_node (absn nd) key js = tscan_node nd key js"
  by (induction js) (simp_all add: scan_tests_abst)

lemma node_slot_abst:
  assumes w: "wfn nd"
  shows "node_slot (absn nd) key = tnode_slot nd key"
proof -
  have n: "Suc (nat (tn nd)) = nat (tn nd + 1)" "nat (tn nd) < 8" "tn nd < 8" using w by (auto simp: wfn_def)
  have "scan_node (absn nd) key [0..<nat (tn nd + 1)] = tscan_node nd key [0..<nat (tn nd + 1)]"
    by (rule scan_abst [OF w]) auto
  then show ?thesis using n by (simp add: node_slot_def tnode_slot_def BTREE_ORDER_def del: upt_Suc)
qed

lemma scan_hit: "tscan_node nd key js = Hit i \<Longrightarrow> i \<in> set js \<and> int i \<noteq> tn nd"
  by (induction js) (auto simp: tnode_contains_item_def split: if_splits)

lemma slot_hit_bound: "wfn nd \<Longrightarrow> tnode_slot nd key = Inr (Hit i) \<Longrightarrow> i < 7"
  using scan_hit [of nd key "[0..<nat (tn nd + 1)]" i] by (auto simp: tnode_slot_def guardR_eq_Inr wfn_def)

lemma get_in_node_abst:
  assumes w: "wf_map s" and "get_in_node p key (abst s) = Some r"
  shows "\<exists>r'. btree_map_get_in_node p key s = Some r' \<and> r = absR prod_encode r'"
proof -
  have "a = abst s \<longrightarrow> (\<exists>r'. btree_map_get_in_node p key s = Some r' \<and> r = absR prod_encode r')"
    if "get_in_node p key a = Some r" for p key a r
    using that
  proof (rule get_in_node.raw_induct [where P = "\<lambda>p key a r. a = abst s \<longrightarrow>
      (\<exists>r'. btree_map_get_in_node p key s = Some r' \<and> r = absR prod_encode r')", rotated], intro impI)
    fix f p key a r
    assume IH: "\<And>p key a r. f p key a = Some r \<Longrightarrow> a = abst s \<longrightarrow> (\<exists>r'. btree_map_get_in_node p key s = Some r' \<and> r = absR prod_encode r')"
      and y: "bindX (Some (node_at a p)) (\<lambda>nd. bindX (Some (node_slot nd key)) (\<lambda>sl.
        case sl of Hit i \<Rightarrow> ret (ival (items nd ! i)) | Down i \<Rightarrow> f (children nd ! i) key a | Miss \<Rightarrow> ret 0)) = Some r" and a: "a = abst s"
    note e = btree_map_get_in_node.simps [of p key s]
    show "\<exists>r'. btree_map_get_in_node p key s = Some r' \<and> r = absR prod_encode r'"
    proof (cases "tnode_at s p")
      case (Inl er)
      then show ?thesis using y a by (auto simp: e)
    next
      case (Inr nd)
      have wn: "wfn nd" by (rule wf_node [OF w Inr])
      show ?thesis
        using y a Inr IH slot_hit_bound [OF wn, of key] wn
        by (cases "tnode_slot nd key")
          (auto simp: e node_slot_abst [OF wn] ret_def absi_def wfn_def split: slot.splits)
    qed
  qed
  then show ?thesis using assms(2) by blast
qed

lemma lookup_in_node_abst:
  assumes w: "wf_map s" and "lookup_in_node p key (abst s) = Some r"
  shows "btree_map_lookup_in_node p key s = Some r"
proof -
  have "a = abst s \<longrightarrow> btree_map_lookup_in_node p key s = Some r" if "lookup_in_node p key a = Some r" for p key a r
    using that
  proof (rule lookup_in_node.raw_induct [where P = "\<lambda>p key a r. a = abst s \<longrightarrow> btree_map_lookup_in_node p key s = Some r", rotated], intro impI)
    fix f p key a r
    assume IH: "\<And>p key a r. f p key a = Some r \<Longrightarrow> a = abst s \<longrightarrow> btree_map_lookup_in_node p key s = Some r"
      and y: "bindX (Some (node_at a p)) (\<lambda>nd. bindX (Some (node_slot nd key)) (\<lambda>sl.
        case sl of Hit i \<Rightarrow> ret 1 | Down i \<Rightarrow> f (children nd ! i) key a | Miss \<Rightarrow> ret 0)) = Some r" and a: "a = abst s"
    note e = btree_map_lookup_in_node.simps [of p key s]
    show "btree_map_lookup_in_node p key s = Some r"
    proof (cases "tnode_at s p")
      case (Inl er)
      then show ?thesis using y a by (auto simp: e)
    next
      case (Inr nd)
      have wn: "wfn nd" by (rule wf_node [OF w Inr])
      show ?thesis
        using y a Inr IH by (cases "tnode_slot nd key") (auto simp: e node_slot_abst [OF wn] split: slot.splits)
    qed
  qed
  then show ?thesis using assms(2) by blast
qed

text \<open>On a well-formed map of libpmemobj, \<open>btree_map_lookup\<close> answers membership and \<open>btree_map_get\<close> returns the object of an item with
  the key, or the null object when there is none.\<close>

theorem btree_map_queries:
  assumes w: "wf_map s" and T: "tree_in (abst s) T"
  shows "btree_map_lookup_key key s = ret (if key \<in> ikey ` set (contents T) then 1 else 0) \<and>
    (\<exists>v. btree_map_get key s = ret v \<and>
       (if key \<in> ikey ` set (contents T) then absi \<lparr>tkey = key, tvalue = v\<rparr> \<in> set (contents T) else v = OID_NULL))"
proof -
  let ?k = "key \<in> ikey ` set (contents T)"
  have lk: "btree_map_lookup_key key s = ret n" if "btree_map_lookup key (abst s) = ret n" for n
    using that lookup_in_node_abst [OF w] by (auto simp: btree_map_lookup_def btree_map_lookup_key_def ret_def split: if_splits)
  have gt: "\<exists>v. btree_map_get key s = ret v \<and> u = prod_encode v" if u: "btree_get key (abst s) = ret u" for u
  proof (cases "mroot s = 0")
    case True
    then show ?thesis using u by (simp add: btree_get_def btree_map_get_def ret_def)
  next
    case False
    then have "get_in_node (mroot s) key (abst s) = Some (Inr u)" using u by (simp add: btree_get_def ret_def)
    from get_in_node_abst [OF w this] obtain r' where r': "btree_map_get_in_node (mroot s) key s = Some r'" "Inr u = absR prod_encode r'"
      by blast
    then show ?thesis using False by (cases r') (auto simp: btree_map_get_def ret_def)
  qed
  from queries_find [OF T, of key] show ?thesis
  proof (elim disjE bexE conjE)
    fix x assume x: "x \<in> set (contents T)" "ikey x = key" "btree_get key (abst s) = ret (ival x)" "btree_map_lookup key (abst s) = ret 1"
    obtain v where v: "btree_map_get key s = ret v" "ival x = prod_encode v" using gt [OF x(3)] by blast
    have "absi \<lparr>tkey = key, tvalue = v\<rparr> = x" using x(2) v(2) by (simp add: absi_def)
    then have "absi \<lparr>tkey = key, tvalue = v\<rparr> \<in> set (contents T)" using x(1) by simp
    moreover have k: ?k using x(1,2) by blast
    ultimately show ?thesis unfolding if_P [OF k] using v(1) lk [OF x(4)] by blast
  next
    assume n: "\<not> ?k" "btree_get key (abst s) = ret 0" "btree_map_lookup key (abst s) = ret 0"
    obtain v where "btree_map_get key s = ret v" "0 = prod_encode v" using gt [OF n(2)] by blast
    moreover from this have "v = OID_NULL" using encode_null_iff [of v] by simp
    ultimately show ?thesis unfolding if_not_P [OF n(1)] using lk [OF n(3)] by blast
  qed
qed

lemma foreach_node_abst:
  assumes w: "wf_map s" and "foreach_node (\<lambda>k v. cb k (prod_decode v)) p i (abst s) arg = Some r"
  shows "btree_map_foreach_node cb p i s arg = Some r"
proof -
  let ?cb = "\<lambda>k v. cb k (prod_decode v)"
  have "c = ?cb \<longrightarrow> a = abst s \<longrightarrow> btree_map_foreach_node cb p i s arg = Some r" if "foreach_node c p i a arg = Some r" for c p i a arg r
    using that
  proof (rule foreach_node.raw_induct [where P = "\<lambda>c p i a arg r. c = ?cb \<longrightarrow> a = abst s \<longrightarrow> btree_map_foreach_node cb p i s arg = Some r", rotated],
      intro impI)
    fix f c p i a arg r
    assume IH: "\<And>c p i a arg r. f c p i a arg = Some r \<Longrightarrow> c = ?cb \<longrightarrow> a = abst s \<longrightarrow> btree_map_foreach_node cb p i s arg = Some r"
      and y: "(if p = 0 then ret (0, arg)
      else bindX (Some (node_at a p)) (\<lambda>nd.
        if i \<le> ncount nd
        then guardX (i < BTREE_ORDER) OutOfBounds
          (bindX (f c (children nd ! i) 0 a arg) (\<lambda>ra.
           if fst ra \<noteq> 0 then ret (1, snd ra)
           else if i \<noteq> ncount nd \<and> ikey (items nd ! i) \<noteq> 0
           then (let rb = c (ikey (items nd ! i)) (ival (items nd ! i)) (snd ra)
                 in if fst rb \<noteq> 0 then ret (1, snd rb) else f c p (Suc i) a (snd rb))
           else f c p (Suc i) a (snd ra)))
        else ret (0, arg))) = Some r" and ca: "c = ?cb" "a = abst s"
    note e = btree_map_foreach_node.simps [of cb p i s arg]
    show "btree_map_foreach_node cb p i s arg = Some r"
    proof (cases "p = 0 \<or> (\<exists>er. tnode_at s p = Inl er)")
      case True
      then show ?thesis using y ca by (auto simp: e)
    next
      case False
      then obtain nd where nd: "p \<noteq> 0" "tnode_at s p = Inr nd" by (cases "tnode_at s p") auto
      have wn: "wfn nd" by (rule wf_node [OF w nd(2)])
      have b: "i \<le> nat (tn nd) \<longleftrightarrow> int i \<le> tn nd" "i = nat (tn nd) \<longleftrightarrow> int i = tn nd"
        using wn nat_eq_iff2 [of i "tn nd"] by (auto simp: wfn_def le_nat_iff)
      have it: "ikey (map absi (titems nd) ! i) = tkey (titems nd ! i)" "prod_decode (ival (map absi (titems nd) ! i)) = tvalue (titems nd ! i)"
        if "int i \<le> tn nd" "int i \<noteq> tn nd" using wn that by (simp_all add: wfn_def absi_def)
      have g: "f c q j a x = Some z \<Longrightarrow> btree_map_foreach_node cb q j s x = Some z" for q j x z using IH ca by blast
      show ?thesis
      proof (cases "int i \<le> tn nd \<and> i < 8")
        case False
        then show ?thesis using y nd b ca by (auto simp: e BTREE_ORDER_def)
      next
        case True
        then show ?thesis
          using y nd b ca it g unfolding e
          by (cases "f c (tslots nd ! i) 0 a arg") (auto simp: BTREE_ORDER_def bindX_def Let_def split: if_splits sum.splits)
      qed
    qed
  qed
  then show ?thesis using assms(2) by blast
qed

text \<open>The iteration calls back on the items in the order of the keys.\<close>

lemma btree_map_foreach_visits:
  assumes w: "wf_map s" and T: "tree_in (abst s) T"
  shows "btree_map_foreach cb s arg = ret (visit (\<lambda>k v. cb k (prod_decode v)) (contents T) arg)"
proof -
  have "btree_foreach (\<lambda>k v. cb k (prod_decode v)) (abst s) arg = ret (visit (\<lambda>k v. cb k (prod_decode v)) (contents T) arg)"
    using btree_foreach_in_order [OF T, of "\<lambda>k v. cb k (prod_decode v)" arg] by blast
  then show ?thesis using foreach_node_abst [OF w] by (simp add: btree_foreach_def btree_map_foreach_def ret_def)
qed

text \<open>The insertion of a new object tells an aborted transaction from a committed one.\<close>

lemma btree_map_insert_new_result:
  assumes tx: "tx_ok tx" and zal: "zal_ok zal" and w: "wf_map s" and T: "tree_in (abst s) T" and key: "key \<noteq> 0"
  shows "btree_map_insert_new tx zal key obj s = ret (1, s) \<or>
    (\<exists>s' T' n. obj = Some n \<and> btree_map_insert_new tx zal key obj s = ret (0, s') \<and> wf_map s' \<and> tree_in (abst s') T' \<and>
       ins_rel key (absi \<lparr>tkey = key, tvalue = n\<rparr>) (contents T) (contents T'))"
proof (cases obj)
  case None
  then show ?thesis using tx by (simp add: btree_map_insert_new_def tx_ok_def)
next
  case (Some n)
  from insert_body_ok [OF zal w T key, of n] show ?thesis
    unfolding body_sim_def
  proof (elim disjE exE conjE)
    fix used assume "btree_map_insert_body zal key n s = Some (Inl Uncaught)"
    then show ?thesis using tx Some by (simp add: btree_map_insert_new_def tx_ok_def)
  next
    fix s' T' assume a: "btree_map_insert_body zal key n s = ret s'" "wf_map s'" "tree_in (abst s') T'"
      "ins_rel key (absi \<lparr>tkey = key, tvalue = n\<rparr>) (contents T) (contents T')"
    have "btree_map_insert_new tx zal key obj s = ret (0, s')" using tx a(1) Some by (simp add: btree_map_insert_new_def tx_ok_def ret_def)
    then show ?thesis using a(2-4) Some by blast
  qed
qed

subsection \<open>A map with one item\<close>

definition plain_tx :: tx_impl where
  "plain_tx body s =
     (case body s of
        None \<Rightarrow> None
      | Some (Inl f) \<Rightarrow> if f = Uncaught then ret (False, s) else Some (Inl f)
      | Some (Inr s') \<Rightarrow> ret (True, s'))"

definition first_free :: zalloc where
  "first_free used = List.find (\<lambda>p. \<not> used p) [1..<33]"

lemma first_free_ok: "zal_ok first_free"
  unfolding zal_ok_def first_free_def by (auto simp: find_Some_iff simp del: upt_Suc)

definition demo_node :: tree_map_node where
  "demo_node = zero_tnode\<lparr>tn := 1, titems := (titems zero_tnode)[0 := \<lparr>tkey = 5, tvalue = (1, 50)\<rparr>]\<rparr>"

lemma demo_node_simps:
  "tn demo_node = 1" "tslots demo_node = replicate 8 0" "titems demo_node = \<lparr>tkey = 5, tvalue = (1, 50)\<rparr> # replicate 6 empty_item"
  by (simp_all add: demo_node_def zero_tnode_def numeral_eq_Suc)

definition demo_map :: btree_map where
  "demo_map = \<lparr>mroot = 1, mnodes = [1 \<mapsto> demo_node]\<rparr>"

lemma demo_map_wf: "wf_map demo_map"
  by (simp add: wf_map_def demo_map_def demo_node_def wfn_def zero_tnode_def)

lemma demo_map_tree: "tree_in (abst demo_map) (Some (Bt 1 [absi \<lparr>tkey = 5, tvalue = (1, 50)\<rparr>] []))"
  by (rule tree_in_SomeI [where lo = 1 and n = 0])
    (simp_all add: demo_map_def demo_node_simps node_rep_def order_simps ok_addrs_def ok_keys_def)

theorem btree_map_queries_witness:
  "btree_map_lookup_key 5 demo_map = ret 1 \<and> btree_map_lookup_key 6 demo_map = ret 0 \<and> btree_map_get 6 demo_map = ret OID_NULL"
  using btree_map_queries [OF demo_map_wf demo_map_tree, of 5] btree_map_queries [OF demo_map_wf demo_map_tree, of 6] by auto

lemma demo_map_grows: "\<exists>s'. btree_map_insert plain_tx first_free 7 (1, 70) demo_map = ret (0, s') \<and> s' \<noteq> demo_map"
proof -
  have f: "btree_map_find_dest_node first_free 1 0 7 0 demo_map = ret (1, 1, demo_map)"
    by (subst btree_map_find_dest_node.simps)
      (simp add: tsplit_full_def tnode_at_def demo_map_def demo_node_simps order_simps upt_rec [of 0] upt_rec [of "Suc 0"])
  let ?nd = "demo_node\<lparr>titems := (titems demo_node)[1 := \<lparr>tkey = 7, tvalue = (1, 70)\<rparr>], tn := 2\<rparr>"
  have "tkey (titems demo_node ! Suc 0) = 0" by (simp add: demo_node_simps empty_item_def)
  then have nd: "btree_map_insert_item 1 1 \<lparr>tkey = 7, tvalue = (1, 70)\<rparr> demo_map = Inr (tput 1 ?nd demo_map)"
    by (simp add: btree_map_insert_item_def tupd_def tnode_at_def demo_map_def btree_map_insert_item_at_def demo_node_simps(1))
  have e: "btree_map_is_empty demo_map = Inr False" "mroot demo_map = 1"
    by (simp_all add: btree_map_is_empty_def tnode_at_def demo_map_def demo_node_simps)
  have "btree_map_insert plain_tx first_free 7 (1, 70) demo_map = ret (0, tput 1 ?nd demo_map)"
    using f nd e by (simp add: btree_map_insert_def plain_tx_def btree_map_insert_body_def ret_def)
  moreover have "tn (the (mnodes (tput 1 ?nd demo_map) 1)) \<noteq> tn (the (mnodes demo_map 1))"
    by (simp add: tput_def demo_map_def demo_node_simps(1))
  ultimately show ?thesis by (metis (no_types))
qed


end
