(* ===== verification/BTreeTypes.thy ===== *)
theory BTreeTypes
  imports BTreeInv
begin

text \<open>
  Every node keeps its type: seven items and eight child pointers. The operations of BTree keep it on every store of
  nodes, also on one that holds no tree, where they may stop with a fault or not return. \<open>okR Q\<close> and \<open>okX Q\<close> say that a
  call that returns a value returns one with \<open>Q\<close>; their rules follow the shape of the definitions.
\<close>

section \<open>The type of a node\<close>

definition typed_node :: "btree_node_t \<Rightarrow> bool" where
  "typed_node nd \<longleftrightarrow> length (items nd) = BTREE_ORDER - 1 \<and> length (children nd) = BTREE_ORDER"

definition typed :: "btree_t \<Rightarrow> bool" where
  "typed s \<longleftrightarrow> (\<forall>p nd. nodes s p = Some nd \<longrightarrow> typed_node nd)"

definition typed_alloc :: "node_alloc \<Rightarrow> bool" where
  "typed_alloc al \<longleftrightarrow> (\<forall>h p nd. al h = Some (p, nd) \<longrightarrow> typed_node nd)"

subsection \<open>Rules\<close>

definition okR :: "('a \<Rightarrow> bool) \<Rightarrow> 'a res \<Rightarrow> bool" where
  "okR Q r \<longleftrightarrow> (\<forall>x. r = Inr x \<longrightarrow> Q x)"

definition okX :: "('a \<Rightarrow> bool) \<Rightarrow> 'a run \<Rightarrow> bool" where
  "okX Q r \<longleftrightarrow> (\<forall>x. r = Some (Inr x) \<longrightarrow> Q x)"

named_theorems ok_rules

lemma okR_ret [ok_rules]: "Q x \<Longrightarrow> okR Q (Inr x)"
  by (simp add: okR_def)

lemma okR_bind [ok_rules]: "okR (\<lambda>x. okR Q (k x)) r \<Longrightarrow> okR Q (bindR r k)"
  by (auto simp: okR_def bindR_eq_Inr)

lemma okR_guard [ok_rules]: "(b \<Longrightarrow> okR Q r) \<Longrightarrow> okR Q (guardR b e r)"
  by (simp add: okR_def guardR_eq_Inr)

lemma okX_ret [ok_rules]: "Q x \<Longrightarrow> okX Q (ret x)"
  by (simp add: okX_def ret_def)

lemma okX_bind [ok_rules]: "okX (\<lambda>x. okX Q (k x)) r \<Longrightarrow> okX Q (bindX r k)"
  by (auto simp: okX_def bindX_eq_ret)

lemma okX_guard [ok_rules]: "(b \<Longrightarrow> okX Q r) \<Longrightarrow> okX Q (guardX b e r)"
  by (simp add: okX_def guardX_eq_ret)

lemma okX_some [ok_rules]: "okR Q r \<Longrightarrow> okX Q (Some r)"
  by (simp add: okX_def okR_def)

lemma ok_if [ok_rules]:
  "(b \<Longrightarrow> okR Q x) \<Longrightarrow> (\<not> b \<Longrightarrow> okR Q y) \<Longrightarrow> okR Q (if b then x else y)"
  "(b \<Longrightarrow> okX R u) \<Longrightarrow> (\<not> b \<Longrightarrow> okX R v) \<Longrightarrow> okX R (if b then u else v)"
  by simp_all

lemma okR_mono: "okR Q r \<Longrightarrow> (\<And>x. Q x \<Longrightarrow> R x) \<Longrightarrow> okR R r"
  by (auto simp: okR_def)

lemma okX_mono: "okX Q r \<Longrightarrow> (\<And>x. Q x \<Longrightarrow> R x) \<Longrightarrow> okX R r"
  by (auto simp: okX_def)

subsection \<open>Nodes\<close>

lemma okR_at [ok_rules]: "typed s \<Longrightarrow> (\<And>nd. typed_node nd \<Longrightarrow> Q nd) \<Longrightarrow> okR Q (node_at s p)"
  by (auto simp: okR_def typed_def node_at_def split: option.splits)

lemma okR_copy [ok_rules]: "(\<And>zs. length zs = length xs \<Longrightarrow> Q zs) \<Longrightarrow> okR Q (arr_copy d sr n ys xs)"
  by (auto simp: okR_def arr_copy_def guardR_eq_Inr)

lemma okR_move [ok_rules]: "(\<And>zs. length zs = length xs \<Longrightarrow> Q zs) \<Longrightarrow> okR Q (arr_move d sr n xs)"
  unfolding arr_move_def by (rule okR_copy)

lemma typed_put: "typed s \<Longrightarrow> typed_node nd \<Longrightarrow> typed (put_node p nd s)"
  by (auto simp: typed_def put_node_def)

lemma typed_dealloc [simp]: "typed s \<Longrightarrow> typed (dealloc_node p s)"
  by (auto simp: typed_def dealloc_node_def)

lemma typed_root [simp]: "typed (s\<lparr>root := p\<rparr>) = typed s"
  by (simp add: typed_def)

lemma okR_upd [ok_rules]:
  assumes "typed s" and "\<And>nd. typed_node nd \<Longrightarrow> okR typed_node (f nd)" and "\<And>s'. typed s' \<Longrightarrow> Q s'"
  shows "okR Q (upd_node p f s)"
  unfolding upd_node_def
proof (rule okR_bind, rule okR_at [OF assms(1)], rule okR_bind)
  fix nd assume "typed_node nd"
  from assms(2) [OF this] show "okR (\<lambda>nd'. okR Q (Inr (put_node p nd' s))) (f nd)"
    by (rule okR_mono) (intro ok_rules assms(3) typed_put assms(1))
qed

lemma okR_set_item [ok_rules]: "typed_node nd \<Longrightarrow> (\<And>nd'. typed_node nd' \<Longrightarrow> Q nd') \<Longrightarrow> okR Q (set_item pos it nd)"
  unfolding set_item_def by (auto intro!: ok_rules simp: typed_node_def)

lemma okR_clear_item [ok_rules]: "typed_node nd \<Longrightarrow> (\<And>nd'. typed_node nd' \<Longrightarrow> Q nd') \<Longrightarrow> okR Q (clear_item pos nd)"
  unfolding clear_item_def by (auto intro!: ok_rules simp: typed_node_def)

lemma okR_alloc [ok_rules]:
  "typed_alloc al \<Longrightarrow> typed s \<Longrightarrow> (\<And>p s'. typed s' \<Longrightarrow> Q (p, s')) \<Longrightarrow> okR Q (alloc_node al s)"
  by (cases "al (nodes s)") (auto simp: okR_def alloc_node_def typed_alloc_def typed_put)

subsection \<open>Insertion\<close>

lemma okR_insert_item [ok_rules]: "typed s \<Longrightarrow> (\<And>s'. typed s' \<Longrightarrow> Q s') \<Longrightarrow> okR Q (insert_item p pos it s)"
  unfolding insert_item_def by (intro ok_rules; simp add: typed_node_def)

lemma okR_insert_node [ok_rules]: "typed s \<Longrightarrow> (\<And>s'. typed s' \<Longrightarrow> Q s') \<Longrightarrow> okR Q (insert_node p pos it l r s)"
  unfolding insert_node_def by (intro ok_rules; simp add: typed_node_def)

lemma typed_split_fold: "typed_node (fst nr) \<Longrightarrow> typed_node (snd nr) \<Longrightarrow>
    typed_node (fst (fold split_step is nr)) \<and> typed_node (snd (fold split_step is nr))"
proof (induction "is" arbitrary: nr)
  case (Cons i "is")
  then have "typed_node (fst (split_step i nr))" "typed_node (snd (split_step i nr))"
    by (simp_all add: split_step_def Let_def typed_node_def)
  then show ?case using Cons.IH by simp
qed simp

lemma okR_split_node [ok_rules]:
  assumes "typed_alloc al" and "typed s" and Q: "\<And>q it s'. typed s' \<Longrightarrow> Q (q, it, s')"
  shows "okR Q (split_node al p s)"
proof -
  have "Q (q, it, put_node p ((fst (fold split_step js (nd, rt)))\<lparr>ncount := k\<rparr>) (put_node q (snd (fold split_step js (nd, rt))) s))"
    if "typed s" "typed_node nd" "typed_node rt" for q it js nd rt k s
    using typed_split_fold [of "(nd, rt)" js] that by (intro Q typed_put) (auto simp: typed_node_def)
  then show ?thesis
    using assms(1,2) unfolding split_node_def Let_def split_beta
    by (intro ok_rules) (auto simp: node_init_def typed_node_def split_beta intro!: ok_rules)
qed

lemma okR_split_full [ok_rules]:
  assumes "typed_alloc al" and "typed s" and "\<And>q s'. typed s' \<Longrightarrow> Q (q, s')"
  shows "okR Q (split_full al p par key pos s)"
  using assms unfolding split_full_def split_beta
  by (intro ok_rules; simp add: typed_node_def)

lemma okX_find_dest [ok_rules]:
  assumes "typed_alloc al" and "typed s" and "\<And>q i s'. typed s' \<Longrightarrow> Q (q, i, s')"
  shows "okX Q (find_dest_node al p par key pos s)"
proof -
  have "typed_alloc al \<longrightarrow> typed s \<longrightarrow> (\<forall>r. y = Inr r \<longrightarrow> typed (snd (snd r)))"
    if "find_dest_node al p par key pos s = Some y" for al p par key pos s y
    using that
  proof (rule find_dest_node.raw_induct
      [where P = "\<lambda>al p par key pos s y. typed_alloc al \<longrightarrow> typed s \<longrightarrow> (\<forall>r. y = Inr r \<longrightarrow> typed (snd (snd r)))", rotated])
    fix f al p par key pos s y
    assume IH: "\<And>al p par key pos s y. f al p par key pos s = Some y \<Longrightarrow>
        typed_alloc al \<longrightarrow> typed s \<longrightarrow> (\<forall>r. y = Inr r \<longrightarrow> typed (snd (snd r)))"
      and y: "bindX (Some (split_full al p par key pos s)) (\<lambda>ps.
       bindX (Some (node_at (snd ps) (fst ps))) (\<lambda>nd.
       case dest_pos nd key [0..<BTREE_ORDER - 1] of
         Some i \<Rightarrow>
           if children nd ! i = 0 then ret (fst ps, i, snd ps)
           else f al (children nd ! i) (fst ps) key i (snd ps)
       | None \<Rightarrow> f al (children nd ! (BTREE_ORDER - 1)) (fst ps) key (BTREE_ORDER - 2) (snd ps))) = Some y"
    have f: "okX (\<lambda>r. typed (snd (snd r))) (f al p par key pos s)" if "typed_alloc al" "typed s" for al p par key pos s
      using IH [of al p par key pos s] that unfolding okX_def by blast
    have "okX (\<lambda>r. typed (snd (snd r))) (Some y)" if "typed_alloc al" "typed s"
      unfolding y [symmetric] using that by (intro ok_rules) (auto split: option.split intro!: ok_rules f)
    then show "typed_alloc al \<longrightarrow> typed s \<longrightarrow> (\<forall>r. y = Inr r \<longrightarrow> typed (snd (snd r)))" by (simp add: okX_def)
  qed
  from this [of al p par key pos s] show ?thesis using assms unfolding okX_def by fastforce
qed

subsection \<open>Removal\<close>

lemma okR_rotate_right [ok_rules]: "typed s \<Longrightarrow> (\<And>s'. typed s' \<Longrightarrow> Q s') \<Longrightarrow> okR Q (rotate_right r p par pos s)"
  unfolding rotate_right_def Let_def by (intro ok_rules; simp add: typed_node_def)

lemma okR_rotate_left [ok_rules]: "typed s \<Longrightarrow> (\<And>s'. typed s' \<Longrightarrow> Q s') \<Longrightarrow> okR Q (rotate_left l p par pos s)"
  unfolding rotate_left_def by (intro ok_rules; simp add: typed_node_def)

lemma okR_merge [ok_rules]: "typed s \<Longrightarrow> (\<And>s'. typed s' \<Longrightarrow> Q s') \<Longrightarrow> okR Q (merge_nodes past r p par pos s)"
  unfolding merge_nodes_def Let_def by (intro ok_rules; simp add: typed_node_def)

lemma okR_rebalance [ok_rules]: "typed s \<Longrightarrow> (\<And>s'. typed s' \<Longrightarrow> Q s') \<Longrightarrow> okR Q (rebalance past p par pos s)"
  unfolding rebalance_def Let_def by (intro ok_rules; simp)

lemma okX_leftmost [ok_rules]: "(\<And>l. Q l) \<Longrightarrow> okX Q (get_leftmost_leaf p par s)"
  by (simp add: okX_def)

lemma okX_remove_from_node [ok_rules]:
  assumes "typed s" and "\<And>s'. typed s' \<Longrightarrow> Q s'"
  shows "okX Q (remove_from_node past p par pos s)"
proof -
  have "typed s \<longrightarrow> (\<forall>s'. y = Inr s' \<longrightarrow> typed s')" if "remove_from_node past p par pos s = Some y" for past p par pos s y
    using that
  proof (rule remove_from_node.raw_induct [where P = "\<lambda>past p par pos s y. typed s \<longrightarrow> (\<forall>s'. y = Inr s' \<longrightarrow> typed s')", rotated])
    fix f past p par pos s y
    assume IH: "\<And>past p par pos s y. f past p par pos s = Some y \<Longrightarrow> typed s \<longrightarrow> (\<forall>s'. y = Inr s' \<longrightarrow> typed s')"
      and y: "bindX (Some (node_at s p)) (\<lambda>nd.
     guardX (pos < BTREE_ORDER - 1) OutOfBounds
     (if children nd ! 0 = 0
      then Some (upd_node p (\<lambda>nd.
             bindR (if ncount nd = 1 \<or> pos = BTREE_ORDER - 2 then clear_item pos nd
                    else bindR (arr_copy pos (pos + 1) (usub64 (ncount nd) pos) (items_past nd) (items nd))
                           (\<lambda>its. Inr (nd\<lparr>items := its\<rparr>)))
               (\<lambda>nd. Inr (nd\<lparr>ncount := usub64 (ncount nd) 1\<rparr>))) s)
      else bindX (get_leftmost_leaf (children nd ! (pos + 1)) p s) (\<lambda>l.
           bindX (Some (node_at s (fst l))) (\<lambda>ln.
           bindX (Some (upd_node p (\<lambda>nd. Inr (nd\<lparr>items := (items nd)[pos := items ln ! 0]\<rparr>)) s)) (\<lambda>s.
           bindX (f past (fst l) (snd l) 0 s) (\<lambda>s.
           bindX (Some (node_at s (fst l))) (\<lambda>ln.
             if ncount ln < BTREE_MIN
             then Some (rebalance past (fst l) (snd l) (if snd l = p then pos + 1 else 0) s)
             else ret s))))))) = Some y"
    have f: "okX Q (f past p par pos s)" if "typed s" "\<And>s'. typed s' \<Longrightarrow> Q s'" for past p par pos s Q
      using IH [of past p par pos s] that unfolding okX_def by blast
    have "okX typed (Some y)" if "typed s"
      unfolding y [symmetric] using that by (intro ok_rules f; simp add: typed_node_def)
    then show "typed s \<longrightarrow> (\<forall>s'. y = Inr s' \<longrightarrow> typed s')" by (simp add: okX_def)
  qed
  from this [of past p par pos s] show ?thesis using assms unfolding okX_def by blast
qed

lemma okX_remove_item [ok_rules]:
  assumes "typed s" and "\<And>v s'. typed s' \<Longrightarrow> Q (v, s')"
  shows "okX Q (remove_item past p par key pos s)"
proof -
  have "typed s \<longrightarrow> (\<forall>r. y = Inr r \<longrightarrow> typed (snd r))" if "remove_item past p par key pos s = Some y" for past p par key pos s y
    using that
  proof (rule remove_item.raw_induct [where P = "\<lambda>past p par key pos s y. typed s \<longrightarrow> (\<forall>r. y = Inr r \<longrightarrow> typed (snd r))", rotated])
    fix f past p par key pos s y
    assume IH: "\<And>past p par key pos s y. f past p par key pos s = Some y \<Longrightarrow> typed s \<longrightarrow> (\<forall>r. y = Inr r \<longrightarrow> typed (snd r))"
      and y: "bindX (Some (node_at s p)) (\<lambda>nd.
     bindX (Some (node_slot nd key)) (\<lambda>sl.
     bindX (case sl of
              Hit i \<Rightarrow> bindX (remove_from_node past p par i s) (\<lambda>s. ret (ival (items nd ! i), s))
            | Down i \<Rightarrow> f past (children nd ! i) p key i s
            | Miss \<Rightarrow> ret (0, s)) (\<lambda>rs.
     if par \<noteq> 0
     then bindX (Some (node_at (snd rs) p)) (\<lambda>nd.
            if ncount nd < BTREE_MIN
            then bindX (Some (rebalance past p par pos (snd rs))) (\<lambda>s. ret (fst rs, s))
            else ret rs)
     else ret rs))) = Some y"
    have f: "okX Q (f past p par key pos s)" if "typed s" "\<And>r. typed (snd r) \<Longrightarrow> Q r" for past p par key pos s Q
      using IH [of past p par key pos s] that unfolding okX_def by blast
    have sl: "okR Q (node_slot nd key)" if "\<And>sl. Q sl" for Q nd using that by (simp add: okR_def)
    have "okX (\<lambda>r. typed (snd r)) (Some y)" if "typed s"
      unfolding y [symmetric] using that by (intro ok_rules sl) (auto split: slot.split intro!: ok_rules f)
    then show "typed s \<longrightarrow> (\<forall>r. y = Inr r \<longrightarrow> typed (snd r))" by (simp add: okX_def)
  qed
  from this [of past p par key pos s] show ?thesis using assms unfolding okX_def by fastforce
qed

lemma okX_clear_node:
  assumes "typed s" and "\<And>s'. typed s' \<Longrightarrow> Q s'"
  shows "okX Q (clear_node p i s)"
proof -
  have "typed s \<longrightarrow> (\<forall>s'. y = Inr s' \<longrightarrow> typed s')" if "clear_node p i s = Some y" for p i s y
    using that
  proof (rule clear_node.raw_induct [where P = "\<lambda>p i s y. typed s \<longrightarrow> (\<forall>s'. y = Inr s' \<longrightarrow> typed s')", rotated])
    fix f p i s y
    assume IH: "\<And>p i s y. f p i s = Some y \<Longrightarrow> typed s \<longrightarrow> (\<forall>s'. y = Inr s' \<longrightarrow> typed s')"
      and y: "(if p = 0 then ret s
      else bindX (Some (node_at s p)) (\<lambda>nd.
        if i < ncount nd
        then guardX (i < BTREE_ORDER) OutOfBounds
               (bindX (f (children nd ! i) 0 s) (\<lambda>s'. f p (Suc i) s'))
        else ret (dealloc_node p s))) = Some y"
    have f: "okX Q (f p i s)" if "typed s" "\<And>s'. typed s' \<Longrightarrow> Q s'" for p i s Q
      using IH [of p i s] that unfolding okX_def by blast
    have "okX typed (Some y)" if "typed s"
      unfolding y [symmetric] using that by (intro ok_rules f; simp)
    then show "typed s \<longrightarrow> (\<forall>s'. y = Inr s' \<longrightarrow> typed s')" by (simp add: okX_def)
  qed
  from this [of p i s] show ?thesis using assms unfolding okX_def by blast
qed



end
