(* ===== verification/LibState.thy ===== *)
theory LibState
  imports PMem
begin

text \<open>
  The data of libstoreinst: the structs of log.hh and libc\_wrappers.hh, the statistics counters and the
  library's global variables.  The log of thread \<open>t\<close> is the \<open>t\<close>-th element of \<open>tls_logs\<close>: the vector of
  the source holds the addresses of the thread-local \<^verbatim>\<open>local_log\<close> objects, one per registered thread.
  The persistent part of a log, \<^verbatim>\<open>log_layout_t\<close>, lives in memory at \<open>log_area\<close>: an 8-byte state, an 8-byte
  offset, an 8-byte tail pointer and the packed entries.  Maps of the source that are iterated are
  association lists, in iteration order.
\<close>

subsection \<open>log.hh\<close>

datatype State = EMPTY | ACTIVE | COMMITTED

fun state_val :: "State \<Rightarrow> nat" where
  "state_val EMPTY = 0"
| "state_val ACTIVE = 1"
| "state_val COMMITTED = 2"

record log_entry_lean_t =
  lean_addr :: nat
  lean_bytes :: nat

record Log =
  last_log :: log_entry_lean_t
  last_flush_offset :: nat
  entries :: "log_entry_lean_t list"
  log_area :: addr

definition log_state_at :: "addr \<Rightarrow> addr" where
  "log_state_at la = la"

definition log_offset_at :: "addr \<Rightarrow> addr" where
  "log_offset_at la = la + 8"

definition tail_ptr_at :: "addr \<Rightarrow> addr" where
  "tail_ptr_at la = la + 16"

definition content_at :: "addr \<Rightarrow> addr" where
  "content_at la = la + 24"

definition log_hdr_sz :: nat where
  "log_hdr_sz = 24"

definition MAX_ENTRIES :: nat where
  "MAX_ENTRIES = 1024"

definition BUF_SZ :: nat where
  "BUF_SZ = 128 * 1024 * 1024"

text \<open>
  \<^verbatim>\<open>log_entry_t\<close> is packed: bit 0 is \<^verbatim>\<open>disabled\<close>, bits 1 to 23 are \<^verbatim>\<open>bytes\<close>, bits 24 to 79 are \<^verbatim>\<open>addr\<close>,
  and the flexible array \<^verbatim>\<open>content\<close> starts at byte 10.
\<close>

definition log_entry_sz :: nat where
  "log_entry_sz = 10"

definition ent_disabled :: "mem \<Rightarrow> addr \<Rightarrow> nat" where
  "ent_disabled m p = ldn m p 3 mod 2"

definition ent_bytes :: "mem \<Rightarrow> addr \<Rightarrow> nat" where
  "ent_bytes m p = ldn m p 3 div 2"

definition ent_addr :: "mem \<Rightarrow> addr \<Rightarrow> nat" where
  "ent_addr m p = ldn m (p + 3) 7"

definition ent_content :: "mem \<Rightarrow> addr \<Rightarrow> byte list" where
  "ent_content m p = rd m (p + log_entry_sz) (ent_bytes m p)"

definition set_ent_addr :: "addr \<Rightarrow> nat \<Rightarrow> mach \<Rightarrow> mach" where
  "set_ent_addr p v = store (p + 3) (le_bytes 7 v)"

definition set_ent_bytes :: "addr \<Rightarrow> nat \<Rightarrow> mach \<Rightarrow> mach" where
  "set_ent_bytes p v m = store p (le_bytes 3 (ent_disabled (cpu m) p + 2 * (v mod 2 ^ 23))) m"

subsection \<open>libc\_wrappers.hh\<close>

record addr_range_t =
  range_start :: nat
  range_end :: nat

record fd_metadata_t =
  md_fd :: int
  md_range :: addr_range_t
  md_fpath :: string

subsection \<open>Statistics\<close>

record counters =
  n_snapshots :: nat
  n_real_msyncs :: nat
  skip_check_count :: nat
  logged_check_count :: nat
  dup_log_entries :: nat
  back_to_back_dup_log :: nat
  total_log_entries :: nat
  total_pers_log_entries :: nat
  mergeable_entries :: nat
  total_bytes_wr :: nat
  total_bytes_wr_strm :: nat
  tx_log_count_dist :: "nat list"

subsection \<open>Global variables\<close>

record glob =
  mch :: mach
  start_addr :: addr
  end_addr :: addr
  startTracking :: bool
  storeInstEnabled :: bool
  cxlModeEnabled :: bool
  firstSnapshot :: bool
  nopMsync :: bool
  constructor_init_done :: bool
  log_loc :: string
  backing_file_start :: addr
  tls_logs :: "Log list"
  mapped_addr :: "(int \<times> fd_metadata_t) list"
  mmap_start :: addr
  ctrs :: counters

definition set_log :: "nat \<Rightarrow> Log \<Rightarrow> 'z glob_scheme \<Rightarrow> 'z glob_scheme" where
  "set_log t L g = g\<lparr>tls_logs := (tls_logs g)[t := L]\<rparr>"

definition upd_mch :: "(mach \<Rightarrow> mach) \<Rightarrow> 'z glob_scheme \<Rightarrow> 'z glob_scheme" where
  "upd_mch f g = g\<lparr>mch := f (mch g)\<rparr>"

definition upd_ctrs :: "(counters \<Rightarrow> counters) \<Rightarrow> 'z glob_scheme \<Rightarrow> 'z glob_scheme" where
  "upd_ctrs f g = g\<lparr>ctrs := f (ctrs g)\<rparr>"

definition MS_SYNC :: nat where
  "MS_SYNC = 4"

definition MS_FORCE_SNAPSHOT :: nat where
  "MS_FORCE_SNAPSHOT = 32"

definition BUF_SIZE :: nat where
  "BUF_SIZE = 100 * 1000 * 4096"

lemmas log_layout_defs = log_state_at_def log_offset_at_def tail_ptr_at_def content_at_def
  log_entry_sz_def log_hdr_sz_def

subsection \<open>The packed entry header\<close>

lemma ent_bytes_bound: "ent_bytes m p < 2 ^ 23"
  using ldn_bound [of m p 3] by (simp add: ent_bytes_def less_mult_imp_div_less)

lemma ent_addr_bound: "ent_addr m p < 2 ^ 56"
  using ldn_bound [of m "p + 3" 7] by (simp add: ent_addr_def)

lemma ent_disabled_le: "ent_disabled m p \<le> 1"
  unfolding ent_disabled_def by linarith

lemma ent_bytes_set_bytes [simp]: "ent_bytes (cpu (set_ent_bytes p v m)) p = v mod 2 ^ 23"
proof -
  let ?x = "ent_disabled (cpu m) p + 2 * (v mod 2 ^ 23)"
  have d: "ent_disabled (cpu m) p \<le> 1" by (rule ent_disabled_le)
  have "v mod 2 ^ 23 < (2 ^ 23 :: nat)" by simp
  then have "?x < 2 ^ 24" using d by simp
  then have "?x mod 256 ^ 3 = ?x" by simp
  then show ?thesis using d by (simp add: ent_bytes_def set_ent_bytes_def)
qed

lemma ent_disabled_set_bytes [simp]:
  "ent_disabled (cpu (set_ent_bytes p v m)) p = ent_disabled (cpu m) p"
proof -
  let ?x = "ent_disabled (cpu m) p + 2 * (v mod 2 ^ 23)"
  have d: "ent_disabled (cpu m) p \<le> 1" by (rule ent_disabled_le)
  have "v mod 2 ^ 23 < (2 ^ 23 :: nat)" by simp
  then have "?x < 2 ^ 24" using d by simp
  then have "?x mod 256 ^ 3 = ?x" by simp
  then have "ent_disabled (cpu (set_ent_bytes p v m)) p = ?x mod 2"
    by (simp add: ent_disabled_def set_ent_bytes_def)
  then show ?thesis using d by simp
qed

lemma ent_addr_set_addr [simp]: "ent_addr (cpu (set_ent_addr p v m)) p = v mod 2 ^ 56"
  by (simp add: ent_addr_def set_ent_addr_def)

lemma ent_addr_set_bytes [simp]: "ent_addr (cpu (set_ent_bytes p v m)) p = ent_addr (cpu m) p"
  by (simp add: ent_addr_def set_ent_bytes_def ldn_wr_disj)

lemma ent_cong:
  assumes "\<And>x. inr p log_entry_sz x \<Longrightarrow> m x = m' x"
  shows "ent_bytes m p = ent_bytes m' p" and "ent_addr m p = ent_addr m' p"
proof -
  have "ldn m p 3 = ldn m' p 3"
    by (rule ldn_cong) (use assms in \<open>auto simp: inr_def log_entry_sz_def\<close>)
  then show "ent_bytes m p = ent_bytes m' p" by (simp add: ent_bytes_def)
  show "ent_addr m p = ent_addr m' p"
    unfolding ent_addr_def by (rule ldn_cong) (use assms in \<open>auto simp: inr_def log_entry_sz_def\<close>)
qed

end
