(* ===== verification/WriteAhead.thy ===== *)
theory WriteAhead
  imports Prelude
begin

text \<open>
  The contract of an undo log, independent of its representation.  \<open>undo_all\<close> writes the logged bytes
  back, newest entry first.  A memory is \<open>undoable\<close> to \<open>m0\<close> on a region when undoing the log restores
  \<open>m0\<close> there.  Logging a range keeps that, and so does every store to bytes the log covers.

  The locale \<open>undo_logging\<close> is the interface between the log and the code that stores to tracked
  memory: a log operation that covers the range it is given, and a store.  Its client lemma is that any
  sequence of stores, each preceded by the log call for its range, is undone by the log.
\<close>

definition undo_all :: "(addr \<times> byte list) list \<Rightarrow> mem \<Rightarrow> mem" where
  "undo_all es m = foldr (\<lambda>(a, bs) m. wr m a bs) es m"

definition covered :: "(addr \<times> byte list) list \<Rightarrow> addr \<Rightarrow> bool" where
  "covered es x \<longleftrightarrow> (\<exists>e\<in>set es. inr (fst e) (length (snd e)) x)"

definition undoable :: "(addr \<Rightarrow> bool) \<Rightarrow> mem \<Rightarrow> (addr \<times> byte list) list \<Rightarrow> mem \<Rightarrow> bool" where
  "undoable R m0 es m \<longleftrightarrow> (\<forall>x. R x \<longrightarrow> undo_all es m x = m0 x)"

lemma undo_all_Nil [simp]: "undo_all [] m = m"
  by (simp add: undo_all_def)

lemma undo_all_Cons [simp]: "undo_all ((a, bs) # es) m = wr (undo_all es m) a bs"
  by (simp add: undo_all_def)

lemma undo_all_append: "undo_all (es @ fs) m = undo_all es (undo_all fs m)"
  by (simp add: undo_all_def)

lemma covered_append [simp]: "covered (es @ fs) x \<longleftrightarrow> covered es x \<or> covered fs x"
  by (auto simp: covered_def)

lemma covered_Nil [simp]: "\<not> covered [] x"
  by (simp add: covered_def)

lemma covered_Cons [simp]: "covered ((a, bs) # es) x \<longleftrightarrow> inr a (length bs) x \<or> covered es x"
  by (auto simp: covered_def)

lemma undo_all_uncovered: "\<not> covered es x \<Longrightarrow> undo_all es m x = m x"
  by (induction es) (auto simp: wr_apply_out)

lemma undo_all_covered: "covered es x \<Longrightarrow> undo_all es m x = undo_all es m' x"
  by (induction es) (auto simp: wr_def)

lemma undoable_refl: "undoable R m [] m"
  by (simp add: undoable_def)

lemma undoable_log: "undoable R m0 es m \<Longrightarrow> undoable R m0 (es @ [(a, rd m a n)]) m"
  by (simp add: undoable_def undo_all_append)

lemma undoable_change:
  assumes "undoable R m0 es m" and "\<And>x. R x \<Longrightarrow> \<not> covered es x \<Longrightarrow> m' x = m x"
  shows "undoable R m0 es m'"
  unfolding undoable_def
proof (intro allI impI)
  fix x assume "R x"
  then show "undo_all es m' x = m0 x"
    using assms undo_all_covered [of es x m' m]
    by (cases "covered es x") (auto simp: undoable_def undo_all_uncovered)
qed

locale undo_logging =
  fixes logs :: "'s \<Rightarrow> (addr \<times> byte list) list"
    and memory :: "'s \<Rightarrow> mem"
    and inv :: "'s \<Rightarrow> bool"
    and region :: "addr \<Rightarrow> bool"
    and room :: "addr \<Rightarrow> nat \<Rightarrow> 's \<Rightarrow> bool"
    and log_op :: "addr \<Rightarrow> nat \<Rightarrow> 's \<Rightarrow> 's res"
    and put :: "addr \<Rightarrow> byte list \<Rightarrow> 's \<Rightarrow> 's"
  assumes log_runs: "inv s \<Longrightarrow> room a n s \<Longrightarrow> \<exists>s'. log_op a n s = Inr s'"
    and log_inv: "inv s \<Longrightarrow> room a n s \<Longrightarrow> log_op a n s = Inr s' \<Longrightarrow> inv s'"
    and log_keeps: "inv s \<Longrightarrow> room a n s \<Longrightarrow> log_op a n s = Inr s' \<Longrightarrow> region x \<Longrightarrow>
          memory s' x = memory s x"
    and log_adds: "inv s \<Longrightarrow> room a n s \<Longrightarrow> log_op a n s = Inr s' \<Longrightarrow>
          logs s' = logs s \<or> logs s' = logs s @ [(a, rd (memory s) a n)]"
    and log_covers: "inv s \<Longrightarrow> room a n s \<Longrightarrow> log_op a n s = Inr s' \<Longrightarrow> inr a n x \<Longrightarrow>
          covered (logs s') x"
    and put_inv: "inv s \<Longrightarrow> (\<And>x. inr a (length bs) x \<Longrightarrow> region x) \<Longrightarrow> inv (put a bs s)"
    and put_logs: "inv s \<Longrightarrow> (\<And>x. inr a (length bs) x \<Longrightarrow> region x) \<Longrightarrow> logs (put a bs s) = logs s"
    and put_memory: "memory (put a bs s) = wr (memory s) a bs"
    and room_region: "room a n s \<Longrightarrow> inr a n x \<Longrightarrow> region x"
begin

definition logged_put :: "addr \<Rightarrow> byte list \<Rightarrow> 's \<Rightarrow> 's res" where
  "logged_put a bs s = bindR (log_op a (length bs) s) (\<lambda>s'. Inr (put a bs s'))"

fun run :: "(addr \<times> byte list) list \<Rightarrow> 's \<Rightarrow> 's res" where
  "run [] s = Inr s"
| "run ((a, bs) # ws) s = bindR (logged_put a bs s) (run ws)"

fun rooms :: "(addr \<times> byte list) list \<Rightarrow> 's \<Rightarrow> bool" where
  "rooms [] s \<longleftrightarrow> True"
| "rooms ((a, bs) # ws) s \<longleftrightarrow> room a (length bs) s \<and>
     (case logged_put a bs s of Inl e \<Rightarrow> True | Inr s' \<Rightarrow> rooms ws s')"

lemma log_undoable:
  assumes "inv s" "room a n s" "log_op a n s = Inr s'" "undoable region m0 (logs s) (memory s)"
  shows "undoable region m0 (logs s') (memory s')"
proof -
  have "undoable region m0 (logs s') (memory s)"
    using log_adds [OF assms(1-3)] assms(4) undoable_log by metis
  then show ?thesis by (rule undoable_change) (rule log_keeps [OF assms(1-3)])
qed

lemma put_undoable:
  assumes "inv s" "room a n s" "log_op a n s = Inr s1" "length bs \<le> n" "undoable region m0 (logs s) (memory s)"
  shows "inv (put a bs s1) \<and> undoable region m0 (logs (put a bs s1)) (memory (put a bs s1))"
proof -
  note i1 = log_inv [OF assms(1-3)]
  have sub: "inr a (length bs) x \<Longrightarrow> inr a n x" for x using assms(4) by (auto simp: inr_def)
  have reg: "\<And>x. inr a (length bs) x \<Longrightarrow> region x" by (rule room_region [OF assms(2)]) (rule sub)
  have "undoable region m0 (logs s1) (memory (put a bs s1))"
    by (rule undoable_change [OF log_undoable [OF assms(1-3,5)]])
      (use log_covers [OF assms(1-3)] sub in \<open>auto simp: put_memory wr_def\<close>)
  then show ?thesis using put_inv [OF i1 reg] put_logs [OF i1 reg] by simp
qed

lemma logged_put_undoable:
  assumes "inv s" "room a (length bs) s" "undoable region m0 (logs s) (memory s)"
  obtains s' where "logged_put a bs s = Inr s'" "inv s'" "undoable region m0 (logs s') (memory s')"
proof -
  obtain s1 where s1: "log_op a (length bs) s = Inr s1" using log_runs assms by blast
  then show thesis using that put_undoable [OF assms(1,2) s1 order.refl assms(3)] by (simp add: logged_put_def)
qed

lemma run_undoable:
  assumes "inv s" "rooms ws s" "undoable region m0 (logs s) (memory s)"
  shows "\<exists>s'. run ws s = Inr s' \<and> inv s' \<and> undoable region m0 (logs s') (memory s')"
  using assms
proof (induction ws arbitrary: s)
  case Nil
  then show ?case by simp
next
  case (Cons w ws)
  obtain a bs where w: "w = (a, bs)" by (cases w)
  have r: "room a (length bs) s" using Cons.prems(2) w by simp
  obtain s1 where "logged_put a bs s = Inr s1" "inv s1" "undoable region m0 (logs s1) (memory s1)"
    by (rule logged_put_undoable [OF Cons.prems(1) r Cons.prems(3)])
  then show ?case using Cons.IH [of s1] Cons.prems(2) w by simp
qed

text \<open>A crash may leave any mixture of old and new bytes at the covered addresses: the log restores them all.\<close>

lemma run_restores:
  assumes "inv s" "rooms ws s" "logs s = []" "run ws s = Inr s'"
    and "\<And>x. region x \<Longrightarrow> \<not> covered (logs s') x \<Longrightarrow> im x = memory s' x"
    and "region x"
  shows "undo_all (logs s') im x = memory s x"
proof -
  have "undoable region (memory s) (logs s') (memory s')"
    using run_undoable [OF assms(1,2), of "memory s"] assms(3,4) undoable_refl by auto
  then show ?thesis using undoable_change [of region "memory s" "logs s'" "memory s'" im] assms(5,6)
    by (auto simp: undoable_def)
qed

end

end
