(* ===== verification/UndoLog.thy ===== *)
theory UndoLog
  imports LibState WriteAhead
begin

text \<open>
  The per-thread undo log: log.hh and log.cc.  \<open>log_range\<close> appends an entry holding the old contents of
  a range, \<open>flush_all\<close>, \<open>set_state\<close> and \<open>clear\<close> are the calls snapshot makes, and \<open>log_begin\<close>, \<open>log_end\<close>,
  \<open>log_next\<close> are the iterator.  The model is the default build of make.config: volatile log format,
  assertions on, statistics on.

  \<open>log_walk\<close> lists the offsets of the entries between two offsets, the way recovery finds them, and
  \<open>log_exact\<close> says that the walk ends on the log offset.  The lemmas show that \<open>log_range\<close> adds exactly
  one entry to that list and leaves the earlier ones alone.
\<close>

subsection \<open>Operations\<close>

definition bump_total_log_entries :: "counters \<Rightarrow> counters" where
  "bump_total_log_entries c = c\<lparr>total_log_entries := Suc (total_log_entries c)\<rparr>"

definition bump_back_to_back :: "counters \<Rightarrow> counters" where
  "bump_back_to_back c = c\<lparr>back_to_back_dup_log := Suc (back_to_back_dup_log c)\<rparr>"

definition bump_logged_check :: "counters \<Rightarrow> counters" where
  "bump_logged_check c = c\<lparr>logged_check_count := Suc (logged_check_count c)\<rparr>"

definition write_entry :: "addr \<Rightarrow> addr \<Rightarrow> nat \<Rightarrow> mach \<Rightarrow> mach" where
  "write_entry p start bytes m =
     c_memmove (p + log_entry_sz) start bytes (set_ent_bytes p bytes (set_ent_addr p start m))"

definition advance_tail :: "addr \<Rightarrow> nat \<Rightarrow> mach \<Rightarrow> mach" where
  "advance_tail la sz m =
     (let m1 = st64 (log_offset_at la) (uadd64 (ld64 m (log_offset_at la)) sz) m
      in st64 (tail_ptr_at la) (uadd64 (ld64 m1 (tail_ptr_at la)) sz) m1)"

definition flush_entry :: "pmem_ops \<Rightarrow> Log \<Rightarrow> mach \<Rightarrow> Log \<times> mach" where
  "flush_entry ops L m =
     (let la = log_area L;
          off = ld64 m (log_offset_at la);
          lfo = last_flush_offset L;
          cls_to_flush = uadd64 (usub64 off lfo) 63 div 64
      in if off mod 64 = 0
         then (L\<lparr>last_flush_offset := off\<rparr>, po_flush ops (la + lfo) (cls_to_flush * 64) m)
         else if 1 < cls_to_flush
         then (L\<lparr>last_flush_offset := uadd64 lfo ((cls_to_flush - 1) * 64)\<rparr>,
               po_flush ops (la + lfo) ((cls_to_flush - 1) * 64) m)
         else (L, m))"

definition log_range :: "pmem_ops \<Rightarrow> nat \<Rightarrow> addr \<Rightarrow> nat \<Rightarrow> 'z glob_scheme \<Rightarrow> 'z glob_scheme res" where
  "log_range ops t start bytes g =
     (let L = tls_logs g ! t; la = log_area L
      in guardR (la \<noteq> 0) NullDeref
        (if \<not> cxlModeEnabled g then Inr g
         else let g1 = g\<lparr>storeInstEnabled := True\<rparr>
           in guardR (bytes < 2 ^ 22) AssertFailed
             (let g2 = upd_ctrs bump_total_log_entries g1;
                  e = \<lparr>lean_addr = start, lean_bytes = bytes\<rparr>;
                  L1 = L\<lparr>entries := entries L @ [e]\<rparr>
              in if last_log L = e
                 then Inr (set_log t L1 (upd_ctrs bump_back_to_back g2))
                 else let p = ld64 (mch g2) (tail_ptr_at la);
                          m1 = write_entry p start bytes (mch g2);
                          m2 = advance_tail la (log_entry_sz + bytes) m1;
                          (L2, m3) = flush_entry ops (L1\<lparr>last_log := e\<rparr>) m2
                      in Inr (upd_ctrs bump_logged_check (set_log t L2 (g2\<lparr>mch := m3\<rparr>))))))"

definition flush_all :: "pmem_ops \<Rightarrow> Log \<Rightarrow> mach \<Rightarrow> mach" where
  "flush_all ops L m =
     (let la = log_area L; off = ld64 m (log_offset_at la); lfo = last_flush_offset L
      in if lfo \<noteq> off then po_flush ops (content_at la + lfo) (usub64 off lfo) m else m)"

definition set_state :: "pmem_ops \<Rightarrow> Log \<Rightarrow> State \<Rightarrow> bool \<Rightarrow> mach \<Rightarrow> mach res" where
  "set_state ops L s flush_whole m =
     guardR (log_area L \<noteq> 0) AssertFailed
       (let la = log_area L
        in if flush_whole
           then Inr (po_drain ops (po_flush ops la log_hdr_sz (st64 (log_state_at la) (state_val s) m)))
           else Inr (po_drain ops (po_streaming_wr ops (log_state_at la) (le_bytes 8 (state_val s)) m)))"

definition get_state :: "Log \<Rightarrow> mach \<Rightarrow> nat res" where
  "get_state L m = guardR (log_area L \<noteq> 0) AssertFailed (Inr (ld64 m (log_state_at (log_area L))))"

definition clear_log :: "nat \<Rightarrow> 'z glob_scheme \<Rightarrow> 'z glob_scheme" where
  "clear_log t g =
     (let L = tls_logs g ! t; la = log_area L;
          m1 = st64 (log_offset_at la) 0 (mch g);
          m2 = st64 (tail_ptr_at la) (content_at la) m1
      in set_log t (L\<lparr>last_flush_offset := 0, last_log := \<lparr>lean_addr = 0, lean_bytes = 0\<rparr>,
                      entries := []\<rparr>) (g\<lparr>mch := m2\<rparr>))"

definition log_begin :: "addr \<Rightarrow> addr" where
  "log_begin la = content_at la"

definition log_end :: "mach \<Rightarrow> addr \<Rightarrow> addr" where
  "log_end m la = content_at la + ld64 m (log_offset_at la)"

definition log_next :: "mem \<Rightarrow> addr \<Rightarrow> addr" where
  "log_next m p = p + ent_bytes m p + log_entry_sz"

definition log_next_post :: "mem \<Rightarrow> addr \<Rightarrow> addr" where
  "log_next_post m p = p + ent_bytes m p"

subsection \<open>The entries of a log\<close>

function log_walk :: "mem \<Rightarrow> addr \<Rightarrow> nat \<Rightarrow> nat \<Rightarrow> nat list" where
  "log_walk m c off cur =
     (if cur < off then cur # log_walk m c off (cur + ent_bytes m (c + cur) + log_entry_sz) else [])"
  by pat_completeness auto
termination
  by (relation "measure (\<lambda>(m, c, off, cur). off - cur)") (auto simp: log_entry_sz_def)

function log_exact :: "mem \<Rightarrow> addr \<Rightarrow> nat \<Rightarrow> nat \<Rightarrow> bool" where
  "log_exact m c off cur =
     (if cur < off then log_exact m c off (cur + ent_bytes m (c + cur) + log_entry_sz) else cur = off)"
  by pat_completeness auto
termination
  by (relation "measure (\<lambda>(m, c, off, cur). off - cur)") (auto simp: log_entry_sz_def)

declare log_walk.simps [simp del] log_exact.simps [simp del]

definition log_entry_of :: "mem \<Rightarrow> addr \<Rightarrow> addr \<times> byte list" where
  "log_entry_of m p = (ent_addr m p, ent_content m p)"

definition log_list :: "mach \<Rightarrow> addr \<Rightarrow> (addr \<times> byte list) list" where
  "log_list m la =
     map (\<lambda>o'. log_entry_of (cpu m) (content_at la + o'))
       (log_walk (cpu m) (content_at la) (ld64 m (log_offset_at la)) 0)"

definition log_wf :: "mach \<Rightarrow> addr \<Rightarrow> bool" where
  "log_wf m la \<longleftrightarrow>
     ld64 m (tail_ptr_at la) = content_at la + ld64 m (log_offset_at la) \<and>
     log_exact (cpu m) (content_at la) (ld64 m (log_offset_at la)) 0"

subsection \<open>Walking a log\<close>

lemma log_exact_le: "log_exact m c off cur \<Longrightarrow> cur \<le> off"
proof (induction m c off cur rule: log_exact.induct)
  case (1 m c off cur)
  then show ?case by (subst (asm) log_exact.simps) (auto split: if_splits)
qed

lemma log_exact_step:
  assumes "log_exact m c off cur" and "cur < off"
  shows "log_exact m c off (cur + ent_bytes m (c + cur) + log_entry_sz)"
    and "cur + ent_bytes m (c + cur) + log_entry_sz \<le> off"
proof -
  show *: "log_exact m c off (cur + ent_bytes m (c + cur) + log_entry_sz)"
    using assms by (subst (asm) log_exact.simps) simp
  show "cur + ent_bytes m (c + cur) + log_entry_sz \<le> off" by (rule log_exact_le [OF *])
qed

lemma log_walk_in:
  "log_exact m c off cur \<Longrightarrow> k \<in> set (log_walk m c off cur) \<Longrightarrow>
     cur \<le> k \<and> k + ent_bytes m (c + k) + log_entry_sz \<le> off"
proof (induction m c off cur rule: log_walk.induct)
  case (1 m c off cur)
  show ?case
  proof (cases "cur < off")
    case True
    note st = log_exact_step [OF "1.prems"(1) True]
    from "1.prems"(2) True have "k = cur \<or> k \<in> set (log_walk m c off (cur + ent_bytes m (c + cur) + log_entry_sz))"
      by (subst (asm) log_walk.simps) auto
    then show ?thesis using "1.IH" [OF True st(1)] st(2) by auto
  next
    case False
    then show ?thesis using "1.prems"(2) by (subst (asm) log_walk.simps) simp
  qed
qed

lemma log_walk_extend:
  assumes "log_exact m c off cur"
    and "\<And>x. inr c off x \<Longrightarrow> m' x = m x"
    and "off' = off + ent_bytes m' (c + off) + log_entry_sz"
  shows "log_walk m' c off' cur = log_walk m c off cur @ [off] \<and> log_exact m' c off' cur"
  using assms
proof (induction m c off cur rule: log_walk.induct)
  case (1 m c off cur)
  note ex = "1.prems"(1) and agree = "1.prems"(2) and off' = "1.prems"(3)
  have lt: "off < off'" using off' by (simp add: log_entry_sz_def)
  let ?nx = "\<lambda>m. cur + ent_bytes m (c + cur) + log_entry_sz"
  show ?case
  proof (cases "cur < off")
    case True
    note st = log_exact_step [OF ex True]
    have "ent_bytes m' (c + cur) = ent_bytes m (c + cur)"
      by (rule ent_cong(1)) (use agree st(2) in \<open>auto simp: inr_def\<close>)
    then show ?thesis
      using "1.IH" [OF True st(1) agree off'] True lt
      by (simp add: log_walk.simps [of m' c off' cur] log_walk.simps [of m c off cur]
          log_exact.simps [of m' c off' cur])
  next
    case False
    then have c: "cur = off" using log_exact_le [OF ex] by simp
    have e: "off + ent_bytes m' (c + off) + log_entry_sz = off'" using off' by simp
    show ?thesis
      unfolding c using lt e
      by (simp add: log_walk.simps [of m' c off' off] log_walk.simps [of m c off off]
          log_exact.simps [of m' c off' off] log_walk.simps [of m' c off' off']
          log_exact.simps [of m' c off' off'])
  qed
qed

lemma log_walk_cong:
  assumes "log_exact m c off cur" and "\<And>x. inr c off x \<Longrightarrow> m' x = m x"
  shows "log_walk m' c off cur = log_walk m c off cur \<and> log_exact m' c off cur"
  using assms
proof (induction m c off cur rule: log_walk.induct)
  case (1 m c off cur)
  show ?case
  proof (cases "cur < off")
    case True
    note st = log_exact_step [OF "1.prems"(1) True]
    have "ent_bytes m' (c + cur) = ent_bytes m (c + cur)"
      by (rule ent_cong(1)) (use "1.prems"(2) st(2) in \<open>auto simp: inr_def\<close>)
    then show ?thesis using "1.IH" [OF True st(1) "1.prems"(2)] True
      by (simp add: log_walk.simps [of _ c off cur] log_exact.simps [of _ c off cur])
  next
    case False
    then have "cur = off" using log_exact_le [OF "1.prems"(1)] by simp
    then show ?thesis by (simp add: log_walk.simps [of _ c off off] log_exact.simps [of _ c off off])
  qed
qed

lemma log_entry_of_cong:
  assumes "\<And>x. inr p (ent_bytes m p + log_entry_sz) x \<Longrightarrow> m' x = m x"
  shows "log_entry_of m' p = log_entry_of m p"
proof -
  have h: "ent_bytes m' p = ent_bytes m p" "ent_addr m' p = ent_addr m p"
    by (rule ent_cong; use assms in \<open>auto simp: inr_def\<close>)+
  have "rd m' (p + log_entry_sz) (ent_bytes m p) = rd m (p + log_entry_sz) (ent_bytes m p)"
    by (rule rd_cong) (use assms in \<open>auto simp: inr_def\<close>)
  with h show ?thesis by (simp add: log_entry_of_def ent_content_def)
qed

text \<open>The list of entries after one more entry is written behind the last one.\<close>

lemma log_list_extend:
  assumes wf: "log_wf m la"
    and off: "ld64 m (log_offset_at la) = off"
    and agree: "\<And>x. inr (content_at la) off x \<Longrightarrow> cpu m' x = cpu m x"
    and off': "ld64 m' (log_offset_at la) = off + ent_bytes (cpu m') (content_at la + off) + log_entry_sz"
    and tail': "ld64 m' (tail_ptr_at la) = content_at la + ld64 m' (log_offset_at la)"
  shows "log_list m' la = log_list m la @ [log_entry_of (cpu m') (content_at la + off)]"
    and "log_wf m' la"
proof -
  have ex: "log_exact (cpu m) (content_at la) off 0" using wf off by (simp add: log_wf_def)
  note ext = log_walk_extend [OF ex agree off']
  have "map (\<lambda>k. log_entry_of (cpu m') (content_at la + k)) (log_walk (cpu m) (content_at la) off 0) =
        map (\<lambda>k. log_entry_of (cpu m) (content_at la + k)) (log_walk (cpu m) (content_at la) off 0)"
  proof (rule map_cong [OF refl])
    fix k assume "k \<in> set (log_walk (cpu m) (content_at la) off 0)"
    then have "k + ent_bytes (cpu m) (content_at la + k) + log_entry_sz \<le> off"
      using log_walk_in [OF ex] by blast
    then show "log_entry_of (cpu m') (content_at la + k) = log_entry_of (cpu m) (content_at la + k)"
      by (intro log_entry_of_cong agree) (auto simp: inr_def)
  qed
  then show "log_list m' la = log_list m la @ [log_entry_of (cpu m') (content_at la + off)]"
    using ext off by (simp add: log_list_def)
  show "log_wf m' la" using ext tail' by (simp add: log_wf_def)
qed

subsection \<open>Appending\<close>

lemma write_entry_outside:
  "\<not> inr p (log_entry_sz + bytes) x \<Longrightarrow> cpu (write_entry p start bytes m) x = cpu m x"
  by (auto simp: write_entry_def set_ent_bytes_def set_ent_addr_def wr_def inr_def log_entry_sz_def)

lemma write_entry_entry:
  assumes "start + bytes \<le> p \<or> p + log_entry_sz \<le> start" and "bytes < 2 ^ 23" and "start < 2 ^ 56"
  shows "log_entry_of (cpu (write_entry p start bytes m)) p = (start, rd (cpu m) start bytes)"
    and "ent_bytes (cpu (write_entry p start bytes m)) p = bytes"
proof -
  let ?m1 = "set_ent_bytes p bytes (set_ent_addr p start m)"
  have e: "ent_bytes (cpu (write_entry p start bytes m)) p = ent_bytes (cpu ?m1) p"
    "ent_addr (cpu (write_entry p start bytes m)) p = ent_addr (cpu ?m1) p"
    by (rule ent_cong; auto simp: write_entry_def wr_def inr_def)+
  show b: "ent_bytes (cpu (write_entry p start bytes m)) p = bytes"
    using assms(2) by (simp add: e)
  have "rd (cpu ?m1) start bytes = rd (cpu m) start bytes"
    by (rule rd_cong)
      (use assms(1) in \<open>auto simp: set_ent_bytes_def set_ent_addr_def wr_def inr_def log_entry_sz_def\<close>)
  then have "ent_content (cpu (write_entry p start bytes m)) p = rd (cpu m) start bytes"
    unfolding ent_content_def b by (simp add: write_entry_def)
  then show "log_entry_of (cpu (write_entry p start bytes m)) p = (start, rd (cpu m) start bytes)"
    using assms(3) by (simp add: log_entry_of_def e)
qed

lemma advance_tail_outside:
  "\<not> inr (la + 8) 16 x \<Longrightarrow> cpu (advance_tail la sz m) x = cpu m x"
  by (auto simp: advance_tail_def Let_def wr_def inr_def log_offset_at_def tail_ptr_at_def)

lemma advance_tail_fields:
  "ld64 (advance_tail la sz m) (log_offset_at la) = uadd64 (ld64 m (log_offset_at la)) sz"
  "ld64 (advance_tail la sz m) (tail_ptr_at la) = uadd64 (ld64 m (tail_ptr_at la)) sz"
  "ld64 (advance_tail la sz m) (log_state_at la) = ld64 m (log_state_at la)"
  by (simp_all add: advance_tail_def Let_def ld64_st64_same ld64_st64_disj log_layout_defs uadd64_def)

lemma flush_entry_cpu:
  "pmem_ops_ok ops \<Longrightarrow> cpu (snd (flush_entry ops L m)) = cpu m"
  by (simp add: flush_entry_def Let_def pmem_cpu)

lemma flush_entry_log:
  "\<exists>lfo. fst (flush_entry ops L m) = L\<lparr>last_flush_offset := lfo\<rparr>"
  unfolding flush_entry_def Let_def by (auto intro: exI [of _ "last_flush_offset L"])

lemma ld64_cong: "(\<And>x. inr a 8 x \<Longrightarrow> cpu m x = cpu m' x) \<Longrightarrow> ld64 m a = ld64 m' a"
  unfolding ld64_def by (rule ldn_cong)

text \<open>
  \<open>loggable\<close> collects what a call of \<open>log_range\<close> needs to append: the log is set up, the range is below
  the 22-bit limit of the assertion and the 56-bit limit of the entry's address, the entry fits the address space
  and the range is not inside the log.
\<close>

definition loggable :: "nat \<Rightarrow> addr \<Rightarrow> nat \<Rightarrow> 'z glob_scheme \<Rightarrow> bool" where
  "loggable t start bytes g \<longleftrightarrow>
     (let la = log_area (tls_logs g ! t);
          e = content_at la + ld64 (mch g) (log_offset_at la) + log_entry_sz + bytes
      in t < length (tls_logs g) \<and> la \<noteq> 0 \<and> cxlModeEnabled g \<and> bytes < 2 ^ 22 \<and> start < 2 ^ 56 \<and>
         log_wf (mch g) la \<and> e < 2 ^ 64 \<and> (start + bytes \<le> la \<or> e \<le> start))"

definition log_range_mach :: "addr \<Rightarrow> addr \<Rightarrow> nat \<Rightarrow> mach \<Rightarrow> mach" where
  "log_range_mach la start bytes m =
     advance_tail la (log_entry_sz + bytes) (write_entry (ld64 m (tail_ptr_at la)) start bytes m)"

lemma log_range_run:
  assumes "loggable t start bytes g"
    and "last_log (tls_logs g ! t) \<noteq> \<lparr>lean_addr = start, lean_bytes = bytes\<rparr>"
  obtains g' L1 where "log_range ops t start bytes g = Inr g'"
    and "L1 = (tls_logs g ! t)
           \<lparr>entries := entries (tls_logs g ! t) @ [\<lparr>lean_addr = start, lean_bytes = bytes\<rparr>],
            last_log := \<lparr>lean_addr = start, lean_bytes = bytes\<rparr>\<rparr>"
    and "mch g' = snd (flush_entry ops L1 (log_range_mach (log_area L1) start bytes (mch g)))"
    and "tls_logs g' = (tls_logs g)
           [t := fst (flush_entry ops L1 (log_range_mach (log_area L1) start bytes (mch g)))]"
    and "cxlModeEnabled g' = cxlModeEnabled g"
proof -
  let ?L = "tls_logs g ! t" and ?e = "\<lparr>lean_addr = start, lean_bytes = bytes\<rparr>"
  let ?L1 = "?L\<lparr>entries := entries ?L @ [?e], last_log := ?e\<rparr>"
  have "log_area ?L \<noteq> 0" "cxlModeEnabled g" "bytes < 2 ^ 22"
    using assms(1) by (auto simp: loggable_def Let_def)
  then show thesis
    using assms(2) that [of _ ?L1]
    by (simp add: log_range_def Let_def upd_ctrs_def set_log_def log_range_mach_def split_beta)
qed

lemma log_range_mach_appends:
  assumes "log_wf m la" and "bytes < 2 ^ 22" and "start < 2 ^ 56"
    and "content_at la + ld64 m (log_offset_at la) + log_entry_sz + bytes < 2 ^ 64"
    and "start + bytes \<le> la \<or> content_at la + ld64 m (log_offset_at la) + log_entry_sz + bytes \<le> start"
  shows "log_list (log_range_mach la start bytes m) la = log_list m la @ [(start, rd (cpu m) start bytes)]"
    and "log_wf (log_range_mach la start bytes m) la"
    and "ld64 (log_range_mach la start bytes m) (log_offset_at la) =
           ld64 m (log_offset_at la) + log_entry_sz + bytes"
proof -
  let ?off = "ld64 m (log_offset_at la)" and ?p = "ld64 m (tail_ptr_at la)"
  let ?w = "write_entry ?p start bytes m" and ?m' = "log_range_mach la start bytes m"
  have p: "?p = content_at la + ?off" using assms(1) by (simp add: log_wf_def)
  have before: "cpu ?w x = cpu m x" if "x < content_at la" for x
    by (rule write_entry_outside) (use that p in \<open>simp add: inr_def\<close>)
  have f: "ld64 ?w (log_offset_at la) = ?off" "ld64 ?w (tail_ptr_at la) = ?p"
    by (rule ld64_cong, rule before, simp add: inr_def log_layout_defs)+
  show o': "ld64 ?m' (log_offset_at la) = ?off + log_entry_sz + bytes"
    using assms(4) unfolding log_range_mach_def
    by (simp add: advance_tail_fields f uadd64_small content_at_def log_entry_sz_def)
  have t: "ld64 ?m' (tail_ptr_at la) = content_at la + ld64 ?m' (log_offset_at la)"
    unfolding o' using assms(4) unfolding log_range_mach_def
    by (simp add: advance_tail_fields f uadd64_small) (simp add: p uadd64_small add_ac)
  have out: "cpu ?m' x = cpu m x" if "inr (content_at la) ?off x" for x
    unfolding log_range_mach_def
    by (subst advance_tail_outside, use that in \<open>simp add: inr_def content_at_def\<close>,
        rule write_entry_outside, use that in \<open>simp add: p inr_def\<close>)
  have ent: "cpu ?m' x = cpu ?w x" if "content_at la \<le> x" for x
    unfolding log_range_mach_def
    by (rule advance_tail_outside) (use that in \<open>simp add: inr_def content_at_def\<close>)
  have cong: "log_entry_of (cpu ?m') ?p = log_entry_of (cpu ?w) ?p"
    "ent_bytes (cpu ?m') ?p = ent_bytes (cpu ?w) ?p"
    by (rule log_entry_of_cong ent_cong(1); use ent p in \<open>auto simp: inr_def\<close>)+
  have we: "log_entry_of (cpu ?w) ?p = (start, rd (cpu m) start bytes)" "ent_bytes (cpu ?w) ?p = bytes"
    by (rule write_entry_entry; use assms(2,3,5) p in \<open>auto simp: content_at_def\<close>)+
  have b: "ent_bytes (cpu ?m') (content_at la + ?off) = bytes" using cong we p by simp
  note ext = log_list_extend [OF assms(1) refl out _ t, unfolded b, OF _ ]
  show "log_list ?m' la = log_list m la @ [(start, rd (cpu m) start bytes)]"
    using ext(1) o' cong(1) we(1) p by simp
  show "log_wf ?m' la" using ext(2) o' by simp
qed

subsection \<open>The invariant of a thread's log\<close>

definition lean_zero :: log_entry_lean_t where
  "lean_zero = \<lparr>lean_addr = 0, lean_bytes = 0\<rparr>"

definition last_log_ok :: "Log \<Rightarrow> mach \<Rightarrow> bool" where
  "last_log_ok L m \<longleftrightarrow> last_log L = lean_zero \<or>
     (let es = log_list m (log_area L)
      in es \<noteq> [] \<and> fst (last es) = lean_addr (last_log L) \<and> length (snd (last es)) = lean_bytes (last_log L))"

definition log_ok :: "pmem_ops \<Rightarrow> nat \<Rightarrow> addr \<Rightarrow> nat \<Rightarrow> 'z glob_scheme \<Rightarrow> bool" where
  "log_ok ops t la cap g \<longleftrightarrow>
     pmem_ops_ok ops \<and> t < length (tls_logs g) \<and> log_area (tls_logs g ! t) = la \<and> la \<noteq> 0 \<and>
     cxlModeEnabled g \<and> log_wf (mch g) la \<and> ld64 (mch g) (log_offset_at la) \<le> cap \<and>
     content_at la + cap < 2 ^ 64 \<and> last_log_ok (tls_logs g ! t) (mch g)"

definition outside_log :: "addr \<Rightarrow> nat \<Rightarrow> addr \<Rightarrow> bool" where
  "outside_log la cap x \<longleftrightarrow> \<not> inr la (log_hdr_sz + cap) x"

definition log_fits :: "addr \<Rightarrow> nat \<Rightarrow> addr \<Rightarrow> nat \<Rightarrow> 'z glob_scheme \<Rightarrow> bool" where
  "log_fits la cap a n g \<longleftrightarrow> n < 2 ^ 22 \<and> a < 2 ^ 56 \<and>
     ld64 (mch g) (log_offset_at la) + log_entry_sz + n \<le> cap \<and>
     (a + n \<le> la \<or> la + log_hdr_sz + cap \<le> a)"

lemma log_ok_loggable: "log_ok ops t la cap g \<Longrightarrow> log_fits la cap a n g \<Longrightarrow> loggable t a n g"
  by (auto simp: log_ok_def log_fits_def loggable_def Let_def content_at_def log_hdr_sz_def)

text \<open>A call with the range of the previous one only adds to the volatile list of entries.\<close>

lemma log_range_dup:
  assumes "log_area (tls_logs g ! t) \<noteq> 0" "cxlModeEnabled g" "bytes < 2 ^ 22"
    and "last_log (tls_logs g ! t) = \<lparr>lean_addr = start, lean_bytes = bytes\<rparr>"
  obtains g' where "log_range ops t start bytes g = Inr g'" "mch g' = mch g"
    "tls_logs g' = (tls_logs g)[t := (tls_logs g ! t)
       \<lparr>entries := entries (tls_logs g ! t) @ [\<lparr>lean_addr = start, lean_bytes = bytes\<rparr>]\<rparr>]"
    "cxlModeEnabled g' = cxlModeEnabled g"
  using assms by (simp add: log_range_def Let_def upd_ctrs_def set_log_def)

lemma log_wf_cong: "cpu m = cpu m' \<Longrightarrow> log_wf m la = log_wf m' la"
  by (simp add: log_wf_def ld64_def)

lemma log_list_cong: "cpu m = cpu m' \<Longrightarrow> log_list m la = log_list m' la"
  by (simp add: log_list_def ld64_def)

lemma log_range_mach_outside:
  assumes "log_wf m la" and "outside_log la cap x"
    and "ld64 m (log_offset_at la) + log_entry_sz + n \<le> cap"
  shows "cpu (log_range_mach la a n m) x = cpu m x"
proof -
  have "ld64 m (tail_ptr_at la) = la + 24 + ld64 m (log_offset_at la)"
    using assms(1) by (simp add: log_wf_def content_at_def)
  moreover have "x < la \<or> la + 24 + cap \<le> x"
    using assms(2) by (auto simp: outside_log_def inr_def log_hdr_sz_def)
  ultimately show ?thesis
    unfolding log_range_mach_def using assms(3)
    by (subst advance_tail_outside, force simp: inr_def, intro write_entry_outside) (auto simp: inr_def)
qed

lemma log_range_new:
  assumes "log_ok ops t la cap g" and "log_fits la cap a n g"
    and "last_log (tls_logs g ! t) \<noteq> \<lparr>lean_addr = a, lean_bytes = n\<rparr>"
  obtains g' where "log_range ops t a n g = Inr g'" and "log_ok ops t la cap g'"
    and "\<And>x. outside_log la cap x \<Longrightarrow> cpu (mch g') x = cpu (mch g) x"
    and "log_list (mch g') la = log_list (mch g) la @ [(a, rd (cpu (mch g)) a n)]"
    and "entries (tls_logs g' ! t) = entries (tls_logs g ! t) @ [\<lparr>lean_addr = a, lean_bytes = n\<rparr>]"
proof -
  have ops: "pmem_ops_ok ops" and t: "t < length (tls_logs g)" and la: "log_area (tls_logs g ! t) = la"
    and la0: "la \<noteq> 0" and cxl: "cxlModeEnabled g" and wf: "log_wf (mch g) la"
    and cap: "content_at la + cap < 2 ^ 64"
    using assms(1) by (auto simp: log_ok_def)
  have n: "n < 2 ^ 22" and a: "a < 2 ^ 56" and room: "ld64 (mch g) (log_offset_at la) + log_entry_sz + n \<le> cap"
    and dj: "a + n \<le> la \<or> la + log_hdr_sz + cap \<le> a"
    using assms(2) by (auto simp: log_fits_def)
  obtain g' L1 where run: "log_range ops t a n g = Inr g'"
    and L1: "L1 = (tls_logs g ! t)
           \<lparr>entries := entries (tls_logs g ! t) @ [\<lparr>lean_addr = a, lean_bytes = n\<rparr>],
            last_log := \<lparr>lean_addr = a, lean_bytes = n\<rparr>\<rparr>"
    and fe: "mch g' = snd (flush_entry ops L1 (log_range_mach (log_area L1) a n (mch g)))"
      "tls_logs g' = (tls_logs g)[t := fst (flush_entry ops L1 (log_range_mach (log_area L1) a n (mch g)))]"
    and cxl': "cxlModeEnabled g' = cxlModeEnabled g"
    by (rule log_range_run [OF log_ok_loggable [OF assms(1,2)] assms(3), of ops])
  have m': "cpu (mch g') = cpu (log_range_mach la a n (mch g))"
    using fe(1) L1 la by (simp add: flush_entry_cpu [OF ops])
  obtain lfo where Lt: "tls_logs g' ! t = L1\<lparr>last_flush_offset := lfo\<rparr>" "length (tls_logs g') = length (tls_logs g)"
    using fe(2) t flush_entry_log [of ops L1 "log_range_mach (log_area L1) a n (mch g)"] by auto
  have "content_at la + ld64 (mch g) (log_offset_at la) + log_entry_sz + n < 2 ^ 64"
    using room cap by simp
  moreover have "a + n \<le> la \<or> content_at la + ld64 (mch g) (log_offset_at la) + log_entry_sz + n \<le> a"
    using dj room by (auto simp: content_at_def log_hdr_sz_def)
  ultimately have ap: "log_list (mch g') la = log_list (mch g) la @ [(a, rd (cpu (mch g)) a n)]"
    "log_wf (mch g') la" "ld64 (mch g') (log_offset_at la) = ld64 (mch g) (log_offset_at la) + log_entry_sz + n"
    using log_range_mach_appends [OF wf n a] m' log_list_cong [OF m'] log_wf_cong [OF m']
    by (auto simp: ld64_def)
  have "log_ok ops t la cap g'"
    using ops t la la0 cxl cxl' cap room ap L1 Lt by (simp add: log_ok_def last_log_ok_def)
  then show thesis
    using that [OF run] log_range_mach_outside [OF wf _ room] m' ap(1) L1 Lt by simp
qed

lemma log_range_ok:
  assumes "log_ok ops t la cap g" and "log_fits la cap a n g"
  obtains g' where "log_range ops t a n g = Inr g'" and "log_ok ops t la cap g'"
    and "\<And>x. outside_log la cap x \<Longrightarrow> cpu (mch g') x = cpu (mch g) x"
    and "log_list (mch g') la = log_list (mch g) la \<or>
         log_list (mch g') la = log_list (mch g) la @ [(a, rd (cpu (mch g)) a n)]"
    and "\<And>x. inr a n x \<Longrightarrow> covered (log_list (mch g') la) x"
    and "entries (tls_logs g' ! t) = entries (tls_logs g ! t) @ [\<lparr>lean_addr = a, lean_bytes = n\<rparr>]"
proof (cases "last_log (tls_logs g ! t) = \<lparr>lean_addr = a, lean_bytes = n\<rparr>")
  case True
  have pre: "t < length (tls_logs g)" "log_area (tls_logs g ! t) = la" "la \<noteq> 0" "cxlModeEnabled g" "n < 2 ^ 22"
    using assms by (auto simp: log_ok_def log_fits_def)
  obtain g' where g': "log_range ops t a n g = Inr g'" "mch g' = mch g"
    "tls_logs g' = (tls_logs g)[t := (tls_logs g ! t)
       \<lparr>entries := entries (tls_logs g ! t) @ [\<lparr>lean_addr = a, lean_bytes = n\<rparr>]\<rparr>]"
    "cxlModeEnabled g' = cxlModeEnabled g"
    using log_range_dup [of g t n a ops] pre True by metis
  have cov: "covered (log_list (mch g) la) x" if "inr a n x" for x
  proof -
    have "n \<noteq> 0" using that by (auto simp: inr_def)
    then have "last_log (tls_logs g ! t) \<noteq> lean_zero" using True by (simp add: lean_zero_def)
    then have "log_list (mch g) la \<noteq> []" "fst (last (log_list (mch g) la)) = a"
      "length (snd (last (log_list (mch g) la))) = n"
      using assms(1) True by (auto simp: log_ok_def last_log_ok_def Let_def)
    then show ?thesis using that last_in_set unfolding covered_def by blast
  qed
  have "log_ok ops t la cap g'"
    using assms(1) g' pre by (simp add: log_ok_def last_log_ok_def)
  then show thesis using that [OF g'(1)] g' cov pre by simp
next
  case False
  show thesis
    by (rule log_range_new [OF assms False], rule that) (auto simp: covered_def)
qed

text \<open>The log is what the bytes of its area say.\<close>

lemma log_same:
  assumes "log_wf m la" "ld64 m (log_offset_at la) \<le> cap"
    and same: "\<And>x. inr la (log_hdr_sz + cap) x \<Longrightarrow> cpu m' x = cpu m x"
  shows "log_wf m' la" "log_list m' la = log_list m la" "ld64 m' (log_offset_at la) = ld64 m (log_offset_at la)"
proof -
  let ?off = "ld64 m (log_offset_at la)" and ?c = "content_at la"
  show off: "ld64 m' (log_offset_at la) = ?off"
    by (rule ld64_cong, rule same) (auto simp: inr_def log_layout_defs)
  have tl: "ld64 m' (tail_ptr_at la) = ld64 m (tail_ptr_at la)"
    by (rule ld64_cong, rule same) (auto simp: inr_def log_layout_defs)
  have ex: "log_exact (cpu m) ?c ?off 0" using assms(1) by (simp add: log_wf_def)
  have in_c: "inr la (log_hdr_sz + cap) x" if "inr (?c + k) n x" "k + n \<le> ?off" for k n x
    using that assms(2) by (auto simp: inr_def log_layout_defs)
  have walk: "log_walk (cpu m') ?c ?off 0 = log_walk (cpu m) ?c ?off 0 \<and> log_exact (cpu m') ?c ?off 0"
    by (rule log_walk_cong [OF ex], rule same, rule in_c [of 0 ?off]) auto
  have ents: "log_entry_of (cpu m') (?c + k) = log_entry_of (cpu m) (?c + k)"
    if "k \<in> set (log_walk (cpu m) ?c ?off 0)" for k
    by (rule log_entry_of_cong, rule same, erule in_c) (use log_walk_in [OF ex that] in simp)
  show "log_wf m' la" using assms(1) walk off tl by (simp add: log_wf_def)
  show "log_list m' la = log_list m la"
    unfolding log_list_def off walk [THEN conjunct1] by (rule map_cong [OF refl ents])
qed

lemma log_wf_store:
  assumes "log_wf m la" "ld64 m (log_offset_at la) \<le> cap" "\<And>x. inr a (length bs) x \<Longrightarrow> outside_log la cap x"
  shows "log_wf (store a bs m) la" "log_list (store a bs m) la = log_list m la"
    "ld64 (store a bs m) (log_offset_at la) = ld64 m (log_offset_at la)"
  by (rule log_same [OF assms(1,2)], use assms(3) in \<open>auto simp: wr_def outside_log_def\<close>)+

text \<open>The model of log.cc provides the interface of \<open>undo_logging\<close>.\<close>

interpretation lr: undo_logging
  "\<lambda>g. log_list (mch g) la" "\<lambda>g. cpu (mch g)" "log_ok ops t la cap" "outside_log la cap"
  "log_fits la cap" "log_range ops t" "\<lambda>a bs. upd_mch (store a bs)"
  for ops t la cap
proof unfold_locales
  fix s :: "'a glob_scheme" and a n s' x and bs :: "byte list"
  assume i: "log_ok ops t la cap s" and r: "log_fits la cap a n s"
  note run = log_range_ok [OF i r]
  show "\<exists>s'. log_range ops t a n s = Inr s'" using run by metis
  assume e: "log_range ops t a n s = Inr s'"
  show "log_ok ops t la cap s'" by (rule run) (use e in simp)
  show "outside_log la cap x \<Longrightarrow> cpu (mch s') x = cpu (mch s) x" by (rule run) (use e in simp)
  show "log_list (mch s') la = log_list (mch s) la \<or>
      log_list (mch s') la = log_list (mch s) la @ [(a, rd (cpu (mch s)) a n)]"
    by (rule run) (use e in simp)
  show "inr a n x \<Longrightarrow> covered (log_list (mch s') la) x" by (rule run) (use e in simp)
next
  fix s :: "'a glob_scheme" and a n x and bs :: "byte list"
  assume i: "log_ok ops t la cap s" and r: "\<And>x. inr a (length bs) x \<Longrightarrow> outside_log la cap x"
  have w: "log_wf (mch s) la" and c: "ld64 (mch s) (log_offset_at la) \<le> cap" and la: "log_area (tls_logs s ! t) = la"
    using i by (auto simp: log_ok_def)
  note ws = log_wf_store [OF w c r]
  show "log_list (mch (upd_mch (store a bs) s)) la = log_list (mch s) la"
    by (simp add: upd_mch_def ws)
  show "log_ok ops t la cap (upd_mch (store a bs) s)"
    using i by (simp add: log_ok_def upd_mch_def ws last_log_ok_def la)
next
  fix s :: "'a glob_scheme" and a n x and bs :: "byte list"
  show "cpu (mch (upd_mch (store a bs) s)) = wr (cpu (mch s)) a bs" by (simp add: upd_mch_def)
  show "log_fits la cap a n s \<Longrightarrow> inr a n x \<Longrightarrow> outside_log la cap x"
    by (auto simp: log_fits_def outside_log_def inr_def)
qed

subsection \<open>Flushing\<close>

text \<open>
  A byte is pending when it is durable or the next drain makes it so.  \<open>flush_inv\<close>: the content bytes
  below \<open>log_area + last_flush_offset\<close> are pending.  The flush of \<open>log_range\<close> starts at \<open>log_area\<close>, not at the
  content, so it always trails the content by the 24 bytes of the header; \<open>flush_all\<close> makes up for them
  because it starts in the same cache line, provided it flushes at all.
\<close>

definition pending :: "mach \<Rightarrow> addr \<Rightarrow> bool" where
  "pending m x \<longleftrightarrow> inflight m x \<or> durable m x"

definition flush_inv :: "Log \<Rightarrow> mach \<Rightarrow> bool" where
  "flush_inv L m \<longleftrightarrow>
     (let la = log_area L; lfo = last_flush_offset L
      in la mod 64 = 0 \<and> lfo mod 64 = 0 \<and> lfo \<le> ld64 m (log_offset_at la) \<and>
         (\<forall>x. content_at la \<le> x \<and> x < la + lfo \<longrightarrow> pending m x))"

lemma pending_store: "\<not> inr a (length bs) x \<Longrightarrow> pending m x \<Longrightarrow> pending (store a bs m) x"
  by (auto simp: pending_def durable_def inflight_store media_store wr_apply_out)

lemma pending_flush: "pmem_ops_ok ops \<Longrightarrow> pending m x \<or> in_lines a n x \<Longrightarrow> pending (po_flush ops a n m) x"
  by (auto simp: pending_def durable_def pmem_cpu pmem_media intro: pmem_inflight)

lemma pending_drain: "pmem_ops_ok ops \<Longrightarrow> pending m x \<Longrightarrow> durable (po_drain ops m) x"
  by (auto simp: pending_def durable_def pmem_cpu pmem_media)

lemma round_up_64:
  assumes "l \<le> (n :: nat)"
  shows "l + ((n - l + 63) div 64 - 1) * 64 \<le> n"
proof -
  have "(n - l + 63) div 64 * 64 \<le> n - l + 63" by (rule div_times_less_eq_dividend)
  then have "((n - l + 63) div 64 - 1) * 64 \<le> n - l" by (simp add: algebra_simps)
  then show ?thesis using assms by linarith
qed

lemma round_up_64_exact:
  assumes "l \<le> n" "l mod 64 = 0" "n mod 64 = (0 :: nat)"
  shows "l + (n - l + 63) div 64 * 64 = n"
proof -
  obtain q where "n - l = 64 * q" using assms by (metis dvd_diff_nat dvd_def mod_0_imp_dvd)
  moreover from this have "(n - l + 63) div 64 = q" by simp
  ultimately show ?thesis using assms(1) by simp
qed

lemma flush_entry_inv:
  assumes ops: "pmem_ops_ok ops" and la: "log_area L mod 64 = 0" and lfo: "last_flush_offset L mod 64 = 0"
    and le: "last_flush_offset L \<le> ld64 m (log_offset_at (log_area L))"
    and small: "ld64 m (log_offset_at (log_area L)) + 63 < 2 ^ 64"
    and pend: "\<And>x. content_at (log_area L) \<le> x \<Longrightarrow> x < log_area L + last_flush_offset L \<Longrightarrow> pending m x"
  shows "flush_inv (fst (flush_entry ops L m)) (snd (flush_entry ops L m))"
proof -
  let ?la = "log_area L" and ?lfo = "last_flush_offset L" and ?off = "ld64 m (log_offset_at (log_area L))"
  define cls where "cls = (?off - ?lfo + 63) div 64"
  have cls: "uadd64 (usub64 ?off ?lfo) 63 div 64 = cls"
    using le small ld64_bound [of m "log_offset_at ?la"] by (simp add: usub64_ge uadd64_small cls_def)
  have keep: "flush_inv (L\<lparr>last_flush_offset := ?lfo + k * 64\<rparr>) (po_flush ops (?la + ?lfo) (k * 64) m)"
    if k: "?lfo + k * 64 \<le> ?off" for k
  proof -
    have "pending (po_flush ops (?la + ?lfo) (k * 64) m) x"
      if x: "content_at ?la \<le> x" "x < ?la + (?lfo + k * 64)" for x
    proof (rule pending_flush [OF ops], cases "x < ?la + ?lfo")
      case True
      then show "pending m x \<or> in_lines (?la + ?lfo) (k * 64) x" using pend x by blast
    next
      case False
      then show "pending m x \<or> in_lines (?la + ?lfo) (k * 64) x"
        using x inr_in_lines [of "?la + ?lfo" "k * 64" x] by (simp add: inr_def)
    qed
    moreover have "(?lfo + k * 64) mod 64 = 0" using lfo by simp
    ultimately show ?thesis using la k by (simp add: flush_inv_def ld64_def pmem_cpu [OF ops])
  qed
  show ?thesis
  proof (cases "?off mod 64 = 0")
    case True
    then have e: "?lfo + cls * 64 = ?off" unfolding cls_def using round_up_64_exact [OF le lfo] by metis
    show ?thesis using keep [of cls, unfolded e] True by (simp add: flush_entry_def Let_def cls)
  next
    case False
    have c: "?lfo + (cls - 1) * 64 \<le> ?off" unfolding cls_def by (rule round_up_64 [OF le])
    have u: "uadd64 ?lfo ((cls - 1) * 64) = ?lfo + (cls - 1) * 64"
      using c small by (simp add: uadd64_small)
    have "flush_inv L m" using la lfo le pend by (simp add: flush_inv_def)
    then show ?thesis using keep [OF c] False u by (simp add: flush_entry_def Let_def cls)
  qed
qed

lemma pending_write_entry:
  "\<not> inr p (log_entry_sz + n) x \<Longrightarrow> pending m x \<Longrightarrow> pending (write_entry p a n m) x"
  unfolding write_entry_def c_memmove_def set_ent_bytes_def set_ent_addr_def
  by (intro pending_store) (auto simp: inr_def log_entry_sz_def)

lemma pending_advance_tail:
  "\<not> inr (la + 8) 16 x \<Longrightarrow> pending m x \<Longrightarrow> pending (advance_tail la sz m) x"
  unfolding advance_tail_def Let_def st64_def log_offset_at_def tail_ptr_at_def
  by (intro pending_store) (auto simp: inr_def)

lemma log_range_flush_inv:
  assumes ok: "log_ok ops t la cap g" and fits: "log_fits la cap a n g"
    and cap: "cap + 63 < 2 ^ 64"
    and inv: "flush_inv (tls_logs g ! t) (mch g)" and run: "log_range ops t a n g = Inr g'"
  shows "flush_inv (tls_logs g' ! t) (mch g')"
proof (cases "last_log (tls_logs g ! t) = \<lparr>lean_addr = a, lean_bytes = n\<rparr>")
  case True
  have pre: "t < length (tls_logs g)" "log_area (tls_logs g ! t) \<noteq> 0" "cxlModeEnabled g" "n < 2 ^ 22"
    using ok fits by (auto simp: log_ok_def log_fits_def)
  then show ?thesis
    using run inv True by (auto simp: log_range_def Let_def upd_ctrs_def set_log_def flush_inv_def)
next
  case False
  have ops: "pmem_ops_ok ops" and t: "t < length (tls_logs g)" and la: "log_area (tls_logs g ! t) = la"
    and wf: "log_wf (mch g) la" and n: "n < 2 ^ 22" and a: "a < 2 ^ 56"
    and room: "ld64 (mch g) (log_offset_at la) + log_entry_sz + n \<le> cap"
    using ok fits by (auto simp: log_ok_def log_fits_def)
  obtain g1 L1 where g1: "log_range ops t a n g = Inr g1" and L1: "L1 = (tls_logs g ! t)
           \<lparr>entries := entries (tls_logs g ! t) @ [\<lparr>lean_addr = a, lean_bytes = n\<rparr>],
            last_log := \<lparr>lean_addr = a, lean_bytes = n\<rparr>\<rparr>"
    and fe: "mch g1 = snd (flush_entry ops L1 (log_range_mach (log_area L1) a n (mch g)))"
      "tls_logs g1 = (tls_logs g)[t := fst (flush_entry ops L1 (log_range_mach (log_area L1) a n (mch g)))]"
    by (rule log_range_run [OF log_ok_loggable [OF ok fits] False, of ops])
  have la1: "log_area L1 = la" "last_flush_offset L1 = last_flush_offset (tls_logs g ! t)"
    using L1 la by simp_all
  let ?m2 = "log_range_mach la a n (mch g)" and ?off = "ld64 (mch g) (log_offset_at la)"
  have tail: "ld64 (mch g) (tail_ptr_at la) = content_at la + ?off" using wf by (simp add: log_wf_def)
  have o2: "ld64 ?m2 (log_offset_at la) = ?off + log_entry_sz + n"
    by (rule log_range_mach_appends(3) [OF wf n a])
      (use ok fits in \<open>auto simp: log_ok_def log_fits_def content_at_def log_hdr_sz_def\<close>)
  have i: "la mod 64 = 0" "last_flush_offset L1 mod 64 = 0" "last_flush_offset L1 \<le> ?off"
    "\<And>x. content_at la \<le> x \<Longrightarrow> x < la + last_flush_offset L1 \<Longrightarrow> pending (mch g) x"
    using inv la la1 by (auto simp: flush_inv_def Let_def)
  have p2: "pending ?m2 x" if "content_at la \<le> x" "x < la + last_flush_offset L1" for x
    unfolding log_range_mach_def
    by (intro pending_advance_tail pending_write_entry i that)
      (use that i(3) in \<open>auto simp: inr_def content_at_def tail\<close>)
  have "flush_inv (fst (flush_entry ops L1 ?m2)) (snd (flush_entry ops L1 ?m2))"
    by (rule flush_entry_inv [OF ops]) (use i p2 o2 la1 cap room in auto)
  then show ?thesis using fe t la1 g1 run by simp
qed

text \<open>With a log offset that is not a multiple of 64, \<open>flush_all\<close> and a drain make the whole log durable.\<close>

lemma flush_all_pending:
  assumes ops: "pmem_ops_ok ops" and inv: "flush_inv L m"
    and nz: "ld64 m (log_offset_at (log_area L)) mod 64 \<noteq> 0"
    and x: "inr (content_at (log_area L)) (ld64 m (log_offset_at (log_area L))) x"
  shows "pending (flush_all ops L m) x"
proof -
  let ?la = "log_area L" and ?lfo = "last_flush_offset L" and ?off = "ld64 m (log_offset_at (log_area L))"
  have i: "?la mod 64 = 0" "?lfo mod 64 = 0" "?lfo \<le> ?off"
    "\<And>x. content_at ?la \<le> x \<Longrightarrow> x < ?la + ?lfo \<Longrightarrow> pending m x"
    using inv by (auto simp: flush_inv_def Let_def)
  have lt: "?lfo < ?off" using i nz by (metis le_neq_implies_less)
  have u: "usub64 ?off ?lfo = ?off - ?lfo" using i(3) ld64_bound usub64_ge by blast
  have "pending m x \<or> in_lines (content_at ?la + ?lfo) (?off - ?lfo) x"
  proof (cases "x < ?la + ?lfo")
    case True
    then show ?thesis using i(4) x by (simp add: inr_def)
  next
    case False
    have al: "(?la + ?lfo) mod 64 = 0" using i(1,2) by (metis add_0 mod_add_left_eq)
    then obtain q where q: "?la + ?lfo = 64 * q" by (metis mod_0_imp_dvd dvd_def)
    have "(?la + ?lfo + 24) div 64 = q" unfolding q by simp
    moreover have "q \<le> x div 64" using False q by (simp add: less_eq_div_iff_mult_less_eq)
    ultimately have le: "(content_at ?la + ?lfo) div 64 \<le> x div 64" by (simp add: content_at_def add_ac)
    have "x div 64 \<le> (content_at ?la + ?lfo + (?off - ?lfo) - 1) div 64"
      by (rule div_le_mono) (use x lt in \<open>auto simp: inr_def\<close>)
    then show ?thesis using lt le by (simp add: in_lines_def)
  qed
  then show ?thesis using lt u pending_flush [OF ops] by (simp add: flush_all_def Let_def)
qed

lemma media_store_mono: "b \<in> media m x \<Longrightarrow> b \<in> media (store a bs m) x"
  by (simp add: media_store)

lemma media_log_range_mach: "b \<in> media m x \<Longrightarrow> b \<in> media (log_range_mach la a n m) x"
  unfolding log_range_mach_def advance_tail_def Let_def write_entry_def c_memmove_def set_ent_bytes_def
    set_ent_addr_def st64_def
  by (intro media_store_mono)

lemma inflight_log_range_mach:
  "inr (ld64 m (tail_ptr_at la)) (log_entry_sz + n) x \<Longrightarrow> \<not> inflight (log_range_mach la a n m) x"
  unfolding log_range_mach_def advance_tail_def Let_def write_entry_def c_memmove_def set_ent_bytes_def
    set_ent_addr_def st64_def
  by (auto simp: inflight_store inr_def log_entry_sz_def)

lemma not_in_lines_above: "e mod 64 = 0 \<Longrightarrow> e \<le> x \<Longrightarrow> a + n \<le> e \<Longrightarrow> \<not> in_lines a n x"
proof
  assume e: "e mod 64 = 0" "e \<le> x" "a + n \<le> e" and l: "in_lines a n x"
  then obtain q where q: "e = 64 * q" by (metis mod_0_imp_dvd dvd_def)
  have "0 < n" "x div 64 \<le> (a + n - 1) div 64" using l by (auto simp: in_lines_def)
  moreover have "q \<le> x div 64" using e q by (simp add: less_eq_div_iff_mult_less_eq)
  moreover have "(a + n - 1) div 64 < q" using e \<open>0 < n\<close> q by (simp add: less_mult_imp_div_less)
  ultimately show False by simp
qed

lemma flush_entry_boundary:
  assumes "last_flush_offset L mod 64 = 0" "last_flush_offset L \<le> ld64 m (log_offset_at (log_area L))"
    and "ld64 m (log_offset_at (log_area L)) mod 64 = 0"
    and "ld64 m (log_offset_at (log_area L)) + 63 < 2 ^ 64"
  shows "flush_entry ops L m = (L\<lparr>last_flush_offset := ld64 m (log_offset_at (log_area L))\<rparr>,
     po_flush ops (log_area L + last_flush_offset L)
       (ld64 m (log_offset_at (log_area L)) - last_flush_offset L) m)"
proof -
  let ?lfo = "last_flush_offset L" and ?off = "ld64 m (log_offset_at (log_area L))"
  have "uadd64 (usub64 ?off ?lfo) 63 = ?off - ?lfo + 63"
    using assms(2,4) ld64_bound [of m "log_offset_at (log_area L)"] by (simp add: usub64_ge uadd64_small)
  moreover have "(?off - ?lfo + 63) div 64 * 64 = ?off - ?lfo"
    using round_up_64_exact [OF assms(2,1,3)] by linarith
  ultimately show ?thesis using assms(3) unfolding flush_entry_def Let_def by presburger
qed

lemma log_range_boundary:
  assumes ok: "log_ok clwb_ops t la cap g" and fits: "log_fits la cap a n g"
    and new: "last_log (tls_logs g ! t) \<noteq> \<lparr>lean_addr = a, lean_bytes = n\<rparr>"
    and cap: "cap + 63 < 2 ^ 64" and inv: "flush_inv (tls_logs g ! t) (mch g)"
    and off': "off' = ld64 (mch g) (log_offset_at la) + log_entry_sz + n" "off' mod 64 = 0"
    and run: "log_range clwb_ops t a n g = Inr g'"
  shows "flush_all clwb_ops (tls_logs g' ! t) (mch g') = mch g'"
    and "inr (la + off') 24 x \<Longrightarrow> la + 24 + ld64 (mch g) (log_offset_at la) \<le> x \<Longrightarrow> \<not> inflight (mch g') x"
    and "b \<in> media (mch g) x \<Longrightarrow> b \<in> media (mch g') x"
proof -
  have t: "t < length (tls_logs g)" and la: "log_area (tls_logs g ! t) = la" and wf: "log_wf (mch g) la"
    and n: "n < 2 ^ 22" and a: "a < 2 ^ 56" and room: "off' \<le> cap"
    using ok fits off' by (auto simp: log_ok_def log_fits_def)
  obtain g1 L1 where g1: "log_range clwb_ops t a n g = Inr g1" and L1: "L1 = (tls_logs g ! t)
           \<lparr>entries := entries (tls_logs g ! t) @ [\<lparr>lean_addr = a, lean_bytes = n\<rparr>],
            last_log := \<lparr>lean_addr = a, lean_bytes = n\<rparr>\<rparr>"
    and fe: "mch g1 = snd (flush_entry clwb_ops L1 (log_range_mach (log_area L1) a n (mch g)))"
      "tls_logs g1 = (tls_logs g)[t := fst (flush_entry clwb_ops L1 (log_range_mach (log_area L1) a n (mch g)))]"
    by (rule log_range_run [OF log_ok_loggable [OF ok fits] new, of clwb_ops])
  have la1: "log_area L1 = la" "last_flush_offset L1 = last_flush_offset (tls_logs g ! t)"
    using L1 la by simp_all
  let ?m2 = "log_range_mach la a n (mch g)" and ?lfo = "last_flush_offset (tls_logs g ! t)"
  have i: "la mod 64 = 0" "?lfo mod 64 = 0" "?lfo \<le> ld64 (mch g) (log_offset_at la)"
    using inv la by (auto simp: flush_inv_def Let_def)
  have o2: "ld64 ?m2 (log_offset_at la) = off'" unfolding off'(1)
    by (rule log_range_mach_appends(3) [OF wf n a])
      (use ok fits in \<open>auto simp: log_ok_def log_fits_def content_at_def log_hdr_sz_def\<close>)
  have le: "?lfo \<le> off'" using i off' by simp
  have "flush_entry clwb_ops L1 ?m2 =
      (L1\<lparr>last_flush_offset := off'\<rparr>, clwb_flush (la + ?lfo) (off' - ?lfo) ?m2)"
    using flush_entry_boundary [of L1 ?m2 clwb_ops] i le o2 la1 off'(2) cap room by (simp add: clwb_ops_def)
  then have g': "mch g' = clwb_flush (la + ?lfo) (off' - ?lfo) ?m2"
    "tls_logs g' ! t = L1\<lparr>last_flush_offset := off'\<rparr>"
    using fe la1 t g1 run by auto
  show "flush_all clwb_ops (tls_logs g' ! t) (mch g') = mch g'"
    using g' o2 la1 by (simp add: flush_all_def clwb_flush_def ld64_def)
  show "b \<in> media (mch g) x \<Longrightarrow> b \<in> media (mch g') x"
    using g'(1) by (simp add: clwb_flush_def media_log_range_mach)
  assume x: "inr (la + off') 24 x" "la + 24 + ld64 (mch g) (log_offset_at la) \<le> x"
  have "\<not> in_lines (la + ?lfo) (off' - ?lfo) x"
    by (rule not_in_lines_above [of "la + off'"]) (use i off'(2) x le in \<open>auto simp: inr_def mod_add_eq [symmetric]\<close>)
  moreover have "\<not> inflight ?m2 x"
    by (rule inflight_log_range_mach) (use x wf off' in \<open>auto simp: inr_def log_wf_def content_at_def\<close>)
  ultimately show "\<not> inflight (mch g') x" using g'(1) by (simp add: clwb_flush_def)
qed

subsection \<open>Correctness of the log\<close>

definition demo_mach :: mach where
  "demo_mach = st64 4112 4120 \<lparr>cpu = (\<lambda>x. 0), media = (\<lambda>x. {0}), inflight = (\<lambda>x. False)\<rparr>"

definition demo_ctrs :: counters where
  "demo_ctrs = \<lparr>n_snapshots = 0, n_real_msyncs = 0, skip_check_count = 0, logged_check_count = 0,
     dup_log_entries = 0, back_to_back_dup_log = 0, total_log_entries = 0, total_pers_log_entries = 0,
     mergeable_entries = 0, total_bytes_wr = 0, total_bytes_wr_strm = 0, tx_log_count_dist = []\<rparr>"

definition demo_log :: Log where
  "demo_log = \<lparr>last_log = lean_zero, last_flush_offset = 0, entries = [], log_area = 4096\<rparr>"

definition demo_glob :: glob where
  "demo_glob = \<lparr>mch = demo_mach, start_addr = 2 ^ 40, end_addr = 2 ^ 41, startTracking = True,
     storeInstEnabled = True, cxlModeEnabled = True, firstSnapshot = False, nopMsync = False,
     constructor_init_done = True, log_loc = ''/mnt/pmem0/cxlbuf_logs/'', backing_file_start = 2 ^ 41,
     tls_logs = [demo_log], mapped_addr = [], mmap_start = 2 ^ 40, ctrs = demo_ctrs\<rparr>"

lemma demo_offset [simp]: "ld64 demo_mach 4104 = 0"
  by (simp add: demo_mach_def ld64_st64_disj) (simp add: ld64_def ldn_def rd_def numeral_eq_Suc)

lemma demo_tail [simp]: "ld64 demo_mach 4112 = 4120"
  by (simp add: demo_mach_def ld64_st64_same)

lemma demo_wf: "log_wf demo_mach 4096" "log_list demo_mach 4096 = []"
  by (simp_all add: log_wf_def log_list_def log_layout_defs log_exact.simps log_walk.simps)

lemma demo_log_ok: "log_ok clwb_ops 0 4096 65536 demo_glob"
  using demo_wf clwb_ops_ok
  by (simp add: log_ok_def demo_glob_def demo_log_def log_offset_at_def content_at_def last_log_ok_def)

lemma demo_fits: "a = 2 ^ 40 \<Longrightarrow> n < 1000 \<Longrightarrow> log_fits 4096 65536 a n demo_glob"
  by (simp add: log_fits_def demo_glob_def log_layout_defs)

text \<open>
  C6: a call of \<open>log_range\<close> on a range that differs from the previous one succeeds, keeps the
  invariant of the log, adds exactly one entry at its end, holding the address and the old bytes of the range, keeps
  every earlier entry, and changes no byte outside the log.
\<close>

theorem log_range_appends:
  assumes "log_ok ops t la cap g" and "log_fits la cap a n g"
    and "last_log (tls_logs g ! t) \<noteq> \<lparr>lean_addr = a, lean_bytes = n\<rparr>"
  shows "\<exists>g'. log_range ops t a n g = Inr g' \<and> log_ok ops t la cap g' \<and>
    log_list (mch g') la = log_list (mch g) la @ [(a, rd (cpu (mch g)) a n)] \<and>
    entries (tls_logs g' ! t) = entries (tls_logs g ! t) @ [\<lparr>lean_addr = a, lean_bytes = n\<rparr>] \<and>
    (\<forall>x. outside_log la cap x \<longrightarrow> cpu (mch g') x = cpu (mch g) x)"
  by (rule log_range_new [OF assms]) blast

theorem log_range_appends_witness:
  "\<exists>g'. log_range clwb_ops 0 (2 ^ 40) 8 demo_glob = Inr g' \<and> log_ok clwb_ops 0 4096 65536 g' \<and>
    log_list (mch g') 4096 = log_list (mch demo_glob) 4096 @ [(2 ^ 40, rd (cpu (mch demo_glob)) (2 ^ 40) 8)] \<and>
    entries (tls_logs g' ! 0) = entries (tls_logs demo_glob ! 0) @ [\<lparr>lean_addr = 2 ^ 40, lean_bytes = 8\<rparr>] \<and>
    (\<forall>x. outside_log 4096 65536 x \<longrightarrow> cpu (mch g') x = cpu (mch demo_glob) x)"
  by (rule log_range_appends [OF demo_log_ok demo_fits])
    (simp_all add: demo_glob_def demo_log_def lean_zero_def)

text \<open>
  C20: the packed header of an entry round-trips.  After the three stores of \<open>log_range\<close> the 56-bit
  address field reads the address modulo \<open>2 ^ 56\<close>, the 23-bit length field the length modulo \<open>2 ^ 23\<close>, the disabled
  bit is what it was, and the bytes after the header are the bytes of the range as the header stores left them.
\<close>

theorem write_entry_roundtrip:
  "ent_addr (cpu (write_entry p start bytes m)) p = start mod 2 ^ 56 \<and>
   ent_bytes (cpu (write_entry p start bytes m)) p = bytes mod 2 ^ 23 \<and>
   ent_disabled (cpu (write_entry p start bytes m)) p = ent_disabled (cpu m) p \<and>
   rd (cpu (write_entry p start bytes m)) (p + log_entry_sz) bytes =
     rd (cpu (set_ent_bytes p bytes (set_ent_addr p start m))) start bytes"
proof -
  let ?m1 = "set_ent_bytes p bytes (set_ent_addr p start m)"
  have e: "ent_bytes (cpu (write_entry p start bytes m)) p = ent_bytes (cpu ?m1) p"
    "ent_addr (cpu (write_entry p start bytes m)) p = ent_addr (cpu ?m1) p"
    by (rule ent_cong; auto simp: write_entry_def wr_def inr_def)+
  have "ldn (cpu (write_entry p start bytes m)) p 3 = ldn (cpu ?m1) p 3"
    by (rule ldn_cong) (auto simp: write_entry_def wr_def inr_def log_entry_sz_def)
  then have "ent_disabled (cpu (write_entry p start bytes m)) p = ent_disabled (cpu ?m1) p"
    by (simp add: ent_disabled_def)
  moreover have "ent_disabled (cpu (set_ent_addr p start m)) p = ent_disabled (cpu m) p"
    by (simp add: ent_disabled_def set_ent_addr_def ldn_wr_disj)
  ultimately show ?thesis using e by (simp add: write_entry_def)
qed

text \<open>
  C19: when the log offset is not a multiple of the line size, \<open>flush_all\<close> and a drain make every
  content byte of the log durable, whatever was flushed before.
\<close>

theorem flush_all_durable:
  assumes "pmem_ops_ok ops" and "flush_inv L m" and "ld64 m (log_offset_at (log_area L)) mod 64 \<noteq> 0"
    and "inr (content_at (log_area L)) (ld64 m (log_offset_at (log_area L))) x"
  shows "durable (po_drain ops (flush_all ops L m)) x"
  by (rule pending_drain [OF assms(1) flush_all_pending [OF assms]])

theorem flush_all_durable_witness:
  "durable (po_drain clwb_ops (flush_all clwb_ops demo_log (st64 4104 18 demo_mach))) 4121"
proof (rule flush_all_durable [OF clwb_ops_ok])
  have o': "ld64 (st64 4104 18 demo_mach) 4104 = 18" by (simp add: ld64_st64_same)
  show "flush_inv demo_log (st64 4104 18 demo_mach)"
    by (auto simp: flush_inv_def demo_log_def log_layout_defs)
  show "ld64 (st64 4104 18 demo_mach) (log_offset_at (log_area demo_log)) mod 64 \<noteq> 0"
    using o' by (simp add: demo_log_def log_layout_defs)
  show "inr (content_at (log_area demo_log)) (ld64 (st64 4104 18 demo_mach) (log_offset_at (log_area demo_log))) 4121"
    using o' by (simp add: demo_log_def log_layout_defs inr_def)
qed

text \<open>
  C33: when an entry ends on a line boundary of the log offset, the flush of \<open>log_range\<close> leaves the
  last 24 bytes of the entry out, because it starts at the header and not at the content, and \<open>flush_all\<close> then does
  nothing: after the drain a crash may still find the bytes that were there before the entry was written.
\<close>

theorem log_tail_not_flushed:
  assumes "log_ok clwb_ops t la cap g" and "log_fits la cap a n g"
    and "last_log (tls_logs g ! t) \<noteq> \<lparr>lean_addr = a, lean_bytes = n\<rparr>"
    and "cap + 63 < 2 ^ 64" and "flush_inv (tls_logs g ! t) (mch g)"
    and "(ld64 (mch g) (log_offset_at la) + log_entry_sz + n) mod 64 = 0"
    and "log_range clwb_ops t a n g = Inr g'"
    and "inr (la + (ld64 (mch g) (log_offset_at la) + log_entry_sz + n)) 24 x"
    and "la + 24 + ld64 (mch g) (log_offset_at la) \<le> x"
    and "b \<in> media (mch g) x"
  shows "b \<in> media (po_drain clwb_ops (flush_all clwb_ops (tls_logs g' ! t) (mch g'))) x"
proof -
  note l = log_range_boundary [OF assms(1-5) refl assms(6,7)]
  show ?thesis
    using l(2) [OF assms(8,9)] l(3) [OF assms(10)] unfolding l(1)
    by (simp add: clwb_ops_def clwb_drain_def)
qed

theorem log_tail_not_flushed_witness:
  "\<exists>g'. log_range clwb_ops 0 (2 ^ 40) 54 demo_glob = Inr g' \<and>
    0 \<in> media (po_drain clwb_ops (flush_all clwb_ops (tls_logs g' ! 0) (mch g'))) 4161"
proof -
  have new: "last_log (tls_logs demo_glob ! 0) \<noteq> \<lparr>lean_addr = 2 ^ 40, lean_bytes = 54\<rparr>"
    by (simp add: demo_glob_def demo_log_def lean_zero_def)
  obtain g' where g': "log_range clwb_ops 0 (2 ^ 40) 54 demo_glob = Inr g'"
    by (rule log_range_new [OF demo_log_ok demo_fits new]) simp_all
  have o': "ld64 (mch demo_glob) (log_offset_at 4096) = 0" by (simp add: demo_glob_def log_offset_at_def)
  have m: "media (mch demo_glob) 4161 = {0}"
    by (simp add: demo_glob_def demo_mach_def st64_def media_store inr_def)
  have f: "flush_inv (tls_logs demo_glob ! 0) (mch demo_glob)"
    by (auto simp: flush_inv_def demo_glob_def demo_log_def log_layout_defs)
  have "0 \<in> media (po_drain clwb_ops (flush_all clwb_ops (tls_logs g' ! 0) (mch g'))) 4161"
    by (rule log_tail_not_flushed [OF demo_log_ok demo_fits new _ f _ g'])
      (simp_all add: o' m inr_def log_entry_sz_def)
  then show ?thesis using g' by blast
qed

end
