(* ===== verification/Intercept.thy ===== *)
theory Intercept
  imports UndoLog
begin

text \<open>
  The calls of the program that libstoreinst intercepts before they store: memcpy, memmove and memset of libc\_wrappers.cc, the
  instrumentation hook \<^verbatim>\<open>checkMemory\<close> of libstoreinst.cc, and the range test of utils.cc.  Each logs the old contents of the
  range it is about to change and then calls the C library, \<open>c_memmove\<close> or \<open>c_memset\<close>; the hook is followed by the program's own
  store.  \<^verbatim>\<open>init_dlsyms\<close> has resolved the C library's functions.

  Through the interface \<open>undo_logging\<close>, which the log provides, every sequence of such calls is undone by the log.
\<close>

subsection \<open>Definitions\<close>

definition addr_in_range :: "'z glob_scheme \<Rightarrow> addr \<Rightarrow> bool" where
  "addr_in_range g a \<longleftrightarrow> start_addr g \<le> a \<and> a \<le> end_addr g"

definition memcpy :: "pmem_ops \<Rightarrow> nat \<Rightarrow> addr \<Rightarrow> addr \<Rightarrow> nat \<Rightarrow> 'z glob_scheme \<Rightarrow> 'z glob_scheme res" where
  "memcpy ops t dst src n g =
     bindR (if startTracking g \<and> start_addr g \<noteq> 0 \<and> addr_in_range g dst then log_range ops t dst n g else Inr g)
       (\<lambda>g'. Inr (upd_mch (c_memmove dst src n) g'))"

definition memmove :: "pmem_ops \<Rightarrow> nat \<Rightarrow> addr \<Rightarrow> addr \<Rightarrow> nat \<Rightarrow> 'z glob_scheme \<Rightarrow> 'z glob_scheme res" where
  "memmove ops t dst src n g =
     bindR (if startTracking g \<and> start_addr g \<noteq> 0 \<and> addr_in_range g dst then log_range ops t dst n g else Inr g)
       (\<lambda>g'. Inr (upd_mch (c_memmove dst src n) g'))"

definition memset :: "pmem_ops \<Rightarrow> nat \<Rightarrow> addr \<Rightarrow> int \<Rightarrow> nat \<Rightarrow> 'z glob_scheme \<Rightarrow> 'z glob_scheme res" where
  "memset ops t s c n g =
     bindR (if addr_in_range g s \<or> addr_in_range g (uadd64 s n)
            then if startTracking g then log_range ops t s n g else Inr g
            else Inr g)
       (\<lambda>g'. Inr (upd_mch (c_memset s (word_of_int c) n) g'))"

definition checkMemory :: "pmem_ops \<Rightarrow> nat \<Rightarrow> addr \<Rightarrow> 'z glob_scheme \<Rightarrow> 'z glob_scheme res" where
  "checkMemory ops t ptr g =
     (if startTracking g
      then if start_addr g \<le> ptr \<and> ptr < end_addr g then log_range ops t ptr 8 g else Inr g
      else Inr g)"

subsection \<open>A program's stores\<close>

text \<open>An instrumented program: calls of the three functions, and stores preceded by the hook.\<close>

datatype icall =
    Memcpy addr addr nat
  | Memmove addr addr nat
  | Memset addr int nat
  | Store addr "byte list"

fun run_icall :: "pmem_ops \<Rightarrow> nat \<Rightarrow> icall \<Rightarrow> 'z glob_scheme \<Rightarrow> 'z glob_scheme res" where
  "run_icall ops t (Memcpy d s n) g = memcpy ops t d s n g"
| "run_icall ops t (Memmove d s n) g = memmove ops t d s n g"
| "run_icall ops t (Memset s c n) g = memset ops t s c n g"
| "run_icall ops t (Store a bs) g = bindR (checkMemory ops t a g) (\<lambda>g'. Inr (upd_mch (store a bs) g'))"

fun run_icalls :: "pmem_ops \<Rightarrow> nat \<Rightarrow> icall list \<Rightarrow> 'z glob_scheme \<Rightarrow> 'z glob_scheme res" where
  "run_icalls ops t [] g = Inr g"
| "run_icalls ops t (c # cs) g = bindR (run_icall ops t c g) (run_icalls ops t cs)"

fun icall_range :: "icall \<Rightarrow> addr \<times> nat" where
  "icall_range (Memcpy d s n) = (d, n)"
| "icall_range (Memmove d s n) = (d, n)"
| "icall_range (Memset s c n) = (s, n)"
| "icall_range (Store a bs) = (a, 8)"

text \<open>The call changes a range that starts in the tracked space and that the log has room for; a store is at most 8 bytes wide.\<close>

fun icall_fits :: "addr \<Rightarrow> nat \<Rightarrow> icall \<Rightarrow> 'z glob_scheme \<Rightarrow> bool" where
  "icall_fits la cap c g \<longleftrightarrow>
     startTracking g \<and> start_addr g \<noteq> 0 \<and> start_addr g \<le> fst (icall_range c) \<and> fst (icall_range c) < end_addr g \<and>
     log_fits la cap (fst (icall_range c)) (snd (icall_range c)) g \<and> (\<forall>a bs. c = Store a bs \<longrightarrow> length bs \<le> 8)"

fun icalls_fit :: "pmem_ops \<Rightarrow> nat \<Rightarrow> addr \<Rightarrow> nat \<Rightarrow> icall list \<Rightarrow> 'z glob_scheme \<Rightarrow> bool" where
  "icalls_fit ops t la cap [] g \<longleftrightarrow> True"
| "icalls_fit ops t la cap (c # cs) g \<longleftrightarrow> icall_fits la cap c g \<and>
     (case run_icall ops t c g of Inl e \<Rightarrow> True | Inr g' \<Rightarrow> icalls_fit ops t la cap cs g')"

lemma run_icall_logged:
  assumes "icall_fits la cap c g"
  shows "\<exists>f. (\<forall>g1. length (f g1) \<le> snd (icall_range c)) \<and>
    run_icall ops t c g = bindR (log_range ops t (fst (icall_range c)) (snd (icall_range c)) g)
      (\<lambda>g1. Inr (upd_mch (store (fst (icall_range c)) (f g1)) g1))"
proof (cases c)
  case (Memcpy d s n)
  then show ?thesis using assms
    by (intro exI [of _ "\<lambda>g1. rd (cpu (mch g1)) s n"]) (simp add: memcpy_def addr_in_range_def upd_mch_def c_memmove_def)
next
  case (Memmove d s n)
  then show ?thesis using assms
    by (intro exI [of _ "\<lambda>g1. rd (cpu (mch g1)) s n"]) (simp add: memmove_def addr_in_range_def upd_mch_def c_memmove_def)
next
  case (Memset s v n)
  then show ?thesis using assms
    by (intro exI [of _ "\<lambda>g1. replicate n (word_of_int v)"]) (simp add: memset_def addr_in_range_def upd_mch_def c_memset_def)
next
  case (Store a bs)
  then show ?thesis using assms by (intro exI [of _ "\<lambda>g1. bs"]) (simp add: checkMemory_def)
qed

lemma run_icall_undoable:
  assumes ok: "log_ok ops t la cap g" and fit: "icall_fits la cap c g"
    and u: "undoable (outside_log la cap) m0 (log_list (mch g) la) (cpu (mch g))"
  obtains g' where "run_icall ops t c g = Inr g'" "log_ok ops t la cap g'"
    "undoable (outside_log la cap) m0 (log_list (mch g') la) (cpu (mch g'))"
proof -
  obtain f where f: "\<And>g1. length (f g1) \<le> snd (icall_range c)"
    "run_icall ops t c g = bindR (log_range ops t (fst (icall_range c)) (snd (icall_range c)) g)
      (\<lambda>g1. Inr (upd_mch (store (fst (icall_range c)) (f g1)) g1))"
    using run_icall_logged [OF fit] by blast
  have r: "log_fits la cap (fst (icall_range c)) (snd (icall_range c)) g" using fit by simp
  obtain g1 where g1: "log_range ops t (fst (icall_range c)) (snd (icall_range c)) g = Inr g1"
    using lr.log_runs [OF ok r] by blast
  show thesis using that lr.put_undoable [OF ok r g1 f(1) u] f(2) g1 by simp
qed

lemma run_icalls_undoable:
  "log_ok ops t la cap g \<Longrightarrow> icalls_fit ops t la cap cs g \<Longrightarrow>
     undoable (outside_log la cap) m0 (log_list (mch g) la) (cpu (mch g)) \<Longrightarrow>
     \<exists>g'. run_icalls ops t cs g = Inr g' \<and> log_ok ops t la cap g' \<and>
       undoable (outside_log la cap) m0 (log_list (mch g') la) (cpu (mch g'))"
proof (induction cs arbitrary: g)
  case (Cons c cs)
  have fit: "icall_fits la cap c g" using Cons.prems(2) by simp
  obtain g1 where "run_icall ops t c g = Inr g1" "log_ok ops t la cap g1"
    "undoable (outside_log la cap) m0 (log_list (mch g1) la) (cpu (mch g1))"
    by (rule run_icall_undoable [OF Cons.prems(1) fit Cons.prems(3)])
  then show ?case using Cons.IH [of g1] Cons.prems(2) by simp
qed simp

subsection \<open>Properties\<close>

text \<open>
  C7: everything an instrumented program does to tracked memory can be undone.  After any sequence of intercepted
  calls and instrumented stores, started with an empty log, writing the log's entries back in reverse order restores every
  byte outside the log to its value at the start, also when a crash kept only some of the new bytes of the logged ranges.
\<close>

theorem instrumented_stores_undone:
  assumes "log_ok ops t la cap g" and "log_list (mch g) la = []" and "icalls_fit ops t la cap cs g"
  shows "\<exists>g'. run_icalls ops t cs g = Inr g' \<and> log_ok ops t la cap g' \<and>
    (\<forall>im x. (\<forall>y. outside_log la cap y \<and> \<not> covered (log_list (mch g') la) y \<longrightarrow> im y = cpu (mch g') y) \<and> outside_log la cap x \<longrightarrow>
       undo_all (log_list (mch g') la) im x = cpu (mch g) x)"
proof -
  have u0: "undoable (outside_log la cap) (cpu (mch g)) (log_list (mch g) la) (cpu (mch g))"
    by (simp add: assms(2) undoable_refl)
  obtain g' where g': "run_icalls ops t cs g = Inr g'" "log_ok ops t la cap g'"
    "undoable (outside_log la cap) (cpu (mch g)) (log_list (mch g') la) (cpu (mch g'))"
    using run_icalls_undoable [OF assms(1,3) u0] by blast
  have "undo_all (log_list (mch g') la) im x = cpu (mch g) x"
    if im: "\<forall>y. outside_log la cap y \<and> \<not> covered (log_list (mch g') la) y \<longrightarrow> im y = cpu (mch g') y"
      and x: "outside_log la cap x" for im x
    using undoable_change [OF g'(3), of im] im x by (auto simp: undoable_def)
  then show ?thesis using g'(1,2) by blast
qed

theorem instrumented_stores_undone_witness:
  "\<exists>g'. run_icalls clwb_ops 0 [Memset (2 ^ 40 + 64) 7 32] demo_glob = Inr g' \<and> log_ok clwb_ops 0 4096 65536 g' \<and>
    undo_all (log_list (mch g') 4096) (cpu (mch g')) (2 ^ 40 + 64) = cpu (mch demo_glob) (2 ^ 40 + 64)"
proof -
  have "log_list (mch demo_glob) 4096 = []" using demo_wf by (simp add: demo_glob_def)
  moreover have "log_fits 4096 65536 (2 ^ 40 + 64) 32 demo_glob" by (simp add: log_fits_def demo_glob_def log_layout_defs)
  then have "icalls_fit clwb_ops 0 4096 65536 [Memset (2 ^ 40 + 64) 7 32] demo_glob"
    by (simp add: demo_glob_def split: sum.split)
  moreover have "outside_log 4096 65536 (2 ^ 40 + 64)" by (simp add: outside_log_def log_layout_defs inr_def)
  ultimately show ?thesis using instrumented_stores_undone [OF demo_log_ok] by blast
qed



end
