(* ===== verification/StoreInstPass.thy ===== *)
theory StoreInstPass
  imports Intercept
begin

text \<open>
  The compiler pass of storeinst-pass/storeinst.cc, which calls the hook \<open>checkMemory\<close> before every store that
  it does not know to write to the stack. A function is a list of basic blocks and a block a list of
  instructions; a value is a number. Instructions the pass passes over are \<open>OtherInst\<close>. The alias
  analysis, the order in which the hash map of stack values is visited and whether the analysis manager is
  empty are parameters.

  The second half gives the instructions a meaning on the state of the library and shows that, when the
  alias analysis is right, an instrumented function behaves as if the hook came before every store.
\<close>

section \<open>The pass\<close>

datatype alias_result = NoAlias | MayAlias | PartialAlias | MustAlias

datatype instr =
    StoreInst nat nat
  | AllocaInst nat
  | BitCastInst nat nat
  | CheckMemoryCall nat
  | OtherInst nat

record counts =
  modCount :: nat
  skipCount :: nat
  aliasedLocationFound :: nat
  exactLocationMatchFound :: nat

fun writesToStackLocation ::
  "(nat \<Rightarrow> nat \<Rightarrow> alias_result) \<Rightarrow> nat \<Rightarrow> (nat \<times> bool) list \<Rightarrow> counts \<Rightarrow> bool \<times> counts" where
  "writesToStackLocation aa instValue [] c = (False, c)"
| "writesToStackLocation aa instValue ((stackValue, isLocOnStack) # sv) c =
     (if isLocOnStack
      then if stackValue = instValue
           then (True, c\<lparr>exactLocationMatchFound := uadd64 (exactLocationMatchFound c) 1\<rparr>)
           else if aa stackValue instValue = MustAlias
           then (True, c\<lparr>aliasedLocationFound := uadd64 (aliasedLocationFound c) 1\<rparr>)
           else writesToStackLocation aa instValue sv c
      else writesToStackLocation aa instValue sv c)"

text \<open>
  The state of \<open>analyseFunc\<close>: the stack values, the number the next value gets, and the counters. The two new
  instructions go in front of the store, where the iterator has passed.
\<close>

type_synonym pass_state = "(nat \<times> bool) list \<times> nat \<times> counts"

fun analyse_instr ::
  "(nat \<Rightarrow> nat \<Rightarrow> alias_result) \<Rightarrow> ((nat \<times> bool) list \<Rightarrow> (nat \<times> bool) list) \<Rightarrow> instr \<Rightarrow> pass_state \<Rightarrow>
     instr list \<times> pass_state" where
  "analyse_instr aa order (StoreInst v ptr) (sv, n, c) =
     (case writesToStackLocation aa ptr (order sv) c of
        (False, c) \<Rightarrow> ([BitCastInst n ptr, CheckMemoryCall n, StoreInst v ptr],
                      sv, n + 1, c\<lparr>modCount := uadd64 (modCount c) 1\<rparr>)
      | (True, c) \<Rightarrow> ([StoreInst v ptr], sv, n, c\<lparr>skipCount := uadd64 (skipCount c) 1\<rparr>))"
| "analyse_instr aa order (AllocaInst ai) (sv, n, c) =
     ([AllocaInst ai], (ai, True) # filter (\<lambda>e. fst e \<noteq> ai) sv, n, c)"
| "analyse_instr aa order i (sv, n, c) = ([i], sv, n, c)"

fun analyse_block ::
  "(nat \<Rightarrow> nat \<Rightarrow> alias_result) \<Rightarrow> ((nat \<times> bool) list \<Rightarrow> (nat \<times> bool) list) \<Rightarrow> instr list \<Rightarrow> pass_state \<Rightarrow>
     instr list \<times> pass_state" where
  "analyse_block aa order [] st = ([], st)"
| "analyse_block aa order (i # is) st =
     (let (os, st1) = analyse_instr aa order i st;
          (os', st2) = analyse_block aa order is st1
      in (os @ os', st2))"

fun analyse_blocks ::
  "(nat \<Rightarrow> nat \<Rightarrow> alias_result) \<Rightarrow> ((nat \<times> bool) list \<Rightarrow> (nat \<times> bool) list) \<Rightarrow> instr list list \<Rightarrow> pass_state \<Rightarrow>
     instr list list \<times> pass_state" where
  "analyse_blocks aa order [] st = ([], st)"
| "analyse_blocks aa order (b # bs) st =
     (let (b', st1) = analyse_block aa order b st;
          (bs', st2) = analyse_blocks aa order bs st1
      in (b' # bs', st2))"

definition analyseFunc ::
  "(nat \<Rightarrow> nat \<Rightarrow> alias_result) \<Rightarrow> ((nat \<times> bool) list \<Rightarrow> (nat \<times> bool) list) \<Rightarrow> instr list list \<Rightarrow> nat \<times> counts \<Rightarrow>
     instr list list \<times> nat \<times> counts" where
  "analyseFunc aa order f st =
     (let (f', sv, st') = analyse_blocks aa order f ([], fst st, snd st) in (f', st'))"

text \<open>
  A module. An entry of the annotation table names what is annotated, a function or something else, and the
  text of the annotation.
\<close>

record global_var =
  gname :: string
  annotations :: "(nat option \<times> string) list option"

record llvm_function =
  fid :: nat
  fblocks :: "instr list list"

record llvm_module =
  mglobals :: "global_var list"
  mfunctions :: "llvm_function list"

definition DontAutoLogStr :: string where
  "DontAutoLogStr = ''CXLBUF_DONT_AUTO_LOG''"

fun annotated_entries :: "(nat option \<times> string) list \<Rightarrow> nat set \<Rightarrow> nat set res" where
  "annotated_entries [] result = Inr result"
| "annotated_entries ((F, annotation) # es) result =
     (if annotation = DontAutoLogStr
      then case F of None \<Rightarrow> Inl NullDeref | Some f \<Rightarrow> annotated_entries es (insert f result)
      else annotated_entries es result)"

fun annotated_globals :: "global_var list \<Rightarrow> nat set \<Rightarrow> nat set res" where
  "annotated_globals [] result = Inr result"
| "annotated_globals (g # gs) result =
     (if gname g = ''llvm.global.annotations''
      then case annotations g of
             None \<Rightarrow> Inl NullDeref
           | Some CA \<Rightarrow> bindR (annotated_entries CA result) (annotated_globals gs)
      else annotated_globals gs result)"

definition getAnnotatedFunctions :: "llvm_module \<Rightarrow> nat set res" where
  "getAnnotatedFunctions M = annotated_globals (mglobals M) {}"

fun run_functions ::
  "bool \<Rightarrow> (nat \<Rightarrow> nat \<Rightarrow> nat \<Rightarrow> alias_result) \<Rightarrow> ((nat \<times> bool) list \<Rightarrow> (nat \<times> bool) list) \<Rightarrow> nat set \<Rightarrow>
     llvm_function list \<Rightarrow> nat \<times> counts \<Rightarrow> (llvm_function list \<times> nat \<times> counts) res" where
  "run_functions fam_empty aam order annotFuncs [] st = Inr ([], st)"
| "run_functions fam_empty aam order annotFuncs (f # fs) st =
     (if fblocks f \<noteq> [] \<and> fid f \<notin> annotFuncs
      then guardR (\<not> fam_empty) AssertFailed
        (let (b, st1) = analyseFunc (aam (fid f)) order (fblocks f) st
         in bindR (run_functions fam_empty aam order annotFuncs fs st1) (\<lambda>(fs', st2). Inr (f\<lparr>fblocks := b\<rparr> # fs', st2)))
      else bindR (run_functions fam_empty aam order annotFuncs fs st) (\<lambda>(fs', st2). Inr (f # fs', st2)))"

definition run ::
  "bool \<Rightarrow> (nat \<Rightarrow> nat \<Rightarrow> nat \<Rightarrow> alias_result) \<Rightarrow> ((nat \<times> bool) list \<Rightarrow> (nat \<times> bool) list) \<Rightarrow> llvm_module \<Rightarrow> nat \<times> counts \<Rightarrow>
     (llvm_module \<times> nat \<times> counts) res" where
  "run fam_empty aam order m st =
     bindR (getAnnotatedFunctions m) (\<lambda>annotFuncs.
     bindR (run_functions fam_empty aam order annotFuncs (mfunctions m) st) (\<lambda>(fs, st').
       Inr (m\<lparr>mfunctions := fs\<rparr>, st')))"

section \<open>What the instrumented function does\<close>

text \<open>
  The instructions along a path through a function, on the state of the library. \<open>ch k\<close> is the value the \<open>k\<close>-th
  instruction of the original function computes and \<open>wb k\<close> the bytes it stores. The effects of the calls a
  function makes are not part of it.
\<close>

fun exec ::
  "(nat \<Rightarrow> addr) \<Rightarrow> (nat \<Rightarrow> byte list) \<Rightarrow> pmem_ops \<Rightarrow> nat \<Rightarrow> instr list \<Rightarrow> nat \<Rightarrow> (nat \<Rightarrow> addr) \<Rightarrow> 'z glob_scheme \<Rightarrow>
     'z glob_scheme res" where
  "exec ch wb ops t [] k env g = Inr g"
| "exec ch wb ops t (StoreInst v p # is) k env g = exec ch wb ops t is (Suc k) env (upd_mch (store (env p) (wb k)) g)"
| "exec ch wb ops t (AllocaInst v # is) k env g = exec ch wb ops t is (Suc k) (env(v := ch k)) g"
| "exec ch wb ops t (OtherInst v # is) k env g = exec ch wb ops t is (Suc k) (env(v := ch k)) g"
| "exec ch wb ops t (BitCastInst v p # is) k env g = exec ch wb ops t is k (env(v := env p)) g"
| "exec ch wb ops t (CheckMemoryCall p # is) k env g = bindR (checkMemory ops t (env p) g) (exec ch wb ops t is k env)"

text \<open>The stores of the original function, each with the hook.\<close>

fun hooked_stores :: "(nat \<Rightarrow> addr) \<Rightarrow> (nat \<Rightarrow> byte list) \<Rightarrow> instr list \<Rightarrow> nat \<Rightarrow> (nat \<Rightarrow> addr) \<Rightarrow> icall list" where
  "hooked_stores ch wb [] k env = []"
| "hooked_stores ch wb (StoreInst v p # is) k env = Store (env p) (wb k) # hooked_stores ch wb is (Suc k) env"
| "hooked_stores ch wb (AllocaInst v # is) k env = hooked_stores ch wb is (Suc k) (env(v := ch k))"
| "hooked_stores ch wb (OtherInst v # is) k env = hooked_stores ch wb is (Suc k) (env(v := ch k))"
| "hooked_stores ch wb (BitCastInst v p # is) k env = hooked_stores ch wb is k (env(v := env p))"
| "hooked_stores ch wb (CheckMemoryCall p # is) k env = hooked_stores ch wb is k env"

text \<open>
  What the pass relies on. A path of a function in single assignment form: a store uses a value that has been
  computed, an alloca returns an address of the stack, and no other instruction defines its value. The answer
  \<open>MustAlias\<close> of the alias analysis means that both pointers have been computed and are equal.
\<close>

fun path_ok ::
  "(nat \<Rightarrow> nat \<Rightarrow> alias_result) \<Rightarrow> nat list \<Rightarrow> (addr \<Rightarrow> bool) \<Rightarrow> (nat \<Rightarrow> addr) \<Rightarrow> instr list \<Rightarrow> nat \<Rightarrow> (nat \<Rightarrow> addr) \<Rightarrow>
     nat list \<Rightarrow> bool" where
  "path_ok aa al stk ch [] k env def \<longleftrightarrow> True"
| "path_ok aa al stk ch (StoreInst v p # is) k env def \<longleftrightarrow>
     p \<in> set def \<and> list_all (\<lambda>q. aa q p = MustAlias \<longrightarrow> q \<in> set def \<and> env q = env p) al \<and>
     path_ok aa al stk ch is (Suc k) env def"
| "path_ok aa al stk ch (AllocaInst v # is) k env def \<longleftrightarrow> stk (ch k) \<and> path_ok aa al stk ch is (Suc k) (env(v := ch k)) (v # def)"
| "path_ok aa al stk ch (OtherInst v # is) k env def \<longleftrightarrow>
     v \<notin> set al \<and> path_ok aa al stk ch is (Suc k) (env(v := ch k)) (v # def)"
| "path_ok aa al stk ch (BitCastInst v p # is) k env def \<longleftrightarrow>
     v \<notin> set al \<and> path_ok aa al stk ch is k (env(v := env p)) (v # def)"
| "path_ok aa al stk ch (CheckMemoryCall p # is) k env def \<longleftrightarrow> False"

fun instr_below :: "nat \<Rightarrow> instr \<Rightarrow> bool" where
  "instr_below n (StoreInst v p) \<longleftrightarrow> v < n \<and> p < n"
| "instr_below n (AllocaInst v) \<longleftrightarrow> v < n"
| "instr_below n (BitCastInst v p) \<longleftrightarrow> v < n \<and> p < n"
| "instr_below n (CheckMemoryCall p) \<longleftrightarrow> p < n"
| "instr_below n (OtherInst v) \<longleftrightarrow> v < n"

fun allocas :: "instr list \<Rightarrow> nat list" where
  "allocas [] = []"
| "allocas (AllocaInst v # is) = v # allocas is"
| "allocas (i # is) = allocas is"

lemma allocas_append [simp]: "allocas (xs @ ys) = allocas xs @ allocas ys"
  by (induction xs rule: allocas.induct) simp_all

subsection \<open>The code the pass emits\<close>

inductive emitted :: "(nat \<Rightarrow> nat \<Rightarrow> alias_result) \<Rightarrow> nat list \<Rightarrow> nat \<Rightarrow> instr list \<Rightarrow> instr list \<Rightarrow> bool"
  for aa al n0 where
  nil: "emitted aa al n0 [] []"
| hook: "n0 \<le> r \<Longrightarrow> emitted aa al n0 is os \<Longrightarrow>
    emitted aa al n0 (StoreInst v p # is) (BitCastInst r p # CheckMemoryCall r # StoreInst v p # os)"
| skip: "q \<in> set al \<Longrightarrow> q = p \<or> aa q p = MustAlias \<Longrightarrow> emitted aa al n0 is os \<Longrightarrow>
    emitted aa al n0 (StoreInst v p # is) (StoreInst v p # os)"
| keep: "(\<And>v p. i \<noteq> StoreInst v p) \<Longrightarrow> emitted aa al n0 is os \<Longrightarrow> emitted aa al n0 (i # is) (i # os)"

lemma emitted_append:
  "emitted aa al n0 xs xs' \<Longrightarrow> emitted aa al n0 ys ys' \<Longrightarrow> emitted aa al n0 (xs @ ys) (xs' @ ys')"
  by (induction rule: emitted.induct) (auto intro: emitted.intros)

lemma emitted_mono: "emitted aa al n1 xs ys \<Longrightarrow> n0 \<le> n1 \<Longrightarrow> set al \<subseteq> set al' \<Longrightarrow> emitted aa al' n0 xs ys"
  by (induction rule: emitted.induct) (auto intro: emitted.intros)

lemma stack_location:
  "fst (writesToStackLocation aa p sv c) \<Longrightarrow> \<exists>q. (q, True) \<in> set sv \<and> (q = p \<or> aa q p = MustAlias)"
  by (induction aa p sv c rule: writesToStackLocation.induct) (auto split: if_splits)

lemma analyse_instr_emitted:
  assumes ord: "\<And>xs. set (order xs) = set xs" and r: "analyse_instr aa order i (sv, n, c) = (os, sv', n', c')"
    and sv: "fst ` set sv \<subseteq> set al"
  shows "emitted aa al n [i] os \<and> n \<le> n' \<and> fst ` set sv' \<subseteq> set al \<union> set (allocas [i])"
proof (cases i)
  case (StoreInst v p)
  show ?thesis
  proof (cases "writesToStackLocation aa p (order sv) c")
    case (Pair w c1)
    show ?thesis
    proof (cases w)
      case True
      then obtain q where "(q, True) \<in> set sv" "q = p \<or> aa q p = MustAlias"
        using stack_location [of aa p "order sv" c] Pair ord by auto
      then have "emitted aa al n [StoreInst v p] [StoreInst v p]" using sv by (intro emitted.skip [of q] emitted.nil) force+
      then show ?thesis using r sv True Pair StoreInst by auto
    next
      case False
      then show ?thesis using r sv Pair StoreInst by (auto intro!: emitted.intros)
    qed
  qed
next
  case (AllocaInst v)
  then show ?thesis using r sv by (auto intro!: emitted.intros simp: image_subset_iff)
qed (use r sv in \<open>auto intro!: emitted.intros\<close>)

lemma analyse_block_emitted:
  assumes ord: "\<And>xs. set (order xs) = set xs"
  shows "analyse_block aa order is (sv, n, c) = (os, sv', n', c') \<Longrightarrow> fst ` set sv \<subseteq> set al \<Longrightarrow> set (allocas is) \<subseteq> set al \<Longrightarrow>
    emitted aa al n is os \<and> n \<le> n' \<and> fst ` set sv' \<subseteq> set al"
proof (induction "is" arbitrary: sv n c os)
  case Nil
  then show ?case by (auto intro: emitted.intros)
next
  case (Cons i "is")
  obtain o1 sv1 n1 c1 where a: "analyse_instr aa order i (sv, n, c) = (o1, sv1, n1, c1)" by (metis prod_cases4)
  obtain o2 where b: "analyse_block aa order is (sv1, n1, c1) = (o2, sv', n', c')" "os = o1 @ o2"
    using Cons.prems(1) a by (auto split: prod.splits)
  have al: "set (allocas [i]) \<subseteq> set al" "set (allocas is) \<subseteq> set al" using Cons.prems(3) allocas_append [of "[i]" "is"] by auto
  have 1: "emitted aa al n [i] o1" "n \<le> n1" "fst ` set sv1 \<subseteq> set al"
    using analyse_instr_emitted [OF ord a Cons.prems(2)] al(1) by auto
  have 2: "emitted aa al n1 is o2" "n1 \<le> n'" "fst ` set sv' \<subseteq> set al" using Cons.IH [OF b(1) 1(3) al(2)] by auto
  show ?case
    using emitted_append [OF 1(1) emitted_mono [OF 2(1) 1(2)]] 1(2) 2(2,3) b(2) by auto
qed

lemma analyse_blocks_emitted:
  assumes ord: "\<And>xs. set (order xs) = set xs"
  shows "analyse_blocks aa order f (sv, n, c) = (f', sv', n', c') \<Longrightarrow> fst ` set sv \<subseteq> set al \<Longrightarrow> set (allocas (concat f)) \<subseteq> set al \<Longrightarrow>
    list_all2 (emitted aa al n) f f' \<and> n \<le> n'"
proof (induction f arbitrary: sv n c f')
  case (Cons b bs)
  obtain b1 sv1 n1 c1 where a: "analyse_block aa order b (sv, n, c) = (b1, sv1, n1, c1)" by (metis prod_cases4)
  obtain bs1 where r: "analyse_blocks aa order bs (sv1, n1, c1) = (bs1, sv', n', c')" "f' = b1 # bs1"
    using Cons.prems(1) a by (auto split: prod.splits)
  have al: "set (allocas b) \<subseteq> set al" "set (allocas (concat bs)) \<subseteq> set al" using Cons.prems(3) by auto
  have 1: "emitted aa al n b b1" "n \<le> n1" "fst ` set sv1 \<subseteq> set al"
    using analyse_block_emitted [OF ord a Cons.prems(2) al(1)] by auto
  have 2: "list_all2 (emitted aa al n1) bs bs1" "n1 \<le> n'" using Cons.IH [OF r(1) 1(3) al(2)] by auto
  have "list_all2 (emitted aa al n) bs bs1"
    by (rule list_all2_mono [OF 2(1)]) (rule emitted_mono [OF _ 1(2)], auto)
  then show ?case using 1 2 r(2) by simp
qed simp

lemma emitted_path:
  assumes "list_all2 (emitted aa al n) f f'" and "set path \<subseteq> {..<length f}"
  shows "emitted aa al n (concat (map ((!) f) path)) (concat (map ((!) f') path))"
  using assms(2)
proof (induction path)
  case (Cons j path)
  then have "emitted aa al n (f ! j) (f' ! j)" using list_all2_nthD [OF assms(1), of j] by simp
  then show ?case using Cons emitted_append by simp
qed (simp add: emitted.nil)

subsection \<open>Its behaviour\<close>

lemma checkMemory_bounds:
  "checkMemory ops t p g = Inr g' \<Longrightarrow> start_addr g' = start_addr g \<and> end_addr g' = end_addr g"
  by (auto simp: checkMemory_def log_range_def Let_def upd_ctrs_def set_log_def guardR_eq_Inr split: if_splits prod.splits)

lemma exec_emitted:
  "emitted aa al n0 is os \<Longrightarrow> path_ok aa al stk ch is k env def \<Longrightarrow> \<forall>i\<in>set is. instr_below n0 i \<Longrightarrow>
   \<forall>v<n0. env' v = env v \<Longrightarrow> \<forall>q\<in>set al. q \<in> set def \<longrightarrow> stk (env q) \<Longrightarrow>
   \<forall>a. stk a \<longrightarrow> \<not> (start_addr g \<le> a \<and> a < end_addr g) \<Longrightarrow>
   exec ch wb ops t os k env' g = run_icalls ops t (hooked_stores ch wb is k env) g"
proof (induction arbitrary: k env env' def g rule: emitted.induct)
  case nil
  then show ?case by simp
next
  case (hook r "is" os v p)
  have e: "env' p = env p" using hook.prems(2,3) by simp
  have "exec ch wb ops t os (Suc k) (env'(r := env p)) (upd_mch (store (env p) (wb k)) g1) =
      run_icalls ops t (hooked_stores ch wb is (Suc k) env) (upd_mch (store (env p) (wb k)) g1)"
    if "checkMemory ops t (env p) g = Inr g1" for g1
    by (rule hook.IH [where def = def]) (use hook.prems hook.hyps(1) checkMemory_bounds [OF that] in \<open>auto simp: upd_mch_def\<close>)
  moreover have "p \<noteq> r" using hook.prems(2) hook.hyps(1) by auto
  ultimately show ?case using e by (cases "checkMemory ops t (env p) g") auto
next
  case (skip q p "is" os v)
  have "stk (env p)"
    using skip.hyps(1,2) skip.prems(1,4) by (auto simp: list_all_iff)
  then have "checkMemory ops t (env p) g = Inr g" using skip.prems(5) by (auto simp: checkMemory_def)
  moreover have "env' p = env p" using skip.prems(2,3) by simp
  moreover have "exec ch wb ops t os (Suc k) env' (upd_mch (store (env p) (wb k)) g) =
      run_icalls ops t (hooked_stores ch wb is (Suc k) env) (upd_mch (store (env p) (wb k)) g)"
    by (rule skip.IH [where def = def]) (use skip.prems in \<open>auto simp: upd_mch_def\<close>)
  ultimately show ?case by simp
next
  case (keep i "is" os)
  show ?case
  proof (cases i)
    case (AllocaInst v)
    then have po: "path_ok aa al stk ch is (Suc k) (env(v := ch k)) (v # def)" using keep.prems(1) by simp
    have "exec ch wb ops t os (Suc k) (env'(v := ch k)) g = run_icalls ops t (hooked_stores ch wb is (Suc k) (env(v := ch k))) g"
      by (rule keep.IH [OF po]) (use keep.prems AllocaInst in auto)
    then show ?thesis using AllocaInst by simp
  next
    case (OtherInst v)
    then have po: "path_ok aa al stk ch is (Suc k) (env(v := ch k)) (v # def)" using keep.prems(1) by simp
    have "exec ch wb ops t os (Suc k) (env'(v := ch k)) g = run_icalls ops t (hooked_stores ch wb is (Suc k) (env(v := ch k))) g"
      by (rule keep.IH [OF po]) (use keep.prems OtherInst in auto)
    then show ?thesis using OtherInst by simp
  next
    case (BitCastInst v p)
    then have po: "path_ok aa al stk ch is k (env(v := env p)) (v # def)" using keep.prems(1) by simp
    have "exec ch wb ops t os k (env'(v := env' p)) g = run_icalls ops t (hooked_stores ch wb is k (env(v := env p))) g"
      by (rule keep.IH [OF po]) (use keep.prems BitCastInst in auto)
    then show ?thesis using BitCastInst by simp
  qed (use keep.hyps(1) keep.prems(1) in auto)
qed

lemma analyseFunc_blocks:
  assumes "analyseFunc aa order f (n, c) = (f', n', c')" and ord: "\<And>xs. set (order xs) = set xs"
  shows "list_all2 (emitted aa (allocas (concat f)) n) f f' \<and> n \<le> n'"
proof -
  obtain sv' where "analyse_blocks aa order f ([], n, c) = (f', sv', n', c')"
    using assms(1) by (auto simp: analyseFunc_def split: prod.splits)
  then show ?thesis using analyse_blocks_emitted [OF ord, of aa f "[]" n c f' sv' n' c' "allocas (concat f)"] by simp
qed

text \<open>What the pass does to the functions of a module.\<close>

definition instrumented ::
  "(nat \<Rightarrow> nat \<Rightarrow> nat \<Rightarrow> alias_result) \<Rightarrow> nat set \<Rightarrow> nat \<Rightarrow> llvm_function \<Rightarrow> llvm_function \<Rightarrow> bool" where
  "instrumented aam annotFuncs n f f' \<longleftrightarrow>
     (if fblocks f \<noteq> [] \<and> fid f \<notin> annotFuncs
      then fid f' = fid f \<and> list_all2 (emitted (aam (fid f)) (allocas (concat (fblocks f))) n) (fblocks f) (fblocks f')
      else f' = f)"

lemma instrumented_mono: "instrumented aam A n1 f f' \<Longrightarrow> n0 \<le> n1 \<Longrightarrow> instrumented aam A n0 f f'"
  unfolding instrumented_def by (auto elim!: list_all2_mono intro: emitted_mono)

lemma run_functions_instrumented:
  assumes ord: "\<And>xs. set (order xs) = set xs"
  shows "run_functions e aam order A fs (n, c) = Inr (fs', n', c') \<Longrightarrow> list_all2 (instrumented aam A n) fs fs' \<and> n \<le> n'"
proof (induction fs arbitrary: n c fs')
  case (Cons f fs)
  show ?case
  proof (cases "fblocks f \<noteq> [] \<and> fid f \<notin> A")
    case True
    obtain b n1 c1 where b: "analyseFunc (aam (fid f)) order (fblocks f) (n, c) = (b, n1, c1)" by (metis prod_cases3)
    then obtain fs1 where r: "run_functions e aam order A fs (n1, c1) = Inr (fs1, n', c')" "fs' = f\<lparr>fblocks := b\<rparr> # fs1"
      using Cons.prems True by (auto simp: bindR_eq_Inr guardR_eq_Inr split: if_splits prod.splits)
    have 1: "instrumented aam A n f (f\<lparr>fblocks := b\<rparr>)" "n \<le> n1"
      using analyseFunc_blocks [OF b ord] True by (simp_all add: instrumented_def)
    have 2: "list_all2 (instrumented aam A n1) fs fs1" "n1 \<le> n'" using Cons.IH [OF r(1)] by auto
    have "list_all2 (instrumented aam A n) fs fs1"
      by (rule list_all2_mono [OF 2(1)]) (rule instrumented_mono [OF _ 1(2)])
    then show ?thesis using 1 2(2) r(2) by simp
  next
    case False
    then obtain fs1 where r: "run_functions e aam order A fs (n, c) = Inr (fs1, n', c')" "fs' = f # fs1"
      using Cons.prems by (auto simp: bindR_eq_Inr split: if_splits prod.splits)
    then show ?thesis using Cons.IH [OF r(1)] False by (auto simp: instrumented_def)
  qed
qed simp

text \<open>
  C14: The pass hooks every store that matters. On every path of a function that is not annotated, the
  instrumented code does what the original stores do with the hook in front of each of them, for every state of the
  library, when the alias analysis is right and the stack is outside the tracked space. Annotated functions
  are left as they are.
\<close>

theorem pass_hooks_stores:
  assumes r: "run e aam order m (n, c) = Inr (m', n', c')" and ord: "\<And>xs. set (order xs) = set xs"
    and j: "j < length (mfunctions m)" and f: "f = mfunctions m ! j" and A: "getAnnotatedFunctions m = Inr A"
    and ids: "\<forall>b\<in>set (fblocks f). \<forall>i\<in>set b. instr_below n i" and path: "set path \<subseteq> {..<length (fblocks f)}"
    and ok: "path_ok (aam (fid f)) (allocas (concat (fblocks f))) stk ch (concat (map ((!) (fblocks f)) path)) 0 env def"
    and args: "set def \<inter> set (allocas (concat (fblocks f))) = {}"
    and stk: "\<forall>a. stk a \<longrightarrow> \<not> (start_addr g \<le> a \<and> a < end_addr g)"
  shows "(if fid f \<in> A then mfunctions m' ! j = f
    else exec ch wb ops t (concat (map ((!) (fblocks (mfunctions m' ! j))) path)) 0 env g =
      run_icalls ops t (hooked_stores ch wb (concat (map ((!) (fblocks f)) path)) 0 env) g)"
proof -
  obtain fs' where fs': "run_functions e aam order A (mfunctions m) (n, c) = Inr (fs', n', c')" "mfunctions m' = fs'"
    using r A by (auto simp: run_def bindR_eq_Inr split: prod.splits)
  have I: "instrumented aam A n f (mfunctions m' ! j)"
    using list_all2_nthD [OF conjunct1 [OF run_functions_instrumented [OF ord fs'(1)]] j] f fs'(2) by simp
  show ?thesis
  proof (cases "fid f \<in> A \<or> fblocks f = []")
    case True
    then show ?thesis using I path by (auto simp: instrumented_def)
  next
    case False
    let ?al = "allocas (concat (fblocks f))"
    have "emitted (aam (fid f)) ?al n (concat (map ((!) (fblocks f)) path)) (concat (map ((!) (fblocks (mfunctions m' ! j))) path))"
      by (rule emitted_path [OF _ path]) (use I False in \<open>simp add: instrumented_def\<close>)
    moreover have "\<forall>i\<in>set (concat (map ((!) (fblocks f)) path)). instr_below n i"
      using ids path by (auto dest: nth_mem)
    ultimately show ?thesis using exec_emitted [OF _ ok _ _ _ stk] args False by fastforce
  qed
qed

definition demo_module :: llvm_module where
  "demo_module = \<lparr>mglobals = [\<lparr>gname = ''llvm.global.annotations'', annotations = Some [(Some 3, DontAutoLogStr), (None, ''other'')]\<rparr>],
     mfunctions = [\<lparr>fid = 7, fblocks = [[AllocaInst 1, StoreInst 0 1], [StoreInst 0 2]]\<rparr>]\<rparr>"

theorem pass_hooks_stores_witness:
  "\<exists>m' n' c'. run False (\<lambda>_ _ _. MayAlias) rev demo_module (10, \<lparr>modCount = 0, skipCount = 0, aliasedLocationFound = 0, exactLocationMatchFound = 0\<rparr>) =
      Inr (m', n', c') \<and> modCount c' = 1 \<and> skipCount c' = 1 \<and>
    exec (\<lambda>_. 64) (\<lambda>_. [1]) clwb_ops 0 (concat (map ((!) (fblocks (mfunctions m' ! 0))) [0, 1])) 0 (\<lambda>_. 2 ^ 40) demo_glob =
      run_icalls clwb_ops 0 [Store 64 [1], Store (2 ^ 40) [1]] demo_glob"
proof -
  let ?c = "\<lparr>modCount = 0, skipCount = 0, aliasedLocationFound = 0, exactLocationMatchFound = 0\<rparr>"
  obtain m' n' c' where r: "run False (\<lambda>_ _ _. MayAlias) rev demo_module (10, ?c) = Inr (m', n', c')"
    and c: "modCount c' = 1" "skipCount c' = 1"
    by (simp add: run_def demo_module_def getAnnotatedFunctions_def DontAutoLogStr_def analyseFunc_def uadd64_def)
  have A: "getAnnotatedFunctions demo_module = Inr {3}"
    by (simp add: demo_module_def getAnnotatedFunctions_def DontAutoLogStr_def)
  have "exec (\<lambda>_. 64) (\<lambda>_. [1]) clwb_ops 0 (concat (map ((!) (fblocks (mfunctions m' ! 0))) [0, 1])) 0 (\<lambda>_. 2 ^ 40) demo_glob =
      run_icalls clwb_ops 0 [Store 64 [1], Store (2 ^ 40) [1]] demo_glob"
    using pass_hooks_stores [OF r _ _ refl A, where j = 0 and path = "[0, 1]" and stk = "\<lambda>a. a = 64" and ch = "\<lambda>_. 64"
        and env = "\<lambda>_. 2 ^ 40" and def = "[0, 2]" and g = demo_glob and wb = "\<lambda>_. [1]" and ops = clwb_ops and t = 0]
    by (simp add: demo_module_def demo_glob_def)
  then show ?thesis using r c by blast
qed

text \<open>
  C37: The hook gets the pointer of a store and not its width, and logs 8 bytes. The bytes of a wider store after
  the eighth are not in the log, and undoing the log leaves them changed.
\<close>

theorem wide_store_not_undone:
  assumes ok: "log_ok ops t la cap g" and l0: "log_list (mch g) la = []" and tr: "startTracking g" "start_addr g \<le> a" "a < end_addr g"
    and fit: "log_fits la cap a (length bs) g" and w: "8 < length bs"
  shows "\<exists>g'. run_icall ops t (Store a bs) g = Inr g' \<and>
    (\<forall>i. 8 \<le> i \<and> i < length bs \<longrightarrow> \<not> covered (log_list (mch g') la) (a + i) \<and>
       undo_all (log_list (mch g') la) (cpu (mch g')) (a + i) = bs ! i)"
proof -
  have f8: "log_fits la cap a 8 g" using fit w by (auto simp: log_fits_def)
  obtain g1 where g1: "log_range ops t a 8 g = Inr g1" "log_ok ops t la cap g1"
    and ll: "log_list (mch g1) la = [] \<or> log_list (mch g1) la = [(a, rd (cpu (mch g)) a 8)]"
    by (rule log_range_ok [OF ok f8]) (use l0 in auto)
  have wf: "log_wf (mch g1) la" "ld64 (mch g1) (log_offset_at la) \<le> cap" using g1(2) by (auto simp: log_ok_def)
  have out: "inr a (length bs) x \<Longrightarrow> outside_log la cap x" for x
    using fit by (auto simp: log_fits_def outside_log_def inr_def)
  let ?g = "upd_mch (store a bs) g1"
  have l1: "log_list (mch ?g) la = log_list (mch g1) la" using log_wf_store(2) [OF wf out] by (simp add: upd_mch_def)
  have c: "cpu (mch ?g) (a + i) = bs ! i" if "i < length bs" for i using that by (simp add: upd_mch_def wr_def inr_def)
  have "run_icall ops t (Store a bs) g = Inr ?g" using g1(1) tr by (simp add: checkMemory_def)
  moreover have "\<not> covered (log_list (mch ?g) la) (a + i) \<and> undo_all (log_list (mch ?g) la) (cpu (mch ?g)) (a + i) = bs ! i"
    if "8 \<le> i" "i < length bs" for i
    using ll c [OF that(2)] that(1) unfolding l1 by (auto simp: covered_def inr_def undo_all_def wr_def)
  ultimately show ?thesis by blast
qed

theorem wide_store_not_undone_witness:
  "\<exists>g'. run_icall clwb_ops 0 (Store (2 ^ 40) (replicate 16 1)) demo_glob = Inr g' \<and>
     undo_all (log_list (mch g') 4096) (cpu (mch g')) (2 ^ 40 + 8) = 1"
proof -
  have "log_list (mch demo_glob) 4096 = []" using demo_wf by (simp add: demo_glob_def)
  moreover have "log_fits 4096 65536 (2 ^ 40) (length (replicate 16 (1 :: byte))) demo_glob"
    by (simp add: log_fits_def demo_glob_def log_layout_defs)
  ultimately show ?thesis
    using wide_store_not_undone [OF demo_log_ok, of "2 ^ 40" "replicate 16 1"] by (auto simp: demo_glob_def)
qed

end
