(* ===== verification/Containers.thy ===== *)
theory Containers
  imports Prelude
begin

text \<open>
  The containers of the key-value examples (src/src/include/container/vector.hh, string.hh and pair.hh).
  A vector owns the block behind its \<open>content\<close> pointer: no two vectors share one, because a move empties its
  source and a copy allocates. The block is therefore the list of its slots, \<open>None\<close> for the null pointer.
  \<open>res->malloc\<close> is Boost code and does not initialise what it returns: it is the parameter \<open>mem\<close>, from a
  number of slots to their contents, \<open>None\<close> when it throws. How a slot takes over an element, by \<open>memcpy\<close>,
  by assignment or by the element's own \<open>init\<close>, is the parameter \<open>ini\<close>.
\<close>

section \<open>Containers\<close>

subsection \<open>vector\<close>

record 'a vec =
  vsize :: nat
  vdata :: "'a list option"
  vcap :: nat

type_synonym 'a malloc = "nat \<Rightarrow> 'a list option"

definition block :: "'a vec \<Rightarrow> 'a list" where
  "block v = (case vdata v of None \<Rightarrow> [] | Some xs \<Rightarrow> xs)"

definition res_malloc :: "'a malloc \<Rightarrow> nat \<Rightarrow> 'a list res" where
  "res_malloc mem n = (case mem n of None \<Rightarrow> Inl Uncaught | Some xs \<Rightarrow> Inr xs)"

definition vec_new :: "'a vec" where
  "vec_new = \<lparr>vsize = 0, vdata = None, vcap = 0\<rparr>"

definition vec_init :: "'a malloc \<Rightarrow> 'a vec res" where
  "vec_init mem = bindR (res_malloc mem 2) (\<lambda>xs. Inr \<lparr>vsize = 0, vdata = Some xs, vcap = 2\<rparr>)"

definition vec_resize :: "'a malloc \<Rightarrow> ('a \<Rightarrow> 'a \<Rightarrow> 'a) \<Rightarrow> 'a vec \<Rightarrow> 'a vec res" where
  "vec_resize mem ini v =
     (let new_capacity = (if vcap v = 0 then 2 else vcap v * 2)
      in bindR (res_malloc mem new_capacity) (\<lambda>tmp.
         Inr (v\<lparr>vdata := Some (map2 ini tmp (take (vcap v) (block v)) @ drop (vcap v) tmp),
                vcap := new_capacity\<rparr>)))"

definition vec_put :: "nat \<Rightarrow> ('a \<Rightarrow> 'a) \<Rightarrow> 'a vec \<Rightarrow> 'a vec res" where
  "vec_put idx f v =
     (case vdata v of
        None \<Rightarrow> Inl NullDeref
      | Some xs \<Rightarrow> guardR (idx < length xs) OutOfBounds (Inr (v\<lparr>vdata := Some (xs[idx := f (xs ! idx)])\<rparr>)))"

definition vec_push_back ::
  "'a malloc \<Rightarrow> ('a \<Rightarrow> 'a \<Rightarrow> 'a) \<Rightarrow> ('a \<Rightarrow> 'a \<Rightarrow> 'a) \<Rightarrow> 'a \<Rightarrow> 'a vec \<Rightarrow> 'a vec res" where
  "vec_push_back mem mv ini new_elem v =
     bindR (if vsize v = vcap v then vec_resize mem mv v else Inr v) (\<lambda>v.
     bindR (vec_put (vsize v) (\<lambda>slot. ini slot new_elem) v) (\<lambda>v.
       Inr (v\<lparr>vsize := vsize v + 1\<rparr>)))"

definition vec_set_at :: "'a \<Rightarrow> nat \<Rightarrow> 'a vec \<Rightarrow> 'a vec res" where
  "vec_set_at new_elem idx v = vec_put idx (\<lambda>_. new_elem) v"

definition vec_init_elems :: "'a malloc \<Rightarrow> 'a list \<Rightarrow> nat \<Rightarrow> 'a vec res" where
  "vec_init_elems mem elems num =
     bindR (res_malloc mem (num * 2)) (\<lambda>xs.
     guardR (num \<le> length elems) OutOfBounds
       (Inr \<lparr>vsize = num, vdata = Some (take num elems @ drop num xs), vcap = num * 2\<rparr>))"

definition vec_init_copy :: "'a malloc \<Rightarrow> ('a \<Rightarrow> 'a \<Rightarrow> 'a) \<Rightarrow> 'a vec \<Rightarrow> 'a vec res" where
  "vec_init_copy mem ini v =
     bindR (res_malloc mem (vcap v)) (\<lambda>xs.
       Inr \<lparr>vsize = vsize v,
            vdata = Some (map2 ini xs (take (vsize v) (block v)) @ drop (vsize v) xs), vcap = vcap v\<rparr>)"

definition vec_init_move :: "'a vec \<Rightarrow> 'a vec \<times> 'a vec" where
  "vec_init_move v = (v, vec_new)"

definition vec_at :: "'a vec \<Rightarrow> nat \<Rightarrow> 'a res" where
  "vec_at v idx =
     (case vdata v of
        None \<Rightarrow> Inl NullDeref
      | Some xs \<Rightarrow> guardR (idx < length xs) OutOfBounds (Inr (xs ! idx)))"

text \<open>What a vector promises: its elements are the first \<open>vsize\<close> slots of a block of \<open>vcap\<close> slots.\<close>

definition vec_ok :: "'a vec \<Rightarrow> bool" where
  "vec_ok v \<longleftrightarrow> vsize v \<le> vcap v \<and> length (block v) = vcap v \<and> (vdata v = None \<longrightarrow> vcap v = 0)"

definition elems :: "'a vec \<Rightarrow> 'a list" where
  "elems v = take (vsize v) (block v)"

definition mem_ok :: "'a malloc \<Rightarrow> bool" where
  "mem_ok mem \<longleftrightarrow> (\<forall>n xs. mem n = Some xs \<longrightarrow> length xs = n)"

lemma mem_okD: "mem_ok mem \<Longrightarrow> mem n = Some xs \<Longrightarrow> length xs = n"
  by (simp add: mem_ok_def)

lemma vec_init_ok:
  "mem_ok mem \<Longrightarrow> vec_init mem = Inr v \<Longrightarrow> vec_ok v \<and> elems v = []"
  by (auto simp: vec_init_def res_malloc_def vec_ok_def elems_def block_def mem_ok_def split: option.splits)

lemma length_elems: "vec_ok v \<Longrightarrow> length (elems v) = vsize v"
  by (simp add: vec_ok_def elems_def)

lemma vec_at_elems: "vec_ok v \<Longrightarrow> i < vsize v \<Longrightarrow> vec_at v i = Inr (elems v ! i)"
  by (auto simp: vec_at_def vec_ok_def elems_def block_def split: option.splits)

lemma map2_snd: "length xs = length ys \<Longrightarrow> map2 (\<lambda>_ y. y) xs ys = ys"
  by (induction xs ys rule: list_induct2) simp_all

lemma map2_take: "length ys \<le> length xs \<Longrightarrow> map2 (\<lambda>_ y. y) xs ys = ys"
  by (induction ys arbitrary: xs) (auto simp: Suc_le_length_iff)

lemma resize_ok:
  assumes m: "mem_ok mem" and v: "vec_ok v" and r: "vec_resize mem (\<lambda>_ x. x) v = Inr v'"
  shows "vec_ok v'" and "elems v' = elems v" and "vsize v' = vsize v" and "vsize v < vcap v'"
proof -
  define n where "n = (if vcap v = 0 then 2 else vcap v * 2)"
  obtain tmp where tmp: "mem n = Some tmp"
    and v': "v' = v\<lparr>vdata := Some (map2 (\<lambda>_ x. x) tmp (take (vcap v) (block v)) @ drop (vcap v) tmp), vcap := n\<rparr>"
    using r by (auto simp: vec_resize_def res_malloc_def n_def Let_def split: option.splits)
  have l: "length tmp = n" by (rule mem_okD [OF m tmp])
  have nv: "vcap v < n" by (auto simp: n_def)
  have d: "map2 (\<lambda>_ x. x) tmp (take (vcap v) (block v)) = block v"
    using v l nv map2_take [of "block v" tmp] by (simp add: vec_ok_def)
  show "vec_ok v'" and "elems v' = elems v" and "vsize v' = vsize v" and "vsize v < vcap v'"
    using v l nv unfolding v' d by (auto simp: vec_ok_def elems_def block_def)
qed

lemma take_Suc_update: "n < length xs \<Longrightarrow> take (Suc n) (xs[n := e]) = take n xs @ [e]"
  by (simp add: take_Suc_conv_app_nth)

lemma room_ok:
  assumes m: "mem_ok mem" and v: "vec_ok v"
    and w: "(if vsize v = vcap v then vec_resize mem (\<lambda>_ x. x) v else Inr v) = Inr w"
  shows "vec_ok w" and "elems w = elems v" and "vsize w = vsize v" and "vsize w < vcap w"
proof -
  have "vec_ok w \<and> elems w = elems v \<and> vsize w = vsize v \<and> vsize w < vcap w"
  proof (cases "vsize v = vcap v")
    case True
    then have "vec_resize mem (\<lambda>_ x. x) v = Inr w" using w by simp
    from resize_ok [OF m v this] show ?thesis by metis
  next
    case False
    then have "w = v" using w by simp
    moreover have "vsize v < vcap v" using v False unfolding vec_ok_def by linarith
    ultimately show ?thesis using v by blast
  qed
  then show "vec_ok w" and "elems w = elems v" and "vsize w = vsize v" and "vsize w < vcap w" by blast+
qed

lemma push_back_ok:
  assumes m: "mem_ok mem" and v: "vec_ok v" and r: "vec_push_back mem (\<lambda>_ x. x) (\<lambda>_ x. x) e v = Inr v'"
  shows "vec_ok v'" and "elems v' = elems v @ [e]" and "vsize v' = vsize v + 1"
proof -
  obtain w where w: "(if vsize v = vcap v then vec_resize mem (\<lambda>_ x. x) v else Inr v) = Inr w"
    and p: "bindR (vec_put (vsize w) (\<lambda>_. e) w) (\<lambda>v. Inr (v\<lparr>vsize := vsize v + 1\<rparr>)) = Inr v'"
    using r unfolding vec_push_back_def bindR_eq_Inr [of "if _ then _ else _"] by blast
  note w' = room_ok [OF m v w]
  obtain xs where xs: "vdata w = Some xs" using w'(1,4) by (cases "vdata w") (simp_all add: vec_ok_def)
  have v': "v' = w\<lparr>vdata := Some (xs[vsize w := e]), vsize := vsize w + 1\<rparr>"
    using p unfolding vec_put_def xs option.case bindR_eq_Inr guardR_eq_Inr by auto
  have xl: "length xs = vcap w" using w'(1) xs by (simp add: vec_ok_def block_def)
  show "vec_ok v'" using w' xl unfolding v' by (simp add: vec_ok_def block_def)
  show "vsize v' = vsize v + 1" using w'(3) unfolding v' by simp
  show "elems v' = elems v @ [e]"
    using w'(2-4) xl xs take_Suc_update [of "vsize v" xs e] unfolding v' by (simp add: elems_def block_def)
qed

lemma push_back_returns:
  assumes m: "mem_ok mem" and v: "vec_ok v" and a: "\<And>n. mem n \<noteq> None"
  shows "\<exists>v'. vec_push_back mem (\<lambda>_ x. x) (\<lambda>_ x. x) e v = Inr v'"
proof -
  obtain w where w: "(if vsize v = vcap v then vec_resize mem (\<lambda>_ x. x) v else Inr v) = Inr w"
    using a [of "if vcap v = 0 then 2 else vcap v * 2"]
    by (cases "vsize v = vcap v") (auto simp: vec_resize_def res_malloc_def Let_def)
  note w' = room_ok(1,4) [OF m v w]
  then show ?thesis
    using w by (cases "vdata w") (auto simp: vec_push_back_def vec_put_def vec_ok_def block_def)
qed

subsection \<open>string\<close>

text \<open>
  The two views of the union of \<open>obj::string\<close>. The first 64 bits of the union are the size and the flag
  in the short view and the size of the vector in the other, so that \<open>size()\<close> of a long string reads the
  size of its vector. \<open>junk\<close> is the 24 bytes the union held before, and \<open>raw\<close> the bytes of a vector behind
  its size.
\<close>

datatype pstring = Sso (sso_sz: nat) (sso_buf: "char list") | NonSso (ns_vec: "char vec")

definition SSO_SZ :: nat where
  "SSO_SZ = 24 - 1"

definition NUL :: char where
  "NUL = CHR 0x00"

fun is_sso_used :: "pstring \<Rightarrow> bool" where
  "is_sso_used (Sso n b) = True"
| "is_sso_used (NonSso v) = False"

fun string_size :: "pstring \<Rightarrow> nat" where
  "string_size (Sso n b) = n mod 2 ^ 63"
| "string_size (NonSso v) = vsize v mod 2 ^ 63"

fun string_c_str :: "pstring \<Rightarrow> char list" where
  "string_c_str (Sso n b) = b"
| "string_c_str (NonSso v) = block v"

definition string_eq :: "pstring \<Rightarrow> string \<Rightarrow> bool" where
  "string_eq p str =
     (if is_sso_used p
      then (if length str \<noteq> string_size p then False else take (length str) (sso_buf p) = str)
      else (if length str \<noteq> string_size p then False else take (length str) (string_c_str p) = str))"

definition sso_init :: "char list \<Rightarrow> string \<Rightarrow> pstring" where
  "sso_init junk str = Sso (length str) (str @ [NUL] @ drop (length str + 1) junk)"

definition string_init :: "char malloc \<Rightarrow> char list \<Rightarrow> string \<Rightarrow> pstring res" where
  "string_init mem junk str =
     (if length str \<le> SSO_SZ then Inr (sso_init junk str)
      else bindR (vec_init_elems mem (str @ [NUL]) (length str + 1)) (\<lambda>v. Inr (NonSso v)))"

definition string_init_copy :: "char malloc \<Rightarrow> (char vec \<Rightarrow> char list) \<Rightarrow> pstring \<Rightarrow> pstring res" where
  "string_init_copy mem raw str =
     (if string_size str \<le> SSO_SZ
      then (case str of Sso n b \<Rightarrow> Inr str | NonSso v \<Rightarrow> Inr (Sso (string_size str) (raw v)))
      else (case str of
              NonSso v \<Rightarrow> bindR (vec_init_copy mem (\<lambda>_ c. c) v) (\<lambda>w. Inr (NonSso w))
            | Sso n b \<Rightarrow> Inl OutOfBounds))"

definition string_init_move :: "(char vec \<Rightarrow> char list) \<Rightarrow> pstring \<Rightarrow> (pstring \<times> pstring) res" where
  "string_init_move raw str =
     (if string_size str \<le> SSO_SZ
      then (case str of Sso n b \<Rightarrow> Inr (str, str) | NonSso v \<Rightarrow> Inr (Sso (string_size str) (raw v), str))
      else (case str of
              NonSso v \<Rightarrow> (let (w, e) = vec_init_move v in Inr (NonSso w, NonSso e))
            | Sso n b \<Rightarrow> Inl OutOfBounds))"

subsection \<open>pair\<close>

text \<open>
  The instance of the examples, \<open>pair<string, size_t>\<close>. A string has \<open>memcpyPuddles\<close>, so the moving
  constructor copies its bytes; a \<open>size_t\<close> has no \<open>init\<close> and is assigned.
\<close>

type_synonym kpair = "pstring \<times> nat"

definition pair_ctor ::
  "char malloc \<Rightarrow> (char vec \<Rightarrow> char list) \<Rightarrow> pstring \<Rightarrow> nat \<Rightarrow> kpair res" where
  "pair_ctor mem raw new_first new_second =
     bindR (string_init_copy mem raw new_first) (\<lambda>f. Inr (f, new_second))"

definition pair_ctor_move :: "pstring \<Rightarrow> nat \<Rightarrow> kpair" where
  "pair_ctor_move new_first new_second = (new_first, new_second)"

definition pair_init ::
  "char malloc \<Rightarrow> (char vec \<Rightarrow> char list) \<Rightarrow> pstring \<Rightarrow> nat \<Rightarrow> kpair res" where
  "pair_init mem raw new_first new_second =
     bindR (string_init_copy mem raw new_first) (\<lambda>f. Inr (f, new_second))"

definition pair_init_copy :: "char malloc \<Rightarrow> (char vec \<Rightarrow> char list) \<Rightarrow> kpair \<Rightarrow> kpair res" where
  "pair_init_copy mem raw new_pair =
     bindR (string_init_copy mem raw (fst new_pair)) (\<lambda>f. Inr (f, snd new_pair))"

definition pair_init_move :: "(char vec \<Rightarrow> char list) \<Rightarrow> kpair \<Rightarrow> (kpair \<times> kpair) res" where
  "pair_init_move raw new_pair =
     bindR (string_init_move raw (fst new_pair)) (\<lambda>(f, e). Inr ((f, snd new_pair), (e, snd new_pair)))"

subsection \<open>What strings compare equal to\<close>

definition string_ok :: "pstring \<Rightarrow> bool" where
  "string_ok p \<longleftrightarrow> (case p of
      Sso n b \<Rightarrow> n \<le> SSO_SZ \<and> length b = SSO_SZ + 1
    | NonSso v \<Rightarrow> SSO_SZ + 1 < vsize v \<and> vsize v < 2 ^ 63 \<and> vec_ok v)"

lemma string_init_short:
  assumes "length str \<le> SSO_SZ" and "length junk = SSO_SZ + 1"
  shows "string_init mem junk str = Inr (sso_init junk str)" and "string_ok (sso_init junk str)"
    and "string_eq (sso_init junk str) t \<longleftrightarrow> t = str"
  using assms by (auto simp: string_init_def sso_init_def string_ok_def string_eq_def SSO_SZ_def)

lemma string_init_long:
  assumes "SSO_SZ < length str" and "mem_ok mem" and "length str < 2 ^ 62" and "string_init mem junk str = Inr p"
  shows "string_ok p" and "string_size p = length str + 1" and "\<not> string_eq p str"
    and "take (length str + 1) (string_c_str p) = str @ [NUL]"
proof -
  obtain xs where xs: "mem ((length str + 1) * 2) = Some xs"
    and p: "p = NonSso \<lparr>vsize = length str + 1, vdata = Some (str @ [NUL] @ drop (length str + 1) xs),
        vcap = (length str + 1) * 2\<rparr>"
    using assms(1,4)
    by (auto simp: string_init_def vec_init_elems_def res_malloc_def split: option.splits if_splits)
  have l: "length xs = (length str + 1) * 2" by (rule mem_okD [OF assms(2) xs])
  have sz: "length str + 1 < 2 ^ 63" using assms(3) by simp
  show "string_ok p" using assms(1) sz l by (simp add: p string_ok_def vec_ok_def block_def SSO_SZ_def)
  show s: "string_size p = length str + 1" using sz by (simp add: p)
  show "\<not> string_eq p str" using s by (simp add: string_eq_def p)
  show "take (length str + 1) (string_c_str p) = str @ [NUL]" by (simp add: p block_def)
qed

lemma string_move_ok: "string_ok p \<Longrightarrow> \<exists>e. string_init_move raw p = Inr (p, e)"
  by (cases p) (auto simp: string_ok_def string_init_move_def vec_init_move_def SSO_SZ_def)

lemma string_copy_eq:
  assumes "string_ok p" and "mem_ok mem" and "string_init_copy mem raw p = Inr q"
  shows "string_ok q" and "string_eq q t \<longleftrightarrow> string_eq p t"
proof -
  have "string_ok q \<and> (string_eq q t \<longleftrightarrow> string_eq p t)"
  proof (cases p)
    case (Sso n b)
    then have "q = p" using assms by (auto simp: string_ok_def string_init_copy_def SSO_SZ_def)
    then show ?thesis using assms(1) by simp
  next
    case (NonSso v)
    have sz: "SSO_SZ + 1 < vsize v" "vsize v < 2 ^ 63" "vec_ok v" using assms(1) NonSso by (simp_all add: string_ok_def)
    obtain xs where xs: "mem (vcap v) = Some xs"
      and q: "q = NonSso \<lparr>vsize = vsize v,
          vdata = Some (map2 (\<lambda>_ c. c) xs (take (vsize v) (block v)) @ drop (vsize v) xs), vcap = vcap v\<rparr>"
      using assms(3) NonSso sz
      by (auto simp: string_init_copy_def vec_init_copy_def res_malloc_def split: option.splits if_splits)
    have l: "length xs = vcap v" by (rule mem_okD [OF assms(2) xs])
    have vc: "vsize v \<le> vcap v" "length (block v) = vcap v" using sz(3) by (simp_all add: vec_ok_def)
    have e: "map2 (\<lambda>_ c. c) xs (take (vsize v) (block v)) = take (vsize v) (block v)"
      by (rule map2_take) (use vc l in simp)
    show ?thesis
      using sz vc l unfolding q NonSso e string_ok_def vec_ok_def string_eq_def by (auto simp: block_def)
  qed
  then show "string_ok q" and "string_eq q t \<longleftrightarrow> string_eq p t" by blast+
qed

end
