(* ===== verification/KeyValue.thy ===== *)
theory KeyValue
  imports Prelude
begin

text \<open>
  The contract of a key-value store as the example programs use it: what a lookup returns after an
  insertion. The programs insert many keys and then look them up; the lemma of the locale is about that.
\<close>

section \<open>Key-value stores\<close>

fun load :: "('k \<Rightarrow> 'v \<Rightarrow> 's \<Rightarrow> 's run) \<Rightarrow> ('k \<times> 'v) list \<Rightarrow> 's \<Rightarrow> 's run" where
  "load put [] s = ret s"
| "load put ((k, v) # kvs) s = bindX (put k v s) (load put kvs)"

locale kv_store =
  fixes ok :: "'s \<Rightarrow> bool" and keys :: "'s \<Rightarrow> 'k set" and good :: "'k \<Rightarrow> bool"
    and put :: "'k \<Rightarrow> 'v \<Rightarrow> 's \<Rightarrow> 's run" and get :: "'k \<Rightarrow> 's \<Rightarrow> 'v run"
  assumes put_ok: "ok s \<Longrightarrow> good k \<Longrightarrow> k \<notin> keys s \<Longrightarrow> put k v s = ret s' \<Longrightarrow> ok s'"
    and put_keys: "ok s \<Longrightarrow> good k \<Longrightarrow> k \<notin> keys s \<Longrightarrow> put k v s = ret s' \<Longrightarrow> keys s' = insert k (keys s)"
    and put_get: "ok s \<Longrightarrow> good k \<Longrightarrow> k \<notin> keys s \<Longrightarrow> put k v s = ret s' \<Longrightarrow> get k s' = ret v"
    and put_other: "ok s \<Longrightarrow> good k \<Longrightarrow> k \<notin> keys s \<Longrightarrow> put k v s = ret s' \<Longrightarrow> j \<noteq> k \<Longrightarrow> get j s' = get j s"
begin

lemma load_spec:
  "ok s \<Longrightarrow> distinct (map fst kvs) \<Longrightarrow> \<forall>k\<in>fst ` set kvs. good k \<and> k \<notin> keys s \<Longrightarrow> load put kvs s = ret s' \<Longrightarrow>
   ok s' \<and> keys s' = keys s \<union> fst ` set kvs \<and> (\<forall>(k, v)\<in>set kvs. get k s' = ret v) \<and>
   (\<forall>j. j \<notin> fst ` set kvs \<longrightarrow> get j s' = get j s)"
proof (induction kvs arbitrary: s)
  case (Cons kv kvs)
  obtain k v where kv: "kv = (k, v)" by (cases kv)
  obtain s1 where s1: "put k v s = ret s1" and l: "load put kvs s1 = ret s'"
    using Cons.prems(4) by (auto simp: kv bindX_eq_ret ret_def)
  have k: "good k" "k \<notin> keys s" using Cons.prems(3) kv by auto
  note p = put_ok [OF Cons.prems(1) k s1] put_keys [OF Cons.prems(1) k s1] put_get [OF Cons.prems(1) k s1]
  have d: "distinct (map fst kvs)" "k \<notin> fst ` set kvs" using Cons.prems(2) kv by auto
  have "\<forall>j\<in>fst ` set kvs. good j \<and> j \<notin> keys s1" using Cons.prems(3) p(2) d(2) by auto
  note IH = Cons.IH [OF p(1) d(1) this l]
  have "get k s' = ret v" using IH d(2) p(3) by simp
  moreover have "get j s' = get j s" if "j \<notin> fst ` set (kv # kvs)" for j
    using IH put_other [OF Cons.prems(1) k s1, of j] that kv by auto
  ultimately show ?case using IH p(2) kv by auto
qed (auto simp: ret_def)

lemma load_get:
  assumes "ok s" and "distinct (map fst kvs)" and "\<forall>k\<in>fst ` set kvs. good k \<and> k \<notin> keys s"
    and "load put kvs s = ret s'" and "(k, v) \<in> set kvs"
  shows "get k s' = ret v"
  using load_spec [OF assms(1-4)] assms(5) by blast

end

end
