(* ===== verification/SimpleKv.thy ===== *)
theory SimpleKv
  imports Containers KeyValue OsEnv
begin

text \<open>
  The hash map of the key-value examples: src/src/examples/simplekv\_cxlbuf/simplekv\_puddles.hh and
  src/src/examples/simplekv\_famus/simplekv\_famus.hh, whose classes differ in what makes an update
  persistent, and the loops of the program in simplekv\_puddles.cc. \<open>std::hash\<close> is a parameter, and so are
  the blocks the allocator hands out.
\<close>

section \<open>The hash map of the key-value examples\<close>

record kvmem =
  m_val :: "int malloc"
  m_buc :: "kpair malloc"
  m_chr :: "char malloc"
  m_junk :: "char list"
  m_raw :: "char vec \<Rightarrow> char list"

record 'e simple_kv =
  buckets :: "kpair vec list"
  kvals :: "int vec"
  kenv :: 'e

primrec init_buckets :: "kvmem \<Rightarrow> nat \<Rightarrow> kpair vec list res" where
  "init_buckets mem 0 = Inr []"
| "init_buckets mem (Suc n) =
     bindR (init_buckets mem n) (\<lambda>bs. bindR (vec_init (m_buc mem)) (\<lambda>b. Inr (bs @ [b])))"

definition kv_init :: "kvmem \<Rightarrow> nat \<Rightarrow> 'e \<Rightarrow> 'e simple_kv res" where
  "kv_init mem n e =
     bindR (init_buckets mem n) (\<lambda>bs.
     bindR (vec_init (m_val mem)) (\<lambda>vs. Inr \<lparr>buckets = bs, kvals = vs, kenv = e\<rparr>))"

definition kv_index :: "(string \<Rightarrow> nat) \<Rightarrow> string \<Rightarrow> 'e simple_kv \<Rightarrow> nat" where
  "kv_index hash key s = hash key mod length (buckets s)"

fun kv_find :: "kpair vec \<Rightarrow> string \<Rightarrow> nat list \<Rightarrow> nat option res" where
  "kv_find b key [] = Inr None"
| "kv_find b key (i # js) =
     bindR (vec_at b i) (\<lambda>e. if string_eq (fst e) key then Inr (Some (snd e)) else kv_find b key js)"

definition kv_get :: "(string \<Rightarrow> nat) \<Rightarrow> string \<Rightarrow> 'e simple_kv \<Rightarrow> int res" where
  "kv_get hash key s =
     (let b = buckets s ! kv_index hash key s
      in bindR (kv_find b key [0..<vsize b]) (\<lambda>r.
         case r of None \<Rightarrow> Inl Uncaught | Some j \<Rightarrow> vec_at (kvals s) j))"

definition kv_persist :: "('e \<Rightarrow> 'e res) \<Rightarrow> bool \<Rightarrow> 'e simple_kv \<Rightarrow> 'e simple_kv res" where
  "kv_persist sy persist s =
     (if persist then bindR (sy (kenv s)) (\<lambda>e. Inr (s\<lparr>kenv := e\<rparr>)) else Inr s)"

definition kv_put ::
  "('e \<Rightarrow> 'e res) \<Rightarrow> (string \<Rightarrow> nat) \<Rightarrow> kvmem \<Rightarrow> string \<Rightarrow> int \<Rightarrow> bool \<Rightarrow> 'e simple_kv \<Rightarrow> 'e simple_kv res" where
  "kv_put sy hash mem key val persist s =
     (let index = kv_index hash key s; b = buckets s ! index
      in bindR (kv_find b key [0..<vsize b]) (\<lambda>r.
         case r of
           Some j \<Rightarrow>
             bindR (vec_put (nat (val mod 2 ^ 64)) (\<lambda>_. signed_take_bit 31 (int j)) (kvals s)) (\<lambda>vs.
               kv_persist sy persist (s\<lparr>kvals := vs\<rparr>))
         | None \<Rightarrow>
             bindR (vec_push_back (m_val mem) (\<lambda>_ x. x) (\<lambda>_ x. x) val (kvals s)) (\<lambda>vs.
             bindR (string_init (m_chr mem) (m_junk mem) key) (\<lambda>k.
             bindR (pair_init_move (m_raw mem) (pair_ctor_move k (vsize vs - 1))) (\<lambda>pe.
             bindR (vec_push_back (m_buc mem) (\<lambda>_ x. x) (\<lambda>_ x. x) (fst pe) b) (\<lambda>b'.
               kv_persist sy persist (s\<lparr>kvals := vs, buckets := (buckets s)[index := b']\<rparr>)))))))"

text \<open>The class of simplekv\_puddles.hh makes an update persistent with an \<open>msync\<close> of the whole file.\<close>

definition reservoir_sync :: "nat \<Rightarrow> nat res" where
  "reservoir_sync n = Inr (n + 1)"

definition puddles_put ::
  "(string \<Rightarrow> nat) \<Rightarrow> kvmem \<Rightarrow> string \<Rightarrow> int \<Rightarrow> bool \<Rightarrow> nat simple_kv \<Rightarrow> nat simple_kv res" where
  "puddles_put = kv_put reservoir_sync"

text \<open>
  The class of simplekv\_famus.hh clones the file instead. The kernel and the lookup of the file name behind
  a descriptor are the parameter \<open>fo\<close>; \<open>snap_fd\<close> is the global descriptor of the snapshot file.
\<close>

record 'o fos =
  f_name :: "int \<Rightarrow> string"
  f_open :: "string \<Rightarrow> 'o \<Rightarrow> int \<times> 'o"
  f_fstat :: "int \<Rightarrow> 'o \<Rightarrow> int \<times> nat"
  f_ficlone :: "int \<Rightarrow> int \<Rightarrow> 'o \<Rightarrow> int \<times> 'o"
  f_fsync :: "int \<Rightarrow> 'o \<Rightarrow> int \<times> 'o"
  f_fchmod :: "int \<Rightarrow> nat \<Rightarrow> 'o \<Rightarrow> int \<times> 'o"
  f_lseek :: "int \<Rightarrow> 'o \<Rightarrow> int \<times> 'o"

record 'o famus =
  snap_fd :: int
  fam_os :: 'o

definition S_IRUSR :: nat where
  "S_IRUSR = 256"

definition S_IWUSR :: nat where
  "S_IWUSR = 128"

definition rwperm :: "nat \<Rightarrow> bool \<Rightarrow> bool \<Rightarrow> bool" where
  "rwperm m r w \<longleftrightarrow> (bit m 8 = r) \<and> (bit m 7 = w)"

definition fatal_if :: "bool \<Rightarrow> 'a res \<Rightarrow> 'a res" where
  "fatal_if cond k = (if cond then Inl ExitFailure else k)"

definition famus_open :: "'o fos \<Rightarrow> int \<Rightarrow> 'o famus \<Rightarrow> 'o famus res" where
  "famus_open fo bfd e =
     (if snap_fd e = - 1
      then (let (fd, o1) = f_open fo (f_name fo bfd @ ''.snapshot'') (fam_os e)
            in fatal_if (fd = - 1) (Inr (e\<lparr>snap_fd := fd, fam_os := o1\<rparr>)))
      else Inr e)"

definition famus_snap_sync :: "'o fos \<Rightarrow> int \<Rightarrow> 'o famus \<Rightarrow> 'o famus res" where
  "famus_snap_sync fo bfd e =
     bindR (famus_open fo bfd e) (\<lambda>e.
     let fd = snap_fd e; (r1, m1) = f_fstat fo fd (fam_os e) in fatal_if (r1 \<noteq> 0)
    (let (r2, o2) = f_ficlone fo fd bfd (fam_os e) in fatal_if (r2 \<noteq> 0)
    (let (r3, o3) = f_fsync fo fd o2 in fatal_if (r3 \<noteq> 0)
    (let (r4, o4) = f_fchmod fo fd S_IRUSR o3 in fatal_if (r4 \<noteq> 0)
    (let (r5, m5) = f_fstat fo fd o4 in fatal_if (r5 \<noteq> 0) (fatal_if (\<not> rwperm m5 True False)
    (let (r6, o6) = f_fsync fo fd o4 in fatal_if (r6 \<noteq> 0)
    (let (r7, o7) = f_lseek fo fd o6 in fatal_if (r7 \<noteq> 0)
      (Inr (e\<lparr>fam_os := o7\<rparr>))))))))))"

definition famus_put ::
  "'o fos \<Rightarrow> int \<Rightarrow> (string \<Rightarrow> nat) \<Rightarrow> kvmem \<Rightarrow> string \<Rightarrow> int \<Rightarrow> bool \<Rightarrow> 'o famus simple_kv \<Rightarrow> 'o famus simple_kv res" where
  "famus_put fo res_fd = kv_put (famus_snap_sync fo res_fd)"

subsection \<open>The loops of the program\<close>

text \<open>\<open>sprintf(key, "key%d", i)\<close>, and the lines of a trace, an operation and a key separated by a blank.\<close>

definition burst_key :: "nat \<Rightarrow> string" where
  "burst_key i = ''key'' @ dec_str i"

definition burst_put ::
  "(string \<Rightarrow> nat) \<Rightarrow> kvmem \<Rightarrow> nat \<Rightarrow> nat simple_kv \<Rightarrow> nat simple_kv run" where
  "burst_put hash mem m s =
     load (\<lambda>k v s. Some (puddles_put hash mem k v True s)) (map (\<lambda>i. (burst_key i, int i)) [0..<m]) s"

fun burst_get :: "(string \<Rightarrow> nat) \<Rightarrow> nat list \<Rightarrow> nat simple_kv \<Rightarrow> int list res" where
  "burst_get hash [] s = Inr []"
| "burst_get hash (i # js) s =
     bindR (kv_get hash (burst_key i) s) (\<lambda>v. bindR (burst_get hash js s) (\<lambda>vs. Inr (v # vs)))"

definition line_op :: "string \<Rightarrow> string" where
  "line_op line = takeWhile (\<lambda>c. c \<noteq> CHR '' '') line"

definition line_key :: "string \<Rightarrow> string" where
  "line_key line = (if CHR '' '' \<in> set line then tl (dropWhile (\<lambda>c. c \<noteq> CHR '' '') line) else line)"

definition ycsb_value :: int where
  "ycsb_value = 4455"

definition ycsb_load ::
  "(string \<Rightarrow> nat) \<Rightarrow> kvmem \<Rightarrow> string list \<Rightarrow> nat simple_kv \<Rightarrow> nat simple_kv run" where
  "ycsb_load hash mem lines s =
     bindX (load (\<lambda>k v s. Some (puddles_put hash mem k v False s)) (map (\<lambda>l. (line_key l, ycsb_value)) lines) s)
       (\<lambda>s. Some (puddles_put hash mem ''a'' 0 True s))"

fun ycsb_run ::
  "(string \<Rightarrow> nat) \<Rightarrow> kvmem \<Rightarrow> string list \<Rightarrow> nat \<times> nat \<times> nat \<Rightarrow> nat simple_kv \<Rightarrow>
   ((nat \<times> nat \<times> nat) \<times> nat simple_kv) res" where
  "ycsb_run hash mem [] acc s = Inr (acc, s)"
| "ycsb_run hash mem (l # ls) (reads, writes, result) s =
     (if line_op l = ''Update''
      then bindR (puddles_put hash mem (line_key l) ycsb_value True s)
             (ycsb_run hash mem ls (reads, writes + 1, result))
      else if line_op l = ''Read''
      then (case kv_get hash (line_key l) s of
              Inr v \<Rightarrow> ycsb_run hash mem ls (reads + 1, writes, nat ((int result + v) mod 2 ^ 64)) s
            | Inl Uncaught \<Rightarrow> Inl ExitFailure
            | Inl e \<Rightarrow> Inl e)
      else ycsb_run hash mem ls (reads, writes, result) s)"

subsection \<open>The map behind the buckets\<close>

definition kv_ok :: "'e simple_kv \<Rightarrow> bool" where
  "kv_ok s \<longleftrightarrow> buckets s \<noteq> [] \<and> vec_ok (kvals s) \<and>
     (\<forall>b\<in>set (buckets s). vec_ok b \<and> (\<forall>e\<in>set (elems b). snd e < vsize (kvals s)))"

definition kv_slot :: "(string \<Rightarrow> nat) \<Rightarrow> string \<Rightarrow> 'e simple_kv \<Rightarrow> nat option" where
  "kv_slot hash key s =
     map_option snd (List.find (\<lambda>e. string_eq (fst e) key) (elems (buckets s ! kv_index hash key s)))"

definition kv_keys :: "(string \<Rightarrow> nat) \<Rightarrow> 'e simple_kv \<Rightarrow> string set" where
  "kv_keys hash s = {k. kv_slot hash k s \<noteq> None}"

definition kvmem_ok :: "kvmem \<Rightarrow> bool" where
  "kvmem_ok mem \<longleftrightarrow> mem_ok (m_val mem) \<and> mem_ok (m_buc mem) \<and> mem_ok (m_chr mem) \<and> length (m_junk mem) = SSO_SZ + 1"

lemma kv_find_elems:
  assumes "vec_ok b"
  shows "i \<le> vsize b \<Longrightarrow> kv_find b key [i..<vsize b] =
    Inr (map_option snd (List.find (\<lambda>e. string_eq (fst e) key) (drop i (elems b))))"
proof (induction "vsize b - i" arbitrary: i)
  case 0
  then show ?case using length_elems [OF assms] by simp
next
  case (Suc d)
  have i: "i < vsize b" using Suc.hyps(2) by simp
  have dr: "drop i (elems b) = elems b ! i # drop (Suc i) (elems b)"
    using i length_elems [OF assms] by (simp add: Cons_nth_drop_Suc)
  show ?case
    using Suc.hyps(1) [of "Suc i"] Suc.hyps(2) i vec_at_elems [OF assms i]
    by (simp add: upt_conv_Cons dr)
qed

lemma kv_bucket: "kv_ok s \<Longrightarrow> kv_index hash key s < length (buckets s) \<and> vec_ok (buckets s ! kv_index hash key s)"
  by (auto simp: kv_ok_def kv_index_def)

lemma kv_find_slot:
  assumes "kv_ok s"
  shows "kv_find (buckets s ! kv_index hash key s) key [0..<vsize (buckets s ! kv_index hash key s)] =
    Inr (kv_slot hash key s)"
  using kv_find_elems [of "buckets s ! kv_index hash key s" 0 key] kv_bucket [OF assms, of hash key]
  by (simp add: kv_slot_def)

lemma kv_slot_bound: "kv_ok s \<Longrightarrow> kv_slot hash key s = Some j \<Longrightarrow> j < vsize (kvals s)"
proof -
  assume ok: "kv_ok s" and j: "kv_slot hash key s = Some j"
  let ?b = "buckets s ! kv_index hash key s"
  obtain e where "e \<in> set (elems ?b)" "j = snd e"
    using j by (auto simp: kv_slot_def find_Some_iff) (metis nth_mem snd_conv)
  moreover have "?b \<in> set (buckets s)" using kv_bucket [OF ok] by simp
  ultimately show ?thesis using ok unfolding kv_ok_def by blast
qed

lemma kv_get_slot:
  assumes "kv_ok s"
  shows "kv_get hash key s =
    (case kv_slot hash key s of None \<Rightarrow> Inl Uncaught | Some j \<Rightarrow> Inr (elems (kvals s) ! j))"
  using kv_find_slot [OF assms, of hash key] kv_slot_bound [OF assms, of hash key] assms vec_at_elems
  by (auto simp: kv_get_def Let_def kv_ok_def split: option.splits)

lemma kv_persist_ok:
  assumes "kv_persist sy persist s = Inr s'"
  shows "buckets s' = buckets s" and "kvals s' = kvals s"
  using assms by (auto simp: kv_persist_def bindR_eq_Inr split: if_splits)

lemma find_snoc:
  "List.find P (xs @ [x]) = (case List.find P xs of None \<Rightarrow> if P x then Some x else None | Some y \<Rightarrow> Some y)"
  by (induction xs) auto

lemma kv_put_new:
  assumes ok: "kv_ok s" and m: "kvmem_ok mem" and new: "kv_slot hash key s = None"
    and st: "string_init (m_chr mem) (m_junk mem) key = Inr k" "string_ok k"
    and p: "kv_put sy hash mem key val persist s = Inr s'"
  shows "elems (kvals s') = elems (kvals s) @ [val]" and "vec_ok (kvals s')" and "vsize (kvals s') = vsize (kvals s) + 1"
    and "\<exists>b'. buckets s' = (buckets s)[kv_index hash key s := b'] \<and> vec_ok b' \<and>
      elems b' = elems (buckets s ! kv_index hash key s) @ [(k, vsize (kvals s))]"
proof -
  let ?i = "kv_index hash key s"
  have mo: "mem_ok (m_val mem)" "mem_ok (m_buc mem)" using m by (simp_all add: kvmem_ok_def)
  have vo: "vec_ok (kvals s)" using ok by (simp add: kv_ok_def)
  have f: "kv_find (buckets s ! ?i) key [0..<vsize (buckets s ! ?i)] = Inr None" using kv_find_slot [OF ok] new by simp
  obtain vs where vs: "vec_push_back (m_val mem) (\<lambda>_ x. x) (\<lambda>_ x. x) val (kvals s) = Inr vs"
    using p f by (auto simp: kv_put_def Let_def bindR_eq_Inr)
  note v = push_back_ok [OF mo(1) vo vs]
  obtain e where e: "string_init_move (m_raw mem) k = Inr (k, e)" using string_move_ok [OF st(2)] by blast
  obtain b' where b: "vec_push_back (m_buc mem) (\<lambda>_ x. x) (\<lambda>_ x. x) (k, vsize (kvals s)) (buckets s ! ?i) = Inr b'"
    and fin: "kv_persist sy persist (s\<lparr>kvals := vs, buckets := (buckets s)[?i := b']\<rparr>) = Inr s'"
    using p f vs st(1) e v(3)
    by (auto simp: kv_put_def Let_def bindR_eq_Inr pair_ctor_move_def pair_init_move_def)
  note bo = push_back_ok [OF mo(2) conjunct2 [OF kv_bucket [OF ok]] b]
  note fi = kv_persist_ok [OF fin]
  show "elems (kvals s') = elems (kvals s) @ [val]" and "vec_ok (kvals s')" and "vsize (kvals s') = vsize (kvals s) + 1"
    using v fi by simp_all
  show "\<exists>b'. buckets s' = (buckets s)[?i := b'] \<and> vec_ok b' \<and>
      elems b' = elems (buckets s ! ?i) @ [(k, vsize (kvals s))]"
    using bo fi by auto
qed

lemma kv_put_new_slot:
  assumes ok: "kv_ok s" and m: "kvmem_ok mem" and new: "kv_slot hash key s = None"
    and st: "string_init (m_chr mem) (m_junk mem) key = Inr k" "string_ok k"
    and eq: "string_eq k t \<longleftrightarrow> found \<and> t = key"
    and p: "kv_put sy hash mem key val persist s = Inr s'"
  shows "kv_ok s'" and "kv_slot hash t s' = (if found \<and> t = key then Some (vsize (kvals s)) else kv_slot hash t s)"
proof -
  let ?i = "kv_index hash key s" and ?e = "(k, vsize (kvals s))"
  note f = kv_put_new(1-3) [OF ok m new st p]
  obtain b' where b: "buckets s' = (buckets s)[?i := b']" "vec_ok b'" "elems b' = elems (buckets s ! ?i) @ [?e]"
    using kv_put_new(4) [OF ok m new st p] by blast
  have i: "?i < length (buckets s)" using kv_bucket [OF ok] by blast
  have "vec_ok b \<and> (\<forall>e\<in>set (elems b). snd e < vsize (kvals s'))" if "b \<in> set (buckets s')" for b
  proof -
    have "b = b' \<or> b \<in> set (buckets s)" using that b(1) set_update_subset_insert by fastforce
    moreover have "buckets s ! ?i \<in> set (buckets s)" using i by simp
    ultimately show ?thesis using ok b(2,3) f(3) unfolding kv_ok_def by fastforce
  qed
  then show "kv_ok s'" using ok f(2) b(1) unfolding kv_ok_def by auto
  have ix: "kv_index hash t s' = kv_index hash t s" using b(1) by (simp add: kv_index_def)
  show "kv_slot hash t s' = (if found \<and> t = key then Some (vsize (kvals s)) else kv_slot hash t s)"
  proof (cases "kv_index hash t s = ?i")
    case True
    then show ?thesis
      using new eq i b(1,3) ix by (auto simp: kv_slot_def find_snoc split: option.splits)
  next
    case False
    then have "t \<noteq> key" by auto
    then show ?thesis using False ix b(1) by (simp add: kv_slot_def)
  qed
qed

lemma kv_put_new_get:
  assumes ok: "kv_ok s" and m: "kvmem_ok mem" and new: "kv_slot hash key s = None"
    and st: "string_init (m_chr mem) (m_junk mem) key = Inr k" "string_ok k"
    and eq: "string_eq k t \<longleftrightarrow> found \<and> t = key"
    and p: "kv_put sy hash mem key val persist s = Inr s'"
  shows "kv_get hash t s' = (if found \<and> t = key then Inr val else kv_get hash t s)"
proof -
  note a = kv_put_new_slot [OF ok m new st eq p] and f = kv_put_new(1) [OF ok m new st p]
  have l: "length (elems (kvals s)) = vsize (kvals s)" using ok length_elems [of "kvals s"] by (simp add: kv_ok_def)
  show ?thesis
    using kv_get_slot [OF a(1), of hash t] kv_get_slot [OF ok, of hash t] kv_slot_bound [OF ok, of hash t] a(2) f l
    by (auto simp: nth_append split: option.splits)
qed

interpretation puddles: kv_store "\<lambda>s. kvmem_ok mem \<and> kv_ok s" "kv_keys hash" "\<lambda>k. length k \<le> SSO_SZ"
  "\<lambda>k v s. Some (puddles_put hash mem k v persist s)" "\<lambda>k s. Some (kv_get hash k s)" for mem hash persist
proof unfold_locales
  fix s s' :: "nat simple_kv" and k :: string and v :: int
  assume s: "kvmem_ok mem \<and> kv_ok s" and k: "length k \<le> SSO_SZ" and new: "k \<notin> kv_keys hash s"
    and p: "Some (puddles_put hash mem k v persist s) = ret s'"
  have new': "kv_slot hash k s = None" using new by (simp add: kv_keys_def)
  have p': "kv_put reservoir_sync hash mem k v persist s = Inr s'" using p by (simp add: puddles_put_def ret_def)
  have st: "string_init (m_chr mem) (m_junk mem) k = Inr (sso_init (m_junk mem) k)" "string_ok (sso_init (m_junk mem) k)"
    "\<And>t. string_eq (sso_init (m_junk mem) k) t \<longleftrightarrow> True \<and> t = k"
    using string_init_short [OF k] s by (simp_all add: kvmem_ok_def)
  note a = kv_put_new_slot [OF conjunct2 [OF s] conjunct1 [OF s] new' st p']
  note g = kv_put_new_get [OF conjunct2 [OF s] conjunct1 [OF s] new' st p']
  show "kvmem_ok mem \<and> kv_ok s'" using s a(1) by blast
  show "kv_keys hash s' = insert k (kv_keys hash s)" using a(2) by (auto simp: kv_keys_def)
  show "Some (kv_get hash k s') = ret v" using g by (simp add: ret_def)
  show "Some (kv_get hash j s') = Some (kv_get hash j s)" if "j \<noteq> k" for j using g that by simp
qed

subsection \<open>The program\<close>

lemma init_buckets_ok:
  "mem_ok (m_buc mem) \<Longrightarrow> init_buckets mem n = Inr bs \<Longrightarrow>
   length bs = n \<and> (\<forall>b\<in>set bs. vec_ok b \<and> elems b = [])"
proof (induction n arbitrary: bs)
  case (Suc n)
  then obtain cs c where "init_buckets mem n = Inr cs" "vec_init (m_buc mem) = Inr c" "bs = cs @ [c]"
    by (auto simp: bindR_eq_Inr)
  then show ?case using Suc.IH [OF Suc.prems(1)] vec_init_ok [OF Suc.prems(1)] by auto
qed simp

lemma kv_init_ok:
  assumes "kvmem_ok mem" and "0 < n" and "kv_init mem n e = Inr s"
  shows "kv_ok s" and "kv_keys hash s = {}"
proof -
  obtain bs vs where b: "init_buckets mem n = Inr bs" "vec_init (m_val mem) = Inr vs" and s: "s = \<lparr>buckets = bs, kvals = vs, kenv = e\<rparr>"
    using assms(3) by (auto simp: kv_init_def bindR_eq_Inr)
  have bo: "length bs = n" "\<And>b. b \<in> set bs \<Longrightarrow> vec_ok b \<and> elems b = []"
    using init_buckets_ok [OF _ b(1)] assms(1) by (auto simp: kvmem_ok_def)
  show "kv_ok s" using bo assms(2) vec_init_ok [OF _ b(2)] assms(1) by (auto simp: kv_ok_def s kvmem_ok_def)
  have "elems (bs ! (hash k mod length bs)) = []" for k using bo assms(2) by simp
  then show "kv_keys hash s = {}" by (simp add: kv_keys_def kv_slot_def kv_index_def s)
qed

lemma dec_str_length: "n < 10 ^ Suc k \<Longrightarrow> length (dec_str n) \<le> Suc k"
proof (induction k arbitrary: n)
  case (Suc k)
  show ?case
  proof (cases "n < 10")
    case False
    have "n div 10 < 10 ^ Suc k" using Suc.prems by (simp add: less_mult_imp_div_less mult.commute)
    from Suc.IH [OF this] show ?thesis using False by (subst dec_str.simps) simp
  qed (subst dec_str.simps, simp)
qed (subst dec_str.simps, simp)

lemma burst_key_inj: "burst_key i = burst_key j \<longleftrightarrow> i = j"
  by (metis burst_key_def digits_val_dec_str same_append_eq)

lemma burst_key_short: "i < 2 ^ 31 \<Longrightarrow> length (burst_key i) \<le> SSO_SZ"
  using dec_str_length [of i 9] by (simp add: burst_key_def SSO_SZ_def)

lemma burst_get_all:
  "(\<And>i. i \<in> set js \<Longrightarrow> kv_get hash (burst_key i) s = Inr (int i)) \<Longrightarrow> burst_get hash js s = Inr (map int js)"
  by (induction js) auto


lemma vec_put_elems:
  assumes "vec_ok v" and "vec_put i f v = Inr v'"
  shows "vec_ok v'" and "vsize v' = vsize v"
    and "elems v' = (if i < vsize v then (elems v)[i := f (elems v ! i)] else elems v)"
proof -
  obtain xs where xs: "vdata v = Some xs" "i < length xs" "v' = v\<lparr>vdata := Some (xs[i := f (xs ! i)])\<rparr>"
    using assms(2) by (auto simp: vec_put_def guardR_eq_Inr split: option.splits)
  show "vec_ok v'" and "vsize v' = vsize v"
    and "elems v' = (if i < vsize v then (elems v)[i := f (elems v ! i)] else elems v)"
    using assms(1) xs by (auto simp: vec_ok_def block_def elems_def take_update_swap list_update_beyond)
qed

lemma kv_put_old:
  assumes ok: "kv_ok s" and old: "kv_slot hash key s = Some j" and p: "kv_put sy hash mem key val persist s = Inr s'"
  defines "i \<equiv> nat (val mod 2 ^ 64)"
  shows "kv_ok s'" and "kv_slot hash k s' = kv_slot hash k s"
    and "elems (kvals s') = (if i < vsize (kvals s) then (elems (kvals s))[i := signed_take_bit 31 (int j)] else elems (kvals s))"
proof -
  have f: "kv_find (buckets s ! kv_index hash key s) key [0..<vsize (buckets s ! kv_index hash key s)] = Inr (Some j)"
    using kv_find_slot [OF ok] old by simp
  obtain vs where vs: "vec_put i (\<lambda>_. signed_take_bit 31 (int j)) (kvals s) = Inr vs"
    and fin: "kv_persist sy persist (s\<lparr>kvals := vs\<rparr>) = Inr s'"
    using p f by (auto simp: kv_put_def Let_def bindR_eq_Inr i_def)
  have vo: "vec_ok (kvals s)" using ok by (simp add: kv_ok_def)
  note v = vec_put_elems [OF vo vs] and fi = kv_persist_ok [OF fin]
  show "kv_ok s'" using ok v(1,2) fi by (simp add: kv_ok_def)
  show "kv_slot hash k s' = kv_slot hash k s" using fi by (simp add: kv_slot_def kv_index_def)
  show "elems (kvals s') = (if i < vsize (kvals s) then (elems (kvals s))[i := signed_take_bit 31 (int j)] else elems (kvals s))"
    using v(3) fi by simp
qed

text \<open>
  C39: \<open>put\<close> on a key the store holds does not update it. It takes the new value as an index: the slot with
  that number receives the index of the key, whichever key it belongs to, and every other key keeps its
  old value, among them the key itself.
\<close>

theorem kv_update_misdirected:
  assumes ok: "kv_ok s" and old: "kv_slot hash key s = Some j"
    and p: "puddles_put hash mem key val persist s = Inr s'" and k: "kv_slot hash k s = Some i"
  shows "kv_get hash k s' =
    (if int i = val mod 2 ^ 64 then Inr (signed_take_bit 31 (int j)) else kv_get hash k s)"
proof -
  note o = kv_put_old [OF ok old p [unfolded puddles_put_def]]
  have i: "i < vsize (kvals s)" by (rule kv_slot_bound [OF ok k])
  have l: "length (elems (kvals s)) = vsize (kvals s)" using ok length_elems [of "kvals s"] by (simp add: kv_ok_def)
  have "int i = val mod 2 ^ 64 \<longleftrightarrow> i = nat (val mod 2 ^ 64)" by auto
  then show ?thesis
    using kv_get_slot [OF o(1), of hash k] kv_get_slot [OF ok, of hash k] o(2,3) k i l by auto
qed

text \<open>
  A key of more than 23 characters is stored and never found: \<open>get\<close> right after \<open>put\<close> throws.
\<close>

theorem kv_long_key_lost:
  assumes ok: "kv_ok s" and m: "kvmem_ok mem" and sz: "SSO_SZ < length key" "length key < 2 ^ 62"
    and new: "kv_get hash key s = Inl Uncaught" and p: "puddles_put hash mem key val persist s = Inr s'"
  shows "kv_get hash key s' = Inl Uncaught"
proof -
  have n: "kv_slot hash key s = None" using new kv_get_slot [OF ok, of hash key] by (cases "kv_slot hash key s") auto
  obtain k where k: "string_init (m_chr mem) (m_junk mem) key = Inr k"
    using p kv_find_slot [OF ok, of hash key] n by (auto simp: puddles_put_def kv_put_def Let_def bindR_eq_Inr)
  have mc: "mem_ok (m_chr mem)" using m by (simp add: kvmem_ok_def)
  note l = string_init_long [OF sz(1) mc sz(2) k]
  have "string_eq k key \<longleftrightarrow> False \<and> key = key" using l(3) by simp
  from kv_put_new_get [OF ok m n k l(1) this p [unfolded puddles_put_def]] show ?thesis using new by simp
qed

definition mem_total :: "kvmem \<Rightarrow> bool" where
  "mem_total mem \<longleftrightarrow> (\<forall>n. m_val mem n \<noteq> None \<and> m_buc mem n \<noteq> None \<and> m_chr mem n \<noteq> None)"

lemma string_init_returns:
  assumes "mem_ok (m_chr mem)" and "mem_total mem" and "length (m_junk mem) = SSO_SZ + 1" and "length key < 2 ^ 62"
  shows "\<exists>k. string_init (m_chr mem) (m_junk mem) key = Inr k \<and> string_ok k"
proof (cases "length key \<le> SSO_SZ")
  case True
  then show ?thesis using string_init_short [OF True assms(3)] by blast
next
  case False
  obtain xs where "m_chr mem ((length key + 1) * 2) = Some xs" using assms(2) unfolding mem_total_def by blast
  then have "\<exists>k. string_init (m_chr mem) (m_junk mem) key = Inr k"
    using False by (simp add: string_init_def vec_init_elems_def res_malloc_def)
  then show ?thesis using string_init_long(1) [OF _ assms(1,4)] False by auto
qed

lemma kv_put_new_returns:
  assumes ok: "kv_ok s" and m: "kvmem_ok mem" and t: "mem_total mem" and new: "kv_slot hash key s = None"
    and sz: "length key < 2 ^ 62" and sy: "\<And>e. \<exists>e'. sy e = Inr e'"
  shows "\<exists>s'. kv_put sy hash mem key val persist s = Inr s'"
proof -
  have mo: "mem_ok (m_val mem)" "mem_ok (m_buc mem)" "mem_ok (m_chr mem)" "length (m_junk mem) = SSO_SZ + 1"
    using m by (simp_all add: kvmem_ok_def)
  have tt: "\<And>n. m_val mem n \<noteq> None" "\<And>n. m_buc mem n \<noteq> None" using t by (simp_all add: mem_total_def)
  have vo: "vec_ok (kvals s)" using ok by (simp add: kv_ok_def)
  obtain vs where vs: "vec_push_back (m_val mem) (\<lambda>_ x. x) (\<lambda>_ x. x) val (kvals s) = Inr vs"
    using push_back_returns [OF mo(1) vo tt(1)] by blast
  obtain k where k: "string_init (m_chr mem) (m_junk mem) key = Inr k" "string_ok k"
    using string_init_returns [OF mo(3) t mo(4) sz] by blast
  obtain e where e: "string_init_move (m_raw mem) k = Inr (k, e)" using string_move_ok [OF k(2)] by blast
  obtain b' where b: "vec_push_back (m_buc mem) (\<lambda>_ x. x) (\<lambda>_ x. x) (k, vsize vs - 1) (buckets s ! kv_index hash key s) = Inr b'"
    using push_back_returns [OF mo(2) conjunct2 [OF kv_bucket [OF ok]] tt(2)] by blast
  have pe: "\<exists>s'. kv_persist sy persist u = Inr s'" for u using sy [of "kenv u"] by (auto simp: kv_persist_def)
  show ?thesis
    using kv_find_slot [OF ok, of hash key] new vs k(1) e b pe
    by (simp add: kv_put_def Let_def pair_ctor_move_def pair_init_move_def)
qed

lemma puddles_put_returns:
  assumes "kv_ok s" and "kvmem_ok mem" and "mem_total mem" and "kv_slot hash key s = None" and "length key < 2 ^ 62"
  shows "\<exists>s'. puddles_put hash mem key val persist s = Inr s'"
  unfolding puddles_put_def by (rule kv_put_new_returns [OF assms]) (simp add: reservoir_sync_def)

subsection \<open>A store with two keys\<close>

definition zero_mem :: kvmem where
  "zero_mem = \<lparr>m_val = (\<lambda>n. Some (replicate n 0)), m_buc = (\<lambda>n. Some (replicate n (Sso 0 [], 0))),
     m_chr = (\<lambda>n. Some (replicate n NUL)), m_junk = replicate 24 NUL, m_raw = (\<lambda>_. replicate 24 NUL)\<rparr>"

lemma zero_mem_ok: "kvmem_ok zero_mem" "mem_total zero_mem"
  by (simp_all add: kvmem_ok_def mem_ok_def mem_total_def zero_mem_def SSO_SZ_def)

definition demo_kv :: "nat simple_kv" where
  "demo_kv = \<lparr>buckets = [\<lparr>vsize = 2, vdata = Some [(sso_init (replicate 24 NUL) ''a'', 0),
       (sso_init (replicate 24 NUL) ''b'', 1)], vcap = 2\<rparr>],
     kvals = \<lparr>vsize = 2, vdata = Some [7, 8], vcap = 2\<rparr>, kenv = 0\<rparr>"

lemma demo_kv_ok: "kv_ok demo_kv"
  by (simp add: kv_ok_def demo_kv_def vec_ok_def elems_def block_def)

lemma demo_kv_slots: "kv_slot hash ''a'' demo_kv = Some 0" "kv_slot hash ''b'' demo_kv = Some 1"
  by (simp_all add: kv_slot_def kv_index_def demo_kv_def elems_def block_def string_eq_def sso_init_def)

theorem kv_update_misdirected_witness:
  "\<exists>s'. puddles_put (\<lambda>_. 0) zero_mem ''a'' 1 True demo_kv = Inr s' \<and>
     kv_get (\<lambda>_. 0) ''a'' s' = Inr 7 \<and> kv_get (\<lambda>_. 0) ''b'' s' = Inr 0"
proof -
  obtain s' where p: "puddles_put (\<lambda>_. 0) zero_mem ''a'' 1 True demo_kv = Inr s'"
    using kv_find_slot [OF demo_kv_ok, of "\<lambda>_. 0" "''a''"] demo_kv_slots(1) [of "\<lambda>_. 0"]
    by (simp add: puddles_put_def kv_put_def Let_def kv_persist_def reservoir_sync_def vec_put_def)
      (simp add: demo_kv_def)
  have "kv_get (\<lambda>_. 0) ''a'' demo_kv = Inr 7"
    using kv_get_slot [OF demo_kv_ok, of "\<lambda>_. 0" "''a''"] demo_kv_slots(1) [of "\<lambda>_. 0"]
    by (simp add: demo_kv_def elems_def block_def)
  then show ?thesis
    using p kv_update_misdirected [OF demo_kv_ok demo_kv_slots(1) p demo_kv_slots(1)]
      kv_update_misdirected [OF demo_kv_ok demo_kv_slots(1) p demo_kv_slots(2)] by simp
qed

definition long_key :: string where
  "long_key = replicate 24 (CHR ''k'')"

theorem kv_long_key_lost_witness:
  "\<exists>s'. puddles_put (\<lambda>_. 0) zero_mem long_key 1 True demo_kv = Inr s' \<and> kv_get (\<lambda>_. 0) long_key s' = Inl Uncaught"
proof -
  have n: "kv_slot (\<lambda>_. 0) long_key demo_kv = None"
    by (simp add: kv_slot_def kv_index_def demo_kv_def elems_def block_def string_eq_def sso_init_def long_key_def)
  have g: "kv_get (\<lambda>_. 0) long_key demo_kv = Inl Uncaught" using kv_get_slot [OF demo_kv_ok] n by simp
  have sz: "SSO_SZ < length long_key" "length long_key < 2 ^ 62" by (simp_all add: long_key_def SSO_SZ_def)
  obtain s' where p: "puddles_put (\<lambda>_. 0) zero_mem long_key 1 True demo_kv = Inr s'"
    using puddles_put_returns [OF demo_kv_ok zero_mem_ok n sz(2)] by blast
  show ?thesis using p kv_long_key_lost [OF demo_kv_ok zero_mem_ok(1) sz g p] by blast
qed


end
