(* ===== verification/LinkedList.thy ===== *)
theory LinkedList
  imports OsEnv
begin

text \<open>
  The linked list of src/src/examples/linkedlist\_tx/linkedlist\_tx.cc (linkedlist\_tx\_cxlfs.cc is the same
  program linked against another library): a list object with head and tail pointers, its operations, and the
  command loop. Nodes live in a store from addresses to nodes; the Boost allocator is a parameter that picks a
  node address and leaves its contents undefined. \<open>lsyncs\<close> counts the calls of \<open>msync\<close> on the whole file.
\<close>

section \<open>The linked list example\<close>

record node_t =
  next_ptr :: nat
  data :: nat

record linkedlist_t =
  head :: nat
  tail :: nat
  cells :: "nat \<Rightarrow> node_t option"
  lsyncs :: nat

type_synonym cell_alloc = "(nat \<Rightarrow> node_t option) \<Rightarrow> (nat \<times> node_t) option"

definition cell_at :: "linkedlist_t \<Rightarrow> nat \<Rightarrow> node_t res" where
  "cell_at s p = (case cells s p of None \<Rightarrow> Inl NullDeref | Some c \<Rightarrow> Inr c)"

definition upd_cell :: "nat \<Rightarrow> (node_t \<Rightarrow> node_t) \<Rightarrow> linkedlist_t \<Rightarrow> linkedlist_t res" where
  "upd_cell p f s = bindR (cell_at s p) (\<lambda>c. Inr (s\<lparr>cells := (cells s)(p \<mapsto> f c)\<rparr>))"

definition alloc_cell :: "cell_alloc \<Rightarrow> linkedlist_t \<Rightarrow> (nat \<times> linkedlist_t) res" where
  "alloc_cell al s =
     (case al (cells s) of
        None \<Rightarrow> Inl Uncaught
      | Some (p, c) \<Rightarrow> Inr (p, s\<lparr>cells := (cells s)(p \<mapsto> c)\<rparr>))"

definition append_node :: "cell_alloc \<Rightarrow> nat \<Rightarrow> bool \<Rightarrow> linkedlist_t \<Rightarrow> linkedlist_t res" where
  "append_node al val exit_mid_tx s =
     bindR (if head s = 0
            then bindR (alloc_cell al s) (\<lambda>(p, s).
                 bindR (upd_cell p (\<lambda>c. c\<lparr>data := 0, next_ptr := 0\<rparr>) s) (\<lambda>s.
                   Inr (s\<lparr>head := p, tail := p\<rparr>)))
            else bindR (alloc_cell al s) (\<lambda>(p, s).
                 bindR (upd_cell p (\<lambda>c. c\<lparr>next_ptr := 0\<rparr>) s) (\<lambda>s.
                 bindR (upd_cell (tail s) (\<lambda>c. c\<lparr>next_ptr := p\<rparr>) s) (\<lambda>s.
                   Inr (s\<lparr>tail := p\<rparr>)))))
       (\<lambda>s. bindR (upd_cell (tail s) (\<lambda>c. c\<lparr>data := val\<rparr>) s) (\<lambda>s.
            if exit_mid_tx then Inl ExitSuccess else Inr (s\<lparr>lsyncs := lsyncs s + 1\<rparr>)))"

text \<open>The three loops over the list; \<open>None\<close> when the next pointers have a cycle.\<close>

partial_function (option) count_from :: "nat \<Rightarrow> linkedlist_t \<Rightarrow> nat \<Rightarrow> nat run" where
  "count_from p s n =
     (if p = 0 then ret n
      else bindX (Some (cell_at s p)) (\<lambda>c. count_from (next_ptr c) s (n + 1)))"

definition count_nodes :: "linkedlist_t \<Rightarrow> nat run" where
  "count_nodes s = count_from (head s) s 0"

partial_function (option) print_from :: "nat \<Rightarrow> linkedlist_t \<Rightarrow> nat list \<Rightarrow> nat list run" where
  "print_from p s out =
     (if p = 0 then ret out
      else bindX (Some (cell_at s p)) (\<lambda>c. print_from (next_ptr c) s (out @ [data c])))"

definition print_nodes :: "linkedlist_t \<Rightarrow> nat list run" where
  "print_nodes s = print_from (head s) s []"

partial_function (option) sum_from :: "nat \<Rightarrow> linkedlist_t \<Rightarrow> nat \<Rightarrow> nat run" where
  "sum_from p s result =
     (if p = 0 then ret result
      else bindX (Some (cell_at s p)) (\<lambda>c. sum_from (next_ptr c) s (uadd64 result (data c))))"

primrec sum_rounds :: "nat \<Rightarrow> linkedlist_t \<Rightarrow> nat \<Rightarrow> nat run" where
  "sum_rounds 0 s result = ret result"
| "sum_rounds (Suc n) s result = bindX (sum_from (head s) s result) (sum_rounds n s)"

definition sum_nodes :: "linkedlist_t \<Rightarrow> nat run" where
  "sum_nodes s = sum_rounds 100 s 0"

definition pop_head :: "linkedlist_t \<Rightarrow> linkedlist_t res" where
  "pop_head s =
     bindR (if head s \<noteq> 0
            then bindR (if head s = tail s then Inr (s\<lparr>head := 0, tail := 0\<rparr>)
                        else bindR (cell_at s (head s)) (\<lambda>c. Inr (s\<lparr>head := next_ptr c\<rparr>)))
                   (\<lambda>s'. Inr (s'\<lparr>cells := (cells s')(head s := None)\<rparr>))
            else Inr s)
       (\<lambda>s. Inr (s\<lparr>lsyncs := lsyncs s + 1\<rparr>))"

definition append_head :: "cell_alloc \<Rightarrow> nat \<Rightarrow> linkedlist_t \<Rightarrow> linkedlist_t res" where
  "append_head al val s =
     bindR (alloc_cell al s) (\<lambda>(p, s).
     bindR (upd_cell p (\<lambda>c. c\<lparr>data := val, next_ptr := head s\<rparr>) s) (\<lambda>s.
       Inr (if tail s = 0 then s\<lparr>head := p, tail := p\<rparr> else s\<lparr>head := p\<rparr>)))"

fun append_all :: "cell_alloc \<Rightarrow> nat list \<Rightarrow> linkedlist_t \<Rightarrow> linkedlist_t res" where
  "append_all al [] s = Inr s"
| "append_all al (i # js) s = bindR (append_node al i False s) (append_all al js)"

definition bulk_append_nodes :: "cell_alloc \<Rightarrow> nat \<Rightarrow> linkedlist_t \<Rightarrow> linkedlist_t res" where
  "bulk_append_nodes al cnt s = append_all al [0..<cnt] s"

text \<open>\<open>rnd\<close> is the sequence \<open>rand()\<close> returns and \<open>thresh\<close> the threshold computed from the ratio.\<close>

fun bulk_append_delete_nodes ::
  "cell_alloc \<Rightarrow> (nat \<Rightarrow> nat) \<Rightarrow> nat \<Rightarrow> nat list \<Rightarrow> linkedlist_t \<Rightarrow> linkedlist_t res" where
  "bulk_append_delete_nodes al rnd thresh [] s = Inr s"
| "bulk_append_delete_nodes al rnd thresh (i # js) s =
     bindR (if rnd i > thresh then append_node al i False s else pop_head s)
       (bulk_append_delete_nodes al rnd thresh js)"

primrec bulk_delete_nodes :: "nat \<Rightarrow> linkedlist_t \<Rightarrow> linkedlist_t res" where
  "bulk_delete_nodes 0 s = Inr s"
| "bulk_delete_nodes (Suc n) s = bindR (pop_head s) (bulk_delete_nodes n)"

text \<open>
  \<open>main\<close>: opening the list, and one command line of the loop with what it prints. The start of the program
  inserts a node at the head and removes it again. \<open>split_sp\<close> is nvsl's splitting at blanks.
\<close>

definition ll_open :: "cell_alloc \<Rightarrow> linkedlist_t option \<Rightarrow> (nat \<Rightarrow> node_t option) \<Rightarrow> linkedlist_t res" where
  "ll_open al found mem =
     bindR (case found of
              None \<Rightarrow> Inr \<lparr>head = 0, tail = 0, cells = mem, lsyncs = 0\<rparr>
            | Some s \<Rightarrow> Inr s)
       (\<lambda>s. bindR (append_head al 1 s) pop_head)"

datatype ll_out = Help | Unknown | Count nat | Sum nat | Print "nat list" | Nothing

definition ll_command :: "(string \<Rightarrow> string list) \<Rightarrow> cell_alloc \<Rightarrow> string \<Rightarrow> linkedlist_t \<Rightarrow> (ll_out \<times> linkedlist_t) run" where
  "ll_command split_sp al buf s =
     (let short = length buf < 4; arg = stoull 10 (drop 1 buf) in
      if buf = [] \<or> take 1 buf = newline then ret (Nothing, s)
      else if take 1 buf = ''i'' then
        (if short then ret (Help, s)
         else bindX (Some arg) (\<lambda>n. bindX (Some (append_node al n False s)) (\<lambda>s. ret (Nothing, s))))
      else if take 1 buf = ''c'' then bindX (count_nodes s) (\<lambda>n. ret (Count n, s))
      else if take 1 buf = ''s'' then bindX (sum_nodes s) (\<lambda>_. bindX (sum_nodes s) (\<lambda>n. ret (Sum n, s)))
      else if take 1 buf = ''g'' then
        (if length (split_sp (butlast buf)) \<noteq> 3 then ret (Help, s) else Some (Inl AssertFailed))
      else if take 1 buf = ''p'' then bindX (print_nodes s) (\<lambda>xs. ret (Print xs, s))
      else if take 1 buf = ''f'' then
        (if short then ret (Help, s)
         else bindX (Some arg) (\<lambda>n. bindX (Some (append_node al n True s)) (\<lambda>s. ret (Nothing, s))))
      else if take 1 buf = ''A'' then
        (if short then ret (Help, s)
         else bindX (Some arg) (\<lambda>n. bindX (Some (bulk_append_nodes al n s)) (\<lambda>s. ret (Nothing, s))))
      else if take 1 buf = ''r'' then bindX (Some (pop_head s)) (\<lambda>s. ret (Nothing, s))
      else if take 1 buf = ''R'' then
        (if short then ret (Help, s)
         else bindX (Some arg) (\<lambda>n. bindX (Some (bulk_delete_nodes n s)) (\<lambda>s. ret (Nothing, s))))
      else if take 1 buf = ''h'' then ret (Help, s)
      else ret (Unknown, s))"

subsection \<open>The list behind the pointers\<close>

fun chain :: "(nat \<Rightarrow> node_t option) \<Rightarrow> nat \<Rightarrow> nat list \<Rightarrow> nat list \<Rightarrow> nat \<Rightarrow> bool" where
  "chain h p [] [] q \<longleftrightarrow> p = q"
| "chain h p (a # ps) (x # xs) q \<longleftrightarrow>
     p = a \<and> a \<noteq> 0 \<and> a \<notin> set ps \<and> (\<exists>c. h a = Some c \<and> data c = x \<and> chain h (next_ptr c) ps xs q)"
| "chain h p _ _ q \<longleftrightarrow> False"

definition ll_rep :: "linkedlist_t \<Rightarrow> nat list \<Rightarrow> nat list \<Rightarrow> bool" where
  "ll_rep s ps xs \<longleftrightarrow>
     chain (cells s) (head s) ps xs 0 \<and> tail s = (if ps = [] then 0 else last ps)"

definition cell_alloc_ok :: "cell_alloc \<Rightarrow> bool" where
  "cell_alloc_ok al \<longleftrightarrow> (\<forall>h p c. al h = Some (p, c) \<longrightarrow> p \<noteq> 0 \<and> h p = None)"

lemma chain_length: "chain h p ps xs q \<Longrightarrow> length ps = length xs"
  by (induction h p ps xs q rule: chain.induct) auto

lemma chain_dom: "chain h p ps xs q \<Longrightarrow> set ps \<subseteq> dom h \<and> 0 \<notin> set ps \<and> distinct ps"
  by (induction h p ps xs q rule: chain.induct) auto

lemma chain_frame: "chain h p ps xs q \<Longrightarrow> (\<And>a. a \<in> set ps \<Longrightarrow> h' a = h a) \<Longrightarrow> chain h' p ps xs q"
  by (induction h p ps xs q rule: chain.induct) auto

lemma chain_append:
  "length ps = length xs \<Longrightarrow>
   chain h p (ps @ rs) (xs @ ys) q \<longleftrightarrow>
   (\<exists>m. chain h p ps xs m \<and> chain h m rs ys q \<and> set ps \<inter> set rs = {})"
proof (induction ps xs arbitrary: p rule: list_induct2)
  case (Cons a ps x xs)
  then show ?case by auto
qed simp

lemma chain_snoc:
  "chain h p (ps @ [a]) (xs @ [x]) q \<longleftrightarrow>
   chain h p ps xs a \<and> a \<noteq> 0 \<and> a \<notin> set ps \<and> h a = Some \<lparr>next_ptr = q, data = x\<rparr>"
proof (cases "length ps = length xs")
  case True
  have "(\<exists>c. h a = Some c \<and> data c = x \<and> next_ptr c = q) \<longleftrightarrow> h a = Some \<lparr>next_ptr = q, data = x\<rparr>"
    by (metis (full_types) node_t.surjective node_t.select_convs old.unit.exhaust)
  then show ?thesis unfolding chain_append [OF True] by auto
next
  case False
  then show ?thesis using chain_length [of h p ps xs a] chain_length [of h p "ps @ [a]" "xs @ [x]" q] by auto
qed

lemma append_node_rep:
  assumes al: "cell_alloc_ok al" and r: "ll_rep s ps xs"
  shows "append_node al v False s = Inl Uncaught \<and> al (cells s) = None \<or>
    (\<exists>s' p. append_node al v False s = Inr s' \<and> ll_rep s' (ps @ [p]) (xs @ [v]) \<and> lsyncs s' = lsyncs s + 1)"
proof (cases "al (cells s)")
  case None
  then show ?thesis by (simp add: append_node_def alloc_cell_def)
next
  case (Some pc)
  obtain p c where pc: "al (cells s) = Some (p, c)" using Some by (cases pc) auto
  have p: "p \<noteq> 0" "cells s p = None" using al pc unfolding cell_alloc_ok_def by blast+
  have ch: "chain (cells s) (head s) ps xs 0" and t: "tail s = (if ps = [] then 0 else last ps)"
    using r unfolding ll_rep_def by auto
  show ?thesis
  proof (cases ps rule: rev_cases)
    case Nil
    then have e: "xs = []" "head s = 0" using ch by (cases xs; simp)+
    show ?thesis
      using p pc Nil e by (auto simp: append_node_def alloc_cell_def upd_cell_def cell_at_def ll_rep_def)
  next
    case (snoc qs a)
    then obtain ys y where xs: "xs = ys @ [y]" using chain_length [OF ch] by (cases xs rule: rev_cases) auto
    have c': "chain (cells s) (head s) qs ys a" "a \<noteq> 0" "a \<notin> set qs" "cells s a = Some \<lparr>next_ptr = 0, data = y\<rparr>"
      using ch unfolding snoc xs chain_snoc by auto
    have hd: "head s \<noteq> 0" using c'(1,2) by (cases qs; cases ys) auto
    have pa: "p \<noteq> a" "p \<notin> set qs" using p(2) c'(4) chain_dom [OF c'(1)] by auto
    define h' where "h' = (cells s)(p \<mapsto> \<lparr>next_ptr = 0, data = v\<rparr>, a \<mapsto> \<lparr>next_ptr = p, data = y\<rparr>)"
    obtain n0 d0 where cc: "c = \<lparr>next_ptr = n0, data = d0\<rparr>" by (cases c)
    have ap: "append_node al v False s = Inr (s\<lparr>cells := h', tail := p, lsyncs := lsyncs s + 1\<rparr>)"
      using p pc hd t snoc c'(4) pa cc
      by (simp add: append_node_def alloc_cell_def upd_cell_def cell_at_def h'_def fun_upd_twist)
    have "chain h' (head s) qs ys a" by (rule chain_frame [OF c'(1)]) (use c'(3) pa in \<open>auto simp: h'_def\<close>)
    then have "chain h' (head s) ((qs @ [a]) @ [p]) ((ys @ [y]) @ [v]) 0"
      unfolding chain_snoc using c'(2,3) pa p(1) by (auto simp: h'_def)
    then show ?thesis using ap snoc xs by (auto simp: ll_rep_def)
  qed
qed

lemma pop_head_rep:
  assumes "ll_rep s ps xs"
  shows "\<exists>s'. pop_head s = Inr s' \<and> ll_rep s' (tl ps) (tl xs) \<and> lsyncs s' = lsyncs s + 1"
proof -
  have ch: "chain (cells s) (head s) ps xs 0" and t: "tail s = (if ps = [] then 0 else last ps)"
    using assms unfolding ll_rep_def by auto
  show ?thesis
  proof (cases ps)
    case Nil
    then have e: "xs = []" "head s = 0" using ch by (cases xs; simp)+
    show ?thesis using Nil e t by (simp add: pop_head_def ll_rep_def)
  next
    case (Cons a qs)
    then obtain x ys where xs: "xs = x # ys" using chain_length [OF ch] by (cases xs) auto
    obtain c where c: "head s = a" "a \<noteq> 0" "a \<notin> set qs" "cells s a = Some c" "chain (cells s) (next_ptr c) qs ys 0"
      using ch unfolding Cons xs by auto
    have ch': "chain ((cells s)(a := None)) (next_ptr c) qs ys 0"
      by (rule chain_frame [OF c(5)]) (use c(3) in auto)
    show ?thesis
    proof (cases qs)
      case Nil
      then show ?thesis
        using c ch' t Cons xs by (cases ys) (auto simp: pop_head_def ll_rep_def)
    next
      case (Cons b rs)
      then have "last qs \<in> set qs" by simp
      then have "tail s \<noteq> a" using t \<open>ps = a # qs\<close> Cons c(3) by auto
      then show ?thesis
        using c ch' t \<open>ps = a # qs\<close> Cons xs by (auto simp: pop_head_def cell_at_def ll_rep_def)
    qed
  qed
qed

lemma append_head_rep:
  assumes al: "cell_alloc_ok al" and r: "ll_rep s ps xs"
  shows "append_head al v s = Inl Uncaught \<and> al (cells s) = None \<or>
    (\<exists>s' p. append_head al v s = Inr s' \<and> ll_rep s' (p # ps) (v # xs))"
proof (cases "al (cells s)")
  case None
  then show ?thesis by (simp add: append_head_def alloc_cell_def)
next
  case (Some pc)
  obtain p c where pc: "al (cells s) = Some (p, c)" using Some by (cases pc) auto
  have p: "p \<noteq> 0" "cells s p = None" using al pc unfolding cell_alloc_ok_def by blast+
  have ch: "chain (cells s) (head s) ps xs 0" and t: "tail s = (if ps = [] then 0 else last ps)"
    using r unfolding ll_rep_def by auto
  have np: "p \<notin> set ps" using chain_dom [OF ch] p(2) by auto
  have ch': "chain ((cells s)(p \<mapsto> d)) (head s) ps xs 0" for d
    by (rule chain_frame [OF ch]) (use np in auto)
  have "tail s = 0 \<longleftrightarrow> ps = []" using t chain_dom [OF ch] last_in_set [of ps] by metis
  then show ?thesis
    using p pc np ch' t
    by (auto simp: append_head_def alloc_cell_def upd_cell_def cell_at_def ll_rep_def)
qed

lemma count_chain: "chain (cells s) p ps xs 0 \<Longrightarrow> count_from p s n = ret (n + length xs)"
proof (induction xs arbitrary: p ps n)
  case Nil
  then show ?case by (cases ps) (simp_all add: count_from.simps)
next
  case (Cons x xs)
  then obtain a qs c where "ps = a # qs" "p = a" "a \<noteq> 0" "cells s a = Some c" "chain (cells s) (next_ptr c) qs xs 0"
    by (cases ps) auto
  then show ?case
    using Cons.IH [of "next_ptr c" qs "n + 1"] by (subst count_from.simps) (simp add: cell_at_def)
qed

lemma print_chain: "chain (cells s) p ps xs 0 \<Longrightarrow> print_from p s out = ret (out @ xs)"
proof (induction xs arbitrary: p ps out)
  case Nil
  then show ?case by (cases ps) (simp_all add: print_from.simps)
next
  case (Cons x xs)
  then obtain a qs c where "ps = a # qs" "p = a" "a \<noteq> 0" "cells s a = Some c" "data c = x" "chain (cells s) (next_ptr c) qs xs 0"
    by (cases ps) auto
  then show ?case
    using Cons.IH [of "next_ptr c" qs "out @ [x]"] by (subst print_from.simps) (simp add: cell_at_def)
qed

lemma sum_chain: "chain (cells s) p ps xs 0 \<Longrightarrow> r < 2 ^ 64 \<Longrightarrow> sum_from p s r = ret ((r + sum_list xs) mod 2 ^ 64)"
proof (induction xs arbitrary: p ps r)
  case Nil
  then show ?case by (cases ps) (simp_all add: sum_from.simps)
next
  case (Cons x xs)
  then obtain a qs c where a: "ps = a # qs" "p = a" "a \<noteq> 0" "cells s a = Some c" "data c = x" "chain (cells s) (next_ptr c) qs xs 0"
    by (cases ps) auto
  have "(uadd64 r x + sum_list xs) mod 2 ^ 64 = (r + (x + sum_list xs)) mod 2 ^ 64"
    unfolding uadd64_def by (simp add: mod_add_left_eq add.assoc)
  then show ?case
    using Cons.IH [of "next_ptr c" qs "uadd64 r x"] a
    by (subst sum_from.simps) (simp add: cell_at_def uadd64_def)
qed

lemma sum_rounds_chain:
  "ll_rep s ps xs \<Longrightarrow> r < 2 ^ 64 \<Longrightarrow> sum_rounds n s r = ret ((r + n * sum_list xs) mod 2 ^ 64)"
proof (induction n arbitrary: r)
  case (Suc n)
  have "((r + sum_list xs) mod 2 ^ 64 + n * sum_list xs) mod 2 ^ 64 = (r + Suc n * sum_list xs) mod 2 ^ 64"
    by (simp add: mod_add_left_eq add.assoc)
  then show ?case
    using Suc.IH [of "(r + sum_list xs) mod 2 ^ 64"] Suc.prems sum_chain [of s "head s" ps xs r]
    by (simp add: ll_rep_def)
qed simp

lemma reads_rep:
  assumes "ll_rep s ps xs"
  shows "count_nodes s = ret (length xs)" and "print_nodes s = ret xs"
    and "sum_nodes s = ret ((100 * sum_list xs) mod 2 ^ 64)"
  using assms count_chain [of s "head s" ps xs 0] print_chain [of s "head s" ps xs "[]"]
    sum_rounds_chain [OF assms, of 0 100]
  by (simp_all add: ll_rep_def count_nodes_def print_nodes_def sum_nodes_def)

subsection \<open>The program implements a queue of numbers\<close>

text \<open>What a command line means on the sequence of the values.\<close>

definition list_command ::
  "(string \<Rightarrow> string list) \<Rightarrow> string \<Rightarrow> nat list \<Rightarrow> (ll_out \<times> nat list) res" where
  "list_command split_sp buf xs =
     (let short = length buf < 4; arg = stoull 10 (drop 1 buf); c = take 1 buf in
      if buf = [] \<or> c = newline then Inr (Nothing, xs)
      else if c = ''i'' then if short then Inr (Help, xs) else bindR arg (\<lambda>n. Inr (Nothing, xs @ [n]))
      else if c = ''c'' then Inr (Count (length xs), xs)
      else if c = ''s'' then Inr (Sum ((100 * sum_list xs) mod 2 ^ 64), xs)
      else if c = ''g'' then if length (split_sp (butlast buf)) \<noteq> 3 then Inr (Help, xs) else Inl AssertFailed
      else if c = ''p'' then Inr (Print xs, xs)
      else if c = ''f'' then if short then Inr (Help, xs) else bindR arg (\<lambda>n. Inl ExitSuccess)
      else if c = ''A'' then if short then Inr (Help, xs) else bindR arg (\<lambda>n. Inr (Nothing, xs @ [0..<n]))
      else if c = ''r'' then Inr (Nothing, tl xs)
      else if c = ''R'' then if short then Inr (Help, xs) else bindR arg (\<lambda>n. Inr (Nothing, drop n xs))
      else if c = ''h'' then Inr (Help, xs) else Inr (Unknown, xs))"

lemma append_all_rep:
  assumes al: "cell_alloc_ok al"
  shows "ll_rep s ps xs \<Longrightarrow> append_all al js s = Inl Uncaught \<or>
    (\<exists>s' ps'. append_all al js s = Inr s' \<and> ll_rep s' ps' (xs @ js))"
proof (induction js arbitrary: s ps xs)
  case (Cons j js)
  from append_node_rep [OF al Cons.prems, of j] show ?case
  proof (elim disjE exE conjE)
    fix s' p assume a: "append_node al j False s = Inr s'" "ll_rep s' (ps @ [p]) (xs @ [j])"
    show ?thesis using Cons.IH [OF a(2)] a(1) by simp
  qed simp
qed auto

lemma bulk_delete_rep:
  "ll_rep s ps xs \<Longrightarrow> \<exists>s' ps'. bulk_delete_nodes n s = Inr s' \<and> ll_rep s' ps' (drop n xs)"
proof (induction n arbitrary: s ps xs)
  case (Suc n)
  obtain s' where s': "pop_head s = Inr s'" "ll_rep s' (tl ps) (tl xs)" using pop_head_rep [OF Suc.prems] by blast
  show ?case using Suc.IH [OF s'(2)] s'(1) by (simp add: drop_Suc)
qed auto

lemma append_exit:
  assumes al: "cell_alloc_ok al" and r: "ll_rep s ps xs"
  shows "append_node al v True s = Inl Uncaught \<or> append_node al v True s = Inl ExitSuccess"
proof -
  have "append_node al v True s =
      bindR (append_node al v False s) (\<lambda>_. Inl ExitSuccess)"
    unfolding append_node_def by (simp add: bindR_def split: sum.split)
  then show ?thesis using append_node_rep [OF al r, of v] by auto
qed

definition refines :: "(ll_out \<times> nat list) res \<Rightarrow> (ll_out \<times> linkedlist_t) run \<Rightarrow> bool" where
  "refines a c \<longleftrightarrow>
     c = Some (Inl Uncaught) \<or>
     (case a of
        Inl e \<Rightarrow> c = Some (Inl e)
      | Inr (out, xs) \<Rightarrow> \<exists>s' ps'. c = ret (out, s') \<and> ll_rep s' ps' xs)"

lemma refines_bind:
  "(\<And>n. a = Inr n \<Longrightarrow> refines (f n) (g n)) \<Longrightarrow> refines (bindR a f) (bindX (Some a) g)"
  by (cases a) (auto simp: refines_def)

lemma refines_if:
  "refines a x \<Longrightarrow> refines b y \<Longrightarrow> refines (if c then a else b) (if c then x else y)"
  by simp

lemma refines_same: "ll_rep s ps xs \<Longrightarrow> refines (Inr (out, xs)) (ret (out, s))"
  unfolding refines_def by auto


lemma ll_open_rep:
  assumes al: "cell_alloc_ok al" and r: "case found of None \<Rightarrow> xs = [] | Some s \<Rightarrow> ll_rep s ps xs"
  shows "ll_open al found mem = Inl Uncaught \<or> (\<exists>s' ps'. ll_open al found mem = Inr s' \<and> ll_rep s' ps' xs)"
proof -
  define s where "s = (case found of None \<Rightarrow> \<lparr>head = 0, tail = 0, cells = mem, lsyncs = 0\<rparr> | Some s \<Rightarrow> s)"
  have "ll_rep s (case found of None \<Rightarrow> [] | Some _ \<Rightarrow> ps) xs"
    using r by (cases found) (simp_all add: s_def ll_rep_def)
  moreover have "ll_open al found mem = bindR (append_head al 1 s) pop_head"
    by (cases found) (simp_all add: s_def ll_open_def)
  ultimately obtain qs where s: "ll_rep s qs xs" "ll_open al found mem = bindR (append_head al 1 s) pop_head"
    by blast
  from append_head_rep [OF al s(1), of 1] show ?thesis
  proof (elim disjE exE conjE)
    fix s' p assume a: "append_head al 1 s = Inr s'" "ll_rep s' (p # qs) (1 # xs)"
    show ?thesis using pop_head_rep [OF a(2)] s(2) a(1) by auto
  qed (simp add: s(2))
qed

definition one_cell :: cell_alloc where
  "one_cell h = (if h 16 = None then Some (16, \<lparr>next_ptr = 99, data = 99\<rparr>) else None)"

lemma one_cell_ok: "cell_alloc_ok one_cell"
  by (simp add: cell_alloc_ok_def one_cell_def)

definition no_list :: linkedlist_t where
  "no_list = \<lparr>head = 0, tail = 0, cells = Map.empty, lsyncs = 0\<rparr>"

lemma no_list_rep: "ll_rep no_list [] []"
  by (simp add: ll_rep_def no_list_def)


end
