(* ===== verification/ListPmdk.thy ===== *)
theory ListPmdk
  imports LinkedList
begin

text \<open>
  The list program on libpmemobj (examples/linkedlist_pmdk/linkedlist_pmdk.cc). The library is a parameter:
  \<open>TX_NEW\<close> picks an object and leaves its contents undefined, or aborts the transaction, which restores what was changed;
  no transaction of the program has changed anything when it allocates. An object is named by its offset in the pool, the
  null object by 0. The store of nodes and the chain of a list are those of LinkedList.
\<close>

section \<open>The list program on libpmemobj\<close>

record linkedlist_pmdk_t =
  phead :: nat
  ptail :: nat
  pcells :: "nat \<Rightarrow> node_t option"

definition d_rw :: "linkedlist_pmdk_t \<Rightarrow> nat \<Rightarrow> node_t res" where
  "d_rw s p = guardR (p \<noteq> 0) NullDeref (case pcells s p of None \<Rightarrow> Inl NullDeref | Some c \<Rightarrow> Inr c)"

definition set_cell :: "nat \<Rightarrow> (node_t \<Rightarrow> node_t) \<Rightarrow> linkedlist_pmdk_t \<Rightarrow> linkedlist_pmdk_t res" where
  "set_cell p f s = bindR (d_rw s p) (\<lambda>c. Inr (s\<lparr>pcells := (pcells s)(p \<mapsto> f c)\<rparr>))"

definition list_args :: "string list \<Rightarrow> string res" where
  "list_args args_v = guardR (length args_v = 2) ExitFailure (Inr (args_v ! 1))"

text \<open>The result says whether the transaction was committed.\<close>

definition pm_append_node :: "cell_alloc \<Rightarrow> nat \<Rightarrow> linkedlist_pmdk_t \<Rightarrow> (bool \<times> linkedlist_pmdk_t) res" where
  "pm_append_node al val s =
     (case al (pcells s) of
        None \<Rightarrow> Inr (False, s)
      | Some (p, c) \<Rightarrow>
          let s1 = s\<lparr>pcells := (pcells s)(p \<mapsto> c)\<rparr>
          in bindR (if phead s = 0 then Inr (s1\<lparr>phead := p, ptail := p\<rparr>)
                    else bindR (set_cell (ptail s1) (\<lambda>t. t\<lparr>next_ptr := p\<rparr>) s1) (\<lambda>s2. Inr (s2\<lparr>ptail := p\<rparr>)))
               (\<lambda>s3. bindR (set_cell (ptail s3) (\<lambda>t. t\<lparr>data := val\<rparr>) s3) (\<lambda>s4. Inr (True, s4))))"

definition pm_pop_head :: "linkedlist_pmdk_t \<Rightarrow> linkedlist_pmdk_t res" where
  "pm_pop_head s =
     bindR (d_rw s (phead s)) (\<lambda>c. Inr (s\<lparr>phead := next_ptr c, pcells := (pcells s)(phead s := None)\<rparr>))"

definition pm_count_nodes :: "linkedlist_pmdk_t \<Rightarrow> linkedlist_pmdk_t" where
  "pm_count_nodes s = s"

partial_function (option) walk_values :: "nat \<Rightarrow> linkedlist_pmdk_t \<Rightarrow> nat list \<Rightarrow> nat list run" where
  "walk_values p s out =
     (if p = 0 then ret out else bindX (Some (d_rw s p)) (\<lambda>c. walk_values (next_ptr c) s (out @ [data c])))"

partial_function (option) walk_pointers :: "nat \<Rightarrow> linkedlist_pmdk_t \<Rightarrow> (nat \<times> nat) list \<Rightarrow> (nat \<times> nat) list run" where
  "walk_pointers p s out =
     (if p = 0 then ret out else bindX (Some (d_rw s p)) (\<lambda>c. walk_pointers (next_ptr c) s (out @ [(p, data c)])))"

definition pm_print_nodes :: "linkedlist_pmdk_t \<Rightarrow> (nat list \<times> (nat \<times> nat) list) run" where
  "pm_print_nodes s =
     bindX (walk_values (phead s) s []) (\<lambda>vs. bindX (walk_pointers (phead s) s []) (\<lambda>ptrs. ret (vs, ptrs)))"

definition pm_print_head :: "linkedlist_pmdk_t \<Rightarrow> nat list res" where
  "pm_print_head s = (if phead s \<noteq> 0 then bindR (d_rw s (phead s)) (\<lambda>c. Inr [data c]) else Inr [])"

partial_function (option) walk_sum :: "nat \<Rightarrow> linkedlist_pmdk_t \<Rightarrow> nat \<Rightarrow> nat run" where
  "walk_sum p s result =
     (if p = 0 then ret result else bindX (Some (d_rw s p)) (\<lambda>c. walk_sum (next_ptr c) s (uadd64 result (data c))))"

primrec pm_sum_rounds :: "nat \<Rightarrow> linkedlist_pmdk_t \<Rightarrow> nat \<Rightarrow> nat run" where
  "pm_sum_rounds 0 s result = ret result"
| "pm_sum_rounds (Suc n) s result = bindX (walk_sum (phead s) s result) (pm_sum_rounds n s)"

definition pm_sum_nodes :: "linkedlist_pmdk_t \<Rightarrow> nat run" where
  "pm_sum_nodes s = pm_sum_rounds 100 s 0"

text \<open>The number is the number of the aborted transactions.\<close>

fun pm_append_all :: "cell_alloc \<Rightarrow> nat list \<Rightarrow> nat \<Rightarrow> linkedlist_pmdk_t \<Rightarrow> (nat \<times> linkedlist_pmdk_t) res" where
  "pm_append_all al [] k s = Inr (k, s)"
| "pm_append_all al (i # js) k s =
     bindR (pm_append_node al i s) (\<lambda>(ok, s). pm_append_all al js (if ok then k else Suc k) s)"

definition pm_bulk_append :: "cell_alloc \<Rightarrow> nat \<Rightarrow> linkedlist_pmdk_t \<Rightarrow> (nat \<times> linkedlist_pmdk_t) res" where
  "pm_bulk_append al cnt s = pm_append_all al [0..<cnt] 0 s"

primrec pm_bulk_delete :: "nat \<Rightarrow> linkedlist_pmdk_t \<Rightarrow> linkedlist_pmdk_t res" where
  "pm_bulk_delete 0 s = Inr s"
| "pm_bulk_delete (Suc n) s = bindR (pm_pop_head s) (pm_bulk_delete n)"

datatype pm_out = Help | Unknown | Nothing | Appended nat | Values "nat list" | Head "nat list" | Sum nat

definition pm_command :: "cell_alloc \<Rightarrow> string \<Rightarrow> linkedlist_pmdk_t \<Rightarrow> (pm_out \<times> linkedlist_pmdk_t) run" where
  "pm_command al buf s =
     (let short = length buf < 4; arg = stoull 10 (drop 1 buf) in
      if buf = [] \<or> take 1 buf = newline then ret (Nothing, s)
      else if take 1 buf = ''i'' then
        (if short then ret (Help, s)
         else bindX (Some arg) (\<lambda>n. bindX (Some (pm_append_node al n s)) (\<lambda>(ok, s). ret (Appended (if ok then 0 else 1), s))))
      else if take 1 buf = ''c'' then ret (Nothing, pm_count_nodes s)
      else if take 1 buf = ''p'' then bindX (pm_print_nodes s) (\<lambda>(vs, ptrs). ret (Values vs, s))
      else if take 1 buf = ''f'' then bindX (Some (pm_print_head s)) (\<lambda>h. ret (Head h, s))
      else if take 1 buf = ''d'' then bindX (Some (pm_pop_head s)) (\<lambda>s. ret (Nothing, s))
      else if take 1 buf = ''s'' then bindX (pm_sum_nodes s) (\<lambda>_. bindX (pm_sum_nodes s) (\<lambda>n. ret (Sum n, s)))
      else if take 1 buf = ''A'' then
        (if short then ret (Help, s)
         else bindX (Some arg) (\<lambda>n. bindX (Some (pm_bulk_append al n s)) (\<lambda>(k, s). ret (Appended k, s))))
      else if take 1 buf = ''D'' then
        (if short then ret (Help, s)
         else bindX (Some arg) (\<lambda>n. bindX (Some (pm_bulk_delete n s)) (\<lambda>s. ret (Nothing, s))))
      else if take 1 buf = ''h'' then ret (Help, s)
      else ret (Unknown, s))"

subsection \<open>The list behind the objects\<close>

definition pm_rep :: "linkedlist_pmdk_t \<Rightarrow> nat list \<Rightarrow> nat list \<Rightarrow> bool" where
  "pm_rep s ps xs \<longleftrightarrow> chain (pcells s) (phead s) ps xs 0 \<and> (ps \<noteq> [] \<longrightarrow> ptail s = last ps)"

text \<open>An allocator whose fresh objects happen to be zero.\<close>

definition zero_alloc :: "cell_alloc \<Rightarrow> bool" where
  "zero_alloc al \<longleftrightarrow> (\<forall>h p c. al h = Some (p, c) \<longrightarrow> p \<noteq> 0 \<and> h p = None \<and> next_ptr c = 0)"

lemma pm_append_rep:
  assumes al: "zero_alloc al" and r: "pm_rep s ps xs"
  shows "pm_append_node al v s = Inr (False, s) \<or>
    (\<exists>s' p. pm_append_node al v s = Inr (True, s') \<and> pm_rep s' (ps @ [p]) (xs @ [v]))"
proof (cases "al (pcells s)")
  case None
  then show ?thesis by (simp add: pm_append_node_def)
next
  case (Some pc)
  obtain p c where pc: "al (pcells s) = Some (p, c)" using Some by (cases pc) auto
  have p: "p \<noteq> 0" "pcells s p = None" "next_ptr c = 0" using al pc by (simp_all add: zero_alloc_def)
  have ch: "chain (pcells s) (phead s) ps xs 0" using r unfolding pm_rep_def by auto
  obtain d0 where cc: "c = \<lparr>next_ptr = 0, data = d0\<rparr>" using p(3) by (cases c) simp
  show ?thesis
  proof (cases ps rule: rev_cases)
    case Nil
    then have "xs = []" "phead s = 0" using ch by (cases xs; simp)+
    then have "pm_append_node al v s =
        Inr (True, s\<lparr>pcells := (pcells s)(p \<mapsto> \<lparr>next_ptr = 0, data = v\<rparr>), phead := p, ptail := p\<rparr>)"
      using p pc cc by (simp add: pm_append_node_def set_cell_def d_rw_def)
    moreover have "pm_rep (s\<lparr>pcells := (pcells s)(p \<mapsto> \<lparr>next_ptr = 0, data = v\<rparr>), phead := p, ptail := p\<rparr>) (ps @ [p]) (xs @ [v])"
      using p(1) Nil \<open>xs = []\<close> by (simp add: pm_rep_def)
    ultimately show ?thesis by blast
  next
    case (snoc qs a)
    then obtain ys y where xs: "xs = ys @ [y]" using chain_length [OF ch] by (cases xs rule: rev_cases) auto
    have c': "chain (pcells s) (phead s) qs ys a" "a \<noteq> 0" "a \<notin> set qs" "pcells s a = Some \<lparr>next_ptr = 0, data = y\<rparr>"
      using ch unfolding snoc xs chain_snoc by auto
    have hd: "phead s \<noteq> 0" using c'(1,2) by (cases qs; cases ys) auto
    have t: "ptail s = a" using r snoc by (simp add: pm_rep_def)
    have pa: "p \<noteq> a" "p \<notin> set qs" using p(2) c'(4) chain_dom [OF c'(1)] by auto
    define h' where "h' = (pcells s)(p \<mapsto> \<lparr>next_ptr = 0, data = v\<rparr>, a \<mapsto> \<lparr>next_ptr = p, data = y\<rparr>)"
    have ap: "pm_append_node al v s = Inr (True, s\<lparr>pcells := h', ptail := p\<rparr>)"
      using p pc hd t c'(2,4) pa cc by (simp add: pm_append_node_def set_cell_def d_rw_def h'_def fun_upd_twist [of p a])
    have "chain h' (phead s) qs ys a" by (rule chain_frame [OF c'(1)]) (use c'(3) pa in \<open>auto simp: h'_def\<close>)
    then have "chain h' (phead s) ((qs @ [a]) @ [p]) ((ys @ [y]) @ [v]) 0"
      unfolding chain_snoc using c'(2,3) pa p(1) by (auto simp: h'_def)
    then have "pm_rep (s\<lparr>pcells := h', ptail := p\<rparr>) (ps @ [p]) (xs @ [v])" using snoc xs by (simp add: pm_rep_def)
    then show ?thesis using ap by blast
  qed
qed

lemma pm_pop_rep:
  assumes "pm_rep s ps xs"
  shows "if xs = [] then pm_pop_head s = Inl NullDeref
    else \<exists>s'. pm_pop_head s = Inr s' \<and> pm_rep s' (tl ps) (tl xs)"
proof (cases ps)
  case Nil
  then have "xs = []" "phead s = 0" using assms by (cases xs; simp add: pm_rep_def)+
  then show ?thesis by (simp add: pm_pop_head_def d_rw_def)
next
  case (Cons a qs)
  then obtain x ys where xs: "xs = x # ys" using assms by (cases xs) (auto simp: pm_rep_def)
  obtain c where c: "phead s = a" "a \<noteq> 0" "a \<notin> set qs" "pcells s a = Some c" "chain (pcells s) (next_ptr c) qs ys 0"
    using assms unfolding Cons xs pm_rep_def by auto
  have "chain ((pcells s)(a := None)) (next_ptr c) qs ys 0" by (rule chain_frame [OF c(5)]) (use c(3) in auto)
  then show ?thesis using c assms Cons xs by (auto simp: pm_pop_head_def d_rw_def pm_rep_def)
qed

lemma walk_values_chain: "chain (pcells s) p ps xs 0 \<Longrightarrow> walk_values p s out = ret (out @ xs)"
proof (induction xs arbitrary: p ps out)
  case Nil
  then show ?case by (cases ps) (simp_all add: walk_values.simps)
next
  case (Cons x xs)
  then obtain a qs c where "ps = a # qs" "p = a" "a \<noteq> 0" "pcells s a = Some c" "data c = x" "chain (pcells s) (next_ptr c) qs xs 0"
    by (cases ps) auto
  then show ?case using Cons.IH [of "next_ptr c" qs "out @ [x]"] by (subst walk_values.simps) (simp add: d_rw_def)
qed

lemma walk_pointers_chain: "chain (pcells s) p ps xs 0 \<Longrightarrow> walk_pointers p s out = ret (out @ zip ps xs)"
proof (induction xs arbitrary: p ps out)
  case Nil
  then show ?case by (cases ps) (simp_all add: walk_pointers.simps)
next
  case (Cons x xs)
  then obtain a qs c where "ps = a # qs" "p = a" "a \<noteq> 0" "pcells s a = Some c" "data c = x" "chain (pcells s) (next_ptr c) qs xs 0"
    by (cases ps) auto
  then show ?case using Cons.IH [of "next_ptr c" qs "out @ [(a, x)]"] by (subst walk_pointers.simps) (simp add: d_rw_def)
qed

lemma walk_sum_chain: "chain (pcells s) p ps xs 0 \<Longrightarrow> r < 2 ^ 64 \<Longrightarrow> walk_sum p s r = ret ((r + sum_list xs) mod 2 ^ 64)"
proof (induction xs arbitrary: p ps r)
  case Nil
  then show ?case by (cases ps) (simp_all add: walk_sum.simps)
next
  case (Cons x xs)
  then obtain a qs c where a: "ps = a # qs" "p = a" "a \<noteq> 0" "pcells s a = Some c" "data c = x" "chain (pcells s) (next_ptr c) qs xs 0"
    by (cases ps) auto
  have "(uadd64 r x + sum_list xs) mod 2 ^ 64 = (r + (x + sum_list xs)) mod 2 ^ 64"
    unfolding uadd64_def by (simp add: mod_add_left_eq add.assoc)
  then show ?case
    using Cons.IH [of "next_ptr c" qs "uadd64 r x"] a by (subst walk_sum.simps) (simp add: d_rw_def uadd64_def)
qed

lemma pm_sum_rep: "chain (pcells s) (phead s) ps xs 0 \<Longrightarrow> r < 2 ^ 64 \<Longrightarrow> pm_sum_rounds n s r = ret ((r + n * sum_list xs) mod 2 ^ 64)"
proof (induction n arbitrary: r)
  case (Suc n)
  have "((r + sum_list xs) mod 2 ^ 64 + n * sum_list xs) mod 2 ^ 64 = (r + Suc n * sum_list xs) mod 2 ^ 64"
    by (simp add: mod_add_left_eq add.assoc)
  then show ?case
    using Suc.IH [of "(r + sum_list xs) mod 2 ^ 64"] Suc.prems walk_sum_chain [of s "phead s" ps xs r] by simp
qed simp

lemma pm_reads_rep:
  assumes "pm_rep s ps xs"
  shows "pm_print_nodes s = ret (xs, zip ps xs)" and "pm_sum_nodes s = ret ((100 * sum_list xs) mod 2 ^ 64)"
    and "pm_print_head s = Inr (take 1 xs)"
proof -
  have ch: "chain (pcells s) (phead s) ps xs 0" using assms by (simp add: pm_rep_def)
  show "pm_print_nodes s = ret (xs, zip ps xs)"
    using walk_values_chain [OF ch, of "[]"] walk_pointers_chain [OF ch, of "[]"] by (simp add: pm_print_nodes_def)
  show "pm_sum_nodes s = ret ((100 * sum_list xs) mod 2 ^ 64)" using pm_sum_rep [OF ch, of 0 100] by (simp add: pm_sum_nodes_def)
  show "pm_print_head s = Inr (take 1 xs)" using ch by (cases ps; cases xs) (auto simp: pm_print_head_def d_rw_def)
qed

subsection \<open>The program implements a queue of numbers, on zeroed objects\<close>

definition pm_spec :: "string \<Rightarrow> nat list \<Rightarrow> (pm_out \<times> nat list) res" where
  "pm_spec buf xs =
     (let short = length buf < 4; arg = stoull 10 (drop 1 buf); c = take 1 buf in
      if buf = [] \<or> c = newline then Inr (Nothing, xs)
      else if c = ''i'' then if short then Inr (Help, xs) else bindR arg (\<lambda>n. Inr (Appended 0, xs @ [n]))
      else if c = ''c'' then Inr (Nothing, xs)
      else if c = ''p'' then Inr (Values xs, xs)
      else if c = ''f'' then Inr (Head (take 1 xs), xs)
      else if c = ''d'' then if xs = [] then Inl NullDeref else Inr (Nothing, tl xs)
      else if c = ''s'' then Inr (Sum ((100 * sum_list xs) mod 2 ^ 64), xs)
      else if c = ''A'' then if short then Inr (Help, xs) else bindR arg (\<lambda>n. Inr (Appended 0, xs @ [0..<n]))
      else if c = ''D'' then if short then Inr (Help, xs)
        else bindR arg (\<lambda>n. if n \<le> length xs then Inr (Nothing, drop n xs) else Inl NullDeref)
      else if c = ''h'' then Inr (Help, xs) else Inr (Unknown, xs))"

text \<open>The command does what the specification says, or it reports aborted transactions and leaves a list.\<close>

definition pm_refines :: "(pm_out \<times> nat list) res \<Rightarrow> (pm_out \<times> linkedlist_pmdk_t) run \<Rightarrow> bool" where
  "pm_refines a c \<longleftrightarrow>
     (\<exists>k s' ps' xs'. c = ret (Appended (Suc k), s') \<and> pm_rep s' ps' xs') \<or>
     (case a of Inl e \<Rightarrow> c = Some (Inl e) | Inr (out, xs) \<Rightarrow> \<exists>s' ps'. c = ret (out, s') \<and> pm_rep s' ps' xs)"

lemma pm_refines_bind:
  "(\<And>n. pm_refines (f n) (g n)) \<Longrightarrow> pm_refines (bindR a f) (bindX (Some a) g)"
  by (cases a) (auto simp: pm_refines_def)

lemma pm_refines_if: "pm_refines a x \<Longrightarrow> pm_refines b y \<Longrightarrow> pm_refines (if c then a else b) (if c then x else y)"
  by simp

lemma pm_refines_same: "pm_rep s ps xs \<Longrightarrow> pm_refines (Inr (out, xs)) (ret (out, s))"
  unfolding pm_refines_def by auto

lemma pm_append_all_rep:
  assumes al: "zero_alloc al"
  shows "pm_rep s ps xs \<Longrightarrow> \<exists>k' s' ps' xs'. pm_append_all al js k s = Inr (k', s') \<and> pm_rep s' ps' xs' \<and> k \<le> k' \<and>
    (k' = k \<longrightarrow> xs' = xs @ js)"
proof (induction js arbitrary: k s ps xs)
  case (Cons j js)
  from pm_append_rep [OF al Cons.prems, of j] show ?case
  proof (elim disjE exE conjE)
    assume a: "pm_append_node al j s = Inr (False, s)"
    obtain k' s' ps' xs' where "pm_append_all al js (Suc k) s = Inr (k', s')" "pm_rep s' ps' xs'" "Suc k \<le> k'"
      using Cons.IH [OF Cons.prems, of "Suc k"] by blast
    then show ?thesis using a by (intro exI [of _ k'] exI [of _ s'] exI [of _ ps'] exI [of _ xs']) simp
  next
    fix s1 p assume a: "pm_append_node al j s = Inr (True, s1)" "pm_rep s1 (ps @ [p]) (xs @ [j])"
    obtain k' s' ps' xs' where "pm_append_all al js k s1 = Inr (k', s')" "pm_rep s' ps' xs'" "k \<le> k'"
      "k' = k \<longrightarrow> xs' = (xs @ [j]) @ js"
      using Cons.IH [OF a(2), of k] by blast
    then show ?thesis using a(1) by (intro exI [of _ k'] exI [of _ s'] exI [of _ ps'] exI [of _ xs']) simp
  qed
qed auto

lemma pm_bulk_delete_rep:
  "pm_rep s ps xs \<Longrightarrow>
   if n \<le> length xs then \<exists>s' ps'. pm_bulk_delete n s = Inr s' \<and> pm_rep s' ps' (drop n xs) else pm_bulk_delete n s = Inl NullDeref"
proof (induction n arbitrary: s ps xs)
  case (Suc n)
  show ?case
  proof (cases xs)
    case Nil
    then show ?thesis using pm_pop_rep [OF Suc.prems] by simp
  next
    case (Cons x ys)
    then obtain s' where s': "pm_pop_head s = Inr s'" "pm_rep s' (tl ps) ys" using pm_pop_rep [OF Suc.prems] by auto
    show ?thesis using Suc.IH [OF s'(2)] s'(1) Cons by (simp split: if_splits)
  qed
qed auto



subsection \<open>Two allocators\<close>

definition fresh_cell :: "nat \<Rightarrow> cell_alloc" where
  "fresh_cell q h = (if h 16 = None then Some (16, \<lparr>next_ptr = q, data = 99\<rparr>) else None)"

definition no_plist :: linkedlist_pmdk_t where
  "no_plist = \<lparr>phead = 0, ptail = 0, pcells = Map.empty\<rparr>"



end
