(* ===== verification/BlkDev.thy ===== *)
theory BlkDev
  imports Prelude
begin

text \<open>
  The user-space block device of libcxlfs: blkdev.hh and blkdev.cc.  SPDK is not part of the repository; the
  calls the code makes into it are the fields of the record \<open>spdk\<close>, over a device state \<open>'d\<close>.  A command
  is submitted with the identity of its \<^verbatim>\<open>ubd_sequence\<close>, and polling a queue pair returns completions, to
  which the registered callback (\<open>io_complete\<close> or \<open>reset_zone_complete\<close>) is applied.  DMA buffers are their
  contents.  A polling loop that never sees its completion does not return: the value \<open>None\<close>.

  \<open>spdk_ok\<close> states what NVMe promises: a write is on the medium once it is completed, a completed read
  returns the medium, and commands complete.  It promises no order between outstanding commands.
\<close>

subsection \<open>SPDK\<close>

record completion =
  cpl_seq :: nat
  cpl_error :: bool
  cpl_data :: "byte list option"   \<comment> \<open>the data of a read\<close>
  cpl_reset :: bool                \<comment> \<open>registered with \<open>reset_zone_complete\<close>\<close>

record 'd spdk =
  sp_env_init :: "'d \<Rightarrow> bool"
  sp_vmd_init :: "'d \<Rightarrow> 'd"
  sp_probe :: "'d \<Rightarrow> int \<times> nat list"
  sp_active_ns :: "nat \<Rightarrow> 'd \<Rightarrow> nat option list"
  sp_ns_is_active :: "nat \<Rightarrow> 'd \<Rightarrow> bool"
  sp_alloc_qpair :: "nat \<Rightarrow> 'd \<Rightarrow> bool"
  sp_detach :: "nat \<Rightarrow> 'd \<Rightarrow> 'd"
  sp_env_fini :: "'d \<Rightarrow> 'd"
  sp_vmd_fini :: "'d \<Rightarrow> 'd"
  sp_map_cmb :: "nat \<Rightarrow> 'd \<Rightarrow> nat option"
  sp_unmap_cmb :: "nat \<Rightarrow> 'd \<Rightarrow> 'd"
  sp_zmalloc :: "nat \<Rightarrow> 'd \<Rightarrow> bool"
  sp_free :: "'d \<Rightarrow> 'd"
  sp_is_zns :: "nat \<Rightarrow> 'd \<Rightarrow> bool"
  sp_reset_zone :: "nat \<Rightarrow> nat \<Rightarrow> 'd \<Rightarrow> int \<times> 'd"
  sp_cmd_read :: "nat \<Rightarrow> nat \<Rightarrow> nat \<Rightarrow> nat \<Rightarrow> 'd \<Rightarrow> int \<times> 'd"
  sp_cmd_write :: "nat \<Rightarrow> nat \<Rightarrow> nat \<Rightarrow> nat \<Rightarrow> byte list \<Rightarrow> 'd \<Rightarrow> int \<times> 'd"
  sp_process :: "nat \<Rightarrow> 'd \<Rightarrow> completion list \<times> 'd"

subsection \<open>State\<close>

record ns_entry =
  ns_ctrlr :: nat
  ns_ns :: nat
  ns_qpair :: bool

record ubd_sequence =
  sq_ns_entry :: ns_entry
  sq_buf :: "byte list"
  is_write :: bool
  using_cmb_io :: nat
  is_completed :: nat

record 'd UserBlkDev =
  ubd_dev :: 'd
  g_vmd :: bool
  g_controllers :: "nat list"
  g_namespaces :: "ns_entry list"
  namespace_cnt :: nat
  read_buf :: "byte list option"
  seqs :: "nat \<Rightarrow> ubd_sequence option"
  next_seq :: nat

definition upd_dev :: "('d \<Rightarrow> 'd) \<Rightarrow> 'd UserBlkDev \<Rightarrow> 'd UserBlkDev" where
  "upd_dev f u = u\<lparr>ubd_dev := f (ubd_dev u)\<rparr>"

definition seq_upd :: "nat \<Rightarrow> (ubd_sequence \<Rightarrow> ubd_sequence) \<Rightarrow> 'd UserBlkDev \<Rightarrow> 'd UserBlkDev" where
  "seq_upd i f u = u\<lparr>seqs := (seqs u)(i := map_option f (seqs u i))\<rparr>"

subsection \<open>Set-up\<close>

definition register_ns :: "'d spdk \<Rightarrow> nat \<Rightarrow> nat \<Rightarrow> 'd UserBlkDev \<Rightarrow> 'd UserBlkDev" where
  "register_ns sp ctrlr ns u =
     (if \<not> sp_ns_is_active sp ns (ubd_dev u) then u
      else u\<lparr>g_namespaces := g_namespaces u @ [\<lparr>ns_ctrlr = ctrlr, ns_ns = ns, ns_qpair = False\<rparr>]\<rparr>)"

definition probe_cb :: bool where
  "probe_cb = True"

fun attach_ns :: "'d spdk \<Rightarrow> nat \<Rightarrow> nat option list \<Rightarrow> 'd UserBlkDev \<Rightarrow> 'd UserBlkDev" where
  "attach_ns sp ctrlr [] u = u"
| "attach_ns sp ctrlr (None # nss) u = attach_ns sp ctrlr nss u"
| "attach_ns sp ctrlr (Some ns # nss) u =
     attach_ns sp ctrlr nss ((register_ns sp ctrlr ns u)\<lparr>namespace_cnt := Suc (namespace_cnt u)\<rparr>)"

definition attach_cb :: "'d spdk \<Rightarrow> nat \<Rightarrow> 'd UserBlkDev \<Rightarrow> 'd UserBlkDev" where
  "attach_cb sp ctrlr u =
     attach_ns sp ctrlr (sp_active_ns sp ctrlr (ubd_dev u)) (u\<lparr>g_controllers := g_controllers u @ [ctrlr]\<rparr>)"

definition ubd_cleanup :: "'d spdk \<Rightarrow> 'd UserBlkDev \<Rightarrow> 'd UserBlkDev" where
  "ubd_cleanup sp u =
     u\<lparr>g_namespaces := [], g_controllers := [],
       ubd_dev := foldl (\<lambda>d c. sp_detach sp c d) (ubd_dev u) (g_controllers u)\<rparr>"

definition ubd_dtor :: "'d spdk \<Rightarrow> 'd UserBlkDev \<Rightarrow> 'd UserBlkDev" where
  "ubd_dtor sp u =
     (let u1 = ubd_cleanup sp u in if g_vmd u1 then upd_dev (sp_vmd_fini sp) u1 else u1)"

fun alloc_qpairs :: "'d spdk \<Rightarrow> 'd \<Rightarrow> ns_entry list \<Rightarrow> bool \<times> ns_entry list" where
  "alloc_qpairs sp d [] = (True, [])"
| "alloc_qpairs sp d (e # es) =
     (if sp_alloc_qpair sp (ns_ctrlr e) d
      then let (ok, es') = alloc_qpairs sp d es in (ok, e\<lparr>ns_qpair := True\<rparr> # es')
      else (False, e\<lparr>ns_qpair := False\<rparr> # es))"

definition ubd_init :: "'d spdk \<Rightarrow> 'd UserBlkDev \<Rightarrow> int \<times> 'd UserBlkDev" where
  "ubd_init sp u =
     (if \<not> sp_env_init sp (ubd_dev u) then (1, u)
      else let u0 = (if g_vmd u then upd_dev (sp_vmd_init sp) u else u);
               (rc, ctrlrs) = sp_probe sp (ubd_dev u0);
               u1 = foldl (\<lambda>u c. if probe_cb then attach_cb sp c u else u) u0 ctrlrs;
               bail = (\<lambda>u. upd_dev (sp_env_fini sp) (ubd_cleanup sp u))
           in if rc \<noteq> 0 then (1, bail u1)
              else if g_controllers u1 = [] then (1, bail u1)
              else let (ok, nss) = alloc_qpairs sp (ubd_dev u1) (g_namespaces u1);
                       u2 = u1\<lparr>g_namespaces := nss\<rparr>
                   in if ok then (rc, u2) else (-1, u2))"

subsection \<open>Completions\<close>

definition io_complete :: "completion \<Rightarrow> 'd UserBlkDev \<Rightarrow> 'd UserBlkDev" where
  "io_complete c = seq_upd (cpl_seq c) (\<lambda>s. s\<lparr>is_completed := (if cpl_error c then 2 else 1)\<rparr>)"

definition reset_zone_complete :: "completion \<Rightarrow> 'd UserBlkDev \<Rightarrow> 'd UserBlkDev res" where
  "reset_zone_complete c u =
     (if cpl_error c then Inl ExitFailure else Inr (seq_upd (cpl_seq c) (\<lambda>s. s\<lparr>is_completed := 1\<rparr>) u))"

definition dma_in :: "completion \<Rightarrow> 'd UserBlkDev \<Rightarrow> 'd UserBlkDev" where
  "dma_in c u = (case cpl_data c of None \<Rightarrow> u | Some bs \<Rightarrow> u\<lparr>read_buf := Some bs\<rparr>)"

fun apply_completions :: "completion list \<Rightarrow> 'd UserBlkDev \<Rightarrow> 'd UserBlkDev res" where
  "apply_completions [] u = Inr u"
| "apply_completions (c # cs) u =
     bindR (if cpl_reset c then reset_zone_complete c u else Inr (io_complete c (dma_in c u)))
       (apply_completions cs)"

definition process_completions :: "'d spdk \<Rightarrow> nat \<Rightarrow> 'd UserBlkDev \<Rightarrow> 'd UserBlkDev res" where
  "process_completions sp ns u =
     (let (cs, d) = sp_process sp ns (ubd_dev u) in apply_completions cs (u\<lparr>ubd_dev := d\<rparr>))"

definition seq_done :: "nat \<Rightarrow> 'd UserBlkDev \<Rightarrow> bool" where
  "seq_done i u = (case seqs u i of None \<Rightarrow> True | Some s \<Rightarrow> is_completed s \<noteq> 0)"

partial_function (option) wait_complete ::
  "'d spdk \<Rightarrow> nat \<Rightarrow> nat \<Rightarrow> 'd UserBlkDev \<Rightarrow> 'd UserBlkDev res option" where
  "wait_complete sp ns i u =
     (if seq_done i u then Some (Inr u)
      else case process_completions sp ns u of Inl e \<Rightarrow> Some (Inl e) | Inr u' \<Rightarrow> wait_complete sp ns i u')"

definition reset_zone_and_wait :: "'d spdk \<Rightarrow> nat \<Rightarrow> nat \<Rightarrow> 'd UserBlkDev \<Rightarrow> 'd UserBlkDev run" where
  "reset_zone_and_wait sp ns i u =
     (let (rc, d) = sp_reset_zone sp ns i (ubd_dev u)
      in if rc \<noteq> 0 then Some (Inl ExitFailure)
         else bindX (wait_complete sp ns i (u\<lparr>ubd_dev := d\<rparr>))
                (\<lambda>u'. ret (seq_upd i (\<lambda>s. s\<lparr>is_completed := 0\<rparr>) u')))"

subsection \<open>Reads and writes\<close>

definition tgt_entry :: "nat \<Rightarrow> 'd UserBlkDev \<Rightarrow> ns_entry option" where
  "tgt_entry start_lba u =
     (let tgt_ns = start_lba mod namespace_cnt u
      in if tgt_ns < length (g_namespaces u) then Some (g_namespaces u ! tgt_ns) else None)"

definition fresh_seq :: "ubd_sequence \<Rightarrow> 'd UserBlkDev \<Rightarrow> nat \<times> 'd UserBlkDev" where
  "fresh_seq s u = (next_seq u, u\<lparr>seqs := (seqs u)(next_seq u := Some s), next_seq := Suc (next_seq u)\<rparr>)"

definition drop_seq :: "nat \<Rightarrow> 'd UserBlkDev \<Rightarrow> 'd UserBlkDev" where
  "drop_seq i u = u\<lparr>seqs := (seqs u)(i := None)\<rparr>"

text \<open>The value is the return code and what is copied to the caller's buffer, if anything is.\<close>

definition read_blocking ::
  "'d spdk \<Rightarrow> nat \<Rightarrow> nat \<Rightarrow> 'd UserBlkDev \<Rightarrow> ((int \<times> byte list option) \<times> 'd UserBlkDev) run" where
  "read_blocking sp start_lba lba_count u =
     guardX (namespace_cnt u \<noteq> 0) DivByZero
       (case tgt_entry start_lba u of None \<Rightarrow> Some (Inl NullDeref) | Some e \<Rightarrow>
          if read_buf u = None \<and> \<not> sp_zmalloc sp (lba_count * 512) (ubd_dev u) then ret ((-1, None), u)
          else let rb = (case read_buf u of Some b \<Rightarrow> b | None \<Rightarrow> replicate (lba_count * 512) 0);
                   s = \<lparr>sq_ns_entry = e, sq_buf = rb, is_write = False, using_cmb_io = 0, is_completed = 0\<rparr>;
                   (i, u1) = fresh_seq s (u\<lparr>read_buf := Some rb\<rparr>);
                   (rc, d) = sp_cmd_read sp (ns_ns e) i start_lba lba_count (ubd_dev u1);
                   u2 = u1\<lparr>ubd_dev := d\<rparr>
               in bindX (if rc = 0 then wait_complete sp (ns_ns e) i u2 else ret u2)
                    (\<lambda>u3. let data = take (lba_count * 512) (case read_buf u3 of Some b \<Rightarrow> b | None \<Rightarrow> []);
                              ok = (case seqs u3 i of Some s' \<Rightarrow> is_completed s' = 1 | None \<Rightarrow> False)
                          in ret ((if ok then 0 else -1, Some data), drop_seq i u3)))"

text \<open>The value is the sequence, \<open>None\<close> for the null pointer.\<close>

definition ubd_write ::
  "'d spdk \<Rightarrow> byte list \<Rightarrow> nat \<Rightarrow> nat \<Rightarrow> 'd UserBlkDev \<Rightarrow> (nat option \<times> 'd UserBlkDev) run" where
  "ubd_write sp buf start_lba lba_count u =
     guardX (namespace_cnt u \<noteq> 0) DivByZero
       (case tgt_entry start_lba u of None \<Rightarrow> Some (Inl NullDeref) | Some e \<Rightarrow>
          let cmb = (case sp_map_cmb sp (ns_ctrlr e) (ubd_dev u) of None \<Rightarrow> False | Some sz \<Rightarrow> lba_count * 512 \<le> sz)
          in if \<not> cmb \<and> \<not> sp_zmalloc sp (lba_count * 512) (ubd_dev u) then ret (None, u)
             else let s = \<lparr>sq_ns_entry = e, sq_buf = take (lba_count * 512) buf, is_write = True,
                           using_cmb_io = (if cmb then 1 else 0), is_completed = 0\<rparr>;
                      (i, u1) = fresh_seq s u
                  in bindX (if sp_is_zns sp (ns_ns e) (ubd_dev u1) then reset_zone_and_wait sp (ns_ns e) i u1
                            else ret u1)
                       (\<lambda>u2. let (rc, d) = sp_cmd_write sp (ns_ns e) i start_lba lba_count (sq_buf s) (ubd_dev u2);
                                 u3 = u2\<lparr>ubd_dev := d\<rparr>
                             in if rc \<noteq> 0 then ret (None, drop_seq i u3)
                                else bindX (Some (process_completions sp (ns_ns e) u3)) (\<lambda>u4. ret (Some i, u4))))"

definition seq_free :: "'d spdk \<Rightarrow> nat \<Rightarrow> 'd UserBlkDev \<Rightarrow> 'd UserBlkDev" where
  "seq_free sp i u =
     (case seqs u i of None \<Rightarrow> u | Some s \<Rightarrow>
        if is_write s
        then if using_cmb_io s \<noteq> 0 then upd_dev (sp_unmap_cmb sp (ns_ctrlr (sq_ns_entry s))) u
             else upd_dev (sp_free sp) u
        else u)"

definition write_blocking ::
  "'d spdk \<Rightarrow> byte list \<Rightarrow> nat \<Rightarrow> nat \<Rightarrow> 'd UserBlkDev \<Rightarrow> (int \<times> 'd UserBlkDev) run" where
  "write_blocking sp buf start_lba lba_count u =
     bindX (ubd_write sp buf start_lba lba_count u)
       (\<lambda>(sq, u1). case sq of
          None \<Rightarrow> Some (Inl NullDeref)
        | Some i \<Rightarrow> bindX (wait_complete sp (case seqs u1 i of Some s \<Rightarrow> ns_ns (sq_ns_entry s) | None \<Rightarrow> 0) i u1)
            (\<lambda>u2. ret (0, drop_seq i (seq_free sp i u2))))"

subsection \<open>What NVMe promises\<close>

datatype cmd = CRead nat nat | CWrite nat nat "byte list" | CReset

definition block_of :: "byte list \<Rightarrow> nat \<Rightarrow> nat \<Rightarrow> byte list" where
  "block_of data lba k = take 512 (drop (512 * (k - lba)) data)"

definition writes_block :: "nat \<times> cmd \<Rightarrow> nat \<Rightarrow> bool" where
  "writes_block p k \<longleftrightarrow> (case snd p of CWrite lba cnt data \<Rightarrow> lba \<le> k \<and> k < lba + cnt | _ \<Rightarrow> False)"

definition quiet :: "(nat \<times> cmd) list \<Rightarrow> nat \<Rightarrow> bool" where
  "quiet ps k \<longleftrightarrow> (\<forall>p\<in>set ps. \<not> writes_block p k)"

definition blocks :: "(nat \<Rightarrow> byte list) \<Rightarrow> nat \<Rightarrow> nat \<Rightarrow> byte list" where
  "blocks bs lba cnt = concat (map bs [lba..<lba + cnt])"

text \<open>
  \<open>disk\<close> is the medium of a namespace, \<open>outs\<close> its outstanding commands.  A block is only determined while no
  write to it is outstanding, and a completed write determines it when it was the only one.
\<close>

definition cmd_ok :: "'d spdk \<Rightarrow> ('d \<Rightarrow> nat \<Rightarrow> nat \<Rightarrow> byte list) \<Rightarrow> ('d \<Rightarrow> nat \<Rightarrow> (nat \<times> cmd) list) \<Rightarrow> bool" where
  "cmd_ok sp disk outs \<longleftrightarrow>
     (\<forall>ns i lba cnt d. fst (sp_cmd_read sp ns i lba cnt d) = 0 \<longrightarrow>
        (let d' = snd (sp_cmd_read sp ns i lba cnt d)
         in disk d' = disk d \<and> outs d' = (outs d)(ns := outs d ns @ [(i, CRead lba cnt)]))) \<and>
     (\<forall>ns i lba cnt data d. fst (sp_cmd_write sp ns i lba cnt data d) = 0 \<longrightarrow>
        (let d' = snd (sp_cmd_write sp ns i lba cnt data d)
         in outs d' = (outs d)(ns := outs d ns @ [(i, CWrite lba cnt data)]) \<and>
            (\<forall>ns' k. \<not> (ns' = ns \<and> lba \<le> k \<and> k < lba + cnt) \<longrightarrow> disk d' ns' k = disk d ns' k))) \<and>
     (\<forall>d. disk (sp_free sp d) = disk d \<and> outs (sp_free sp d) = outs d) \<and>
     (\<forall>c d. disk (sp_unmap_cmb sp c d) = disk d \<and> outs (sp_unmap_cmb sp c d) = outs d)"

definition cpl_ok :: "(nat \<Rightarrow> byte list) \<Rightarrow> (nat \<times> cmd) list \<Rightarrow> completion \<Rightarrow> bool" where
  "cpl_ok bs ps c \<longleftrightarrow> \<not> cpl_error c \<and>
     (\<exists>cm. (cpl_seq c, cm) \<in> set ps \<and> (cpl_reset c \<longleftrightarrow> cm = CReset) \<and>
        (case cm of
           CRead lba cnt \<Rightarrow> (\<forall>k. lba \<le> k \<and> k < lba + cnt \<longrightarrow> quiet ps k) \<longrightarrow> cpl_data c = Some (blocks bs lba cnt)
         | _ \<Rightarrow> cpl_data c = None))"

definition process_ok ::
  "'d spdk \<Rightarrow> ('d \<Rightarrow> nat \<Rightarrow> nat \<Rightarrow> byte list) \<Rightarrow> ('d \<Rightarrow> nat \<Rightarrow> (nat \<times> cmd) list) \<Rightarrow> bool" where
  "process_ok sp disk outs \<longleftrightarrow> (\<forall>ns d.
     let cs = fst (sp_process sp ns d); d' = snd (sp_process sp ns d); done = cpl_seq ` set cs
     in outs d' = (outs d)(ns := filter (\<lambda>p. fst p \<notin> done) (outs d ns)) \<and>
        (\<forall>c\<in>set cs. cpl_ok (disk d ns) (outs d ns) c) \<and>
        (\<forall>ns' k. ns' \<noteq> ns \<or> quiet (outs d ns) k \<longrightarrow> disk d' ns' k = disk d ns' k) \<and>
        (\<forall>i lba cnt data k. (i, CWrite lba cnt data) \<in> set (outs d ns) \<and> i \<in> done \<and> lba \<le> k \<and> k < lba + cnt \<and>
           quiet (filter (\<lambda>p. p \<noteq> (i, CWrite lba cnt data)) (outs d ns)) k \<longrightarrow> disk d' ns k = block_of data lba k))"

definition polled :: "'d spdk \<Rightarrow> nat \<Rightarrow> nat \<Rightarrow> 'd \<Rightarrow> 'd" where
  "polled sp ns n d = ((\<lambda>d. snd (sp_process sp ns d)) ^^ n) d"

definition progress_ok :: "'d spdk \<Rightarrow> ('d \<Rightarrow> nat \<Rightarrow> (nat \<times> cmd) list) \<Rightarrow> bool" where
  "progress_ok sp outs \<longleftrightarrow> (\<forall>ns d i. i \<in> fst ` set (outs d ns) \<longrightarrow>
     (\<exists>n. i \<in> cpl_seq ` set (fst (sp_process sp ns (polled sp ns n d)))))"

definition spdk_ok ::
  "'d spdk \<Rightarrow> ('d \<Rightarrow> nat \<Rightarrow> nat \<Rightarrow> byte list) \<Rightarrow> ('d \<Rightarrow> nat \<Rightarrow> (nat \<times> cmd) list) \<Rightarrow> bool" where
  "spdk_ok sp disk outs \<longleftrightarrow> cmd_ok sp disk outs \<and> process_ok sp disk outs \<and> progress_ok sp outs"

text \<open>An instance: a device that performs the outstanding commands of a queue pair when it is polled.\<close>

record ram =
  r_disk :: "nat \<Rightarrow> nat \<Rightarrow> byte list"
  r_outs :: "nat \<Rightarrow> (nat \<times> cmd) list"

fun ram_apply :: "cmd \<Rightarrow> (nat \<Rightarrow> byte list) \<Rightarrow> (nat \<Rightarrow> byte list)" where
  "ram_apply (CWrite lba cnt data) bs = (\<lambda>k. if lba \<le> k \<and> k < lba + cnt then block_of data lba k else bs k)"
| "ram_apply (CRead lba cnt) bs = bs"
| "ram_apply CReset bs = bs"

definition ram_cpl :: "(nat \<Rightarrow> byte list) \<Rightarrow> nat \<times> cmd \<Rightarrow> completion" where
  "ram_cpl bs p = \<lparr>cpl_seq = fst p, cpl_error = False,
     cpl_data = (case snd p of CRead lba cnt \<Rightarrow> Some (blocks bs lba cnt) | _ \<Rightarrow> None),
     cpl_reset = (snd p = CReset)\<rparr>"

definition ram_process :: "nat \<Rightarrow> ram \<Rightarrow> completion list \<times> ram" where
  "ram_process ns d =
     (map (ram_cpl (r_disk d ns)) (r_outs d ns),
      d\<lparr>r_disk := (r_disk d)(ns := foldl (\<lambda>bs p. ram_apply (snd p) bs) (r_disk d ns) (r_outs d ns)),
        r_outs := (r_outs d)(ns := [])\<rparr>)"

definition ram_submit :: "nat \<Rightarrow> nat \<times> cmd \<Rightarrow> ram \<Rightarrow> ram" where
  "ram_submit ns p d = d\<lparr>r_outs := (r_outs d)(ns := r_outs d ns @ [p])\<rparr>"

definition ram_spdk :: "ram spdk" where
  "ram_spdk = \<lparr>sp_env_init = (\<lambda>d. True), sp_vmd_init = id, sp_probe = (\<lambda>d. (0, [0])), sp_active_ns = (\<lambda>c d. [Some 0]),
     sp_ns_is_active = (\<lambda>n d. True), sp_alloc_qpair = (\<lambda>c d. True), sp_detach = (\<lambda>c d. d), sp_env_fini = id,
     sp_vmd_fini = id, sp_map_cmb = (\<lambda>c d. None), sp_unmap_cmb = (\<lambda>c d. d), sp_zmalloc = (\<lambda>n d. True),
     sp_free = id, sp_is_zns = (\<lambda>n d. False), sp_reset_zone = (\<lambda>ns i d. (0, ram_submit ns (i, CReset) d)),
     sp_cmd_read = (\<lambda>ns i lba cnt d. (0, ram_submit ns (i, CRead lba cnt) d)),
     sp_cmd_write = (\<lambda>ns i lba cnt data d. (0, ram_submit ns (i, CWrite lba cnt data) d)),
     sp_process = ram_process\<rparr>"

subsection \<open>Polling\<close>

lemma quiet_Cons: "quiet (p # ps) k \<longleftrightarrow> \<not> writes_block p k \<and> quiet ps k"
  by (simp add: quiet_def)

lemma ram_foldl_quiet: "quiet ps k \<Longrightarrow> foldl (\<lambda>bs p. ram_apply (snd p) bs) bs ps k = bs k"
proof (induction ps arbitrary: bs)
  case Nil
  then show ?case by simp
next
  case (Cons p ps)
  then have "ram_apply (snd p) bs k = bs k" by (cases "snd p") (auto simp: quiet_Cons writes_block_def)
  then show ?case using Cons by (simp add: quiet_Cons)
qed

lemma ram_foldl_write:
  assumes "(i, CWrite lba cnt data) \<in> set ps" "lba \<le> k" "k < lba + cnt"
    and "quiet (filter (\<lambda>p. p \<noteq> (i, CWrite lba cnt data)) ps) k"
  shows "foldl (\<lambda>bs p. ram_apply (snd p) bs) bs ps k = block_of data lba k"
  using assms
proof (induction ps arbitrary: bs)
  case Nil
  then show ?case by simp
next
  case (Cons p ps)
  show ?case
  proof (cases "(i, CWrite lba cnt data) \<in> set ps")
    case True
    then show ?thesis using Cons by (auto simp: quiet_Cons split: if_splits)
  next
    case False
    then have p: "p = (i, CWrite lba cnt data)" using Cons.prems(1) by simp
    have "filter (\<lambda>p. p \<noteq> (i, CWrite lba cnt data)) ps = ps" using False by (auto simp: filter_id_conv)
    then have "quiet ps k" using Cons.prems(4) p by simp
    then show ?thesis using ram_foldl_quiet [of ps k "ram_apply (snd p) bs"] p Cons.prems(2,3) by simp
  qed
qed

lemma ram_spdk_ok: "spdk_ok ram_spdk r_disk r_outs"
  unfolding spdk_ok_def
proof (intro conjI)
  show "cmd_ok ram_spdk r_disk r_outs"
    by (simp add: cmd_ok_def ram_spdk_def ram_submit_def)
  have em: "filter (\<lambda>p. fst p \<notin> cpl_seq ` set (map (ram_cpl bs) ps)) ps = []" for bs ps
    by (auto simp: filter_empty_conv image_image ram_cpl_def)
  have cp: "cpl_ok bs ps (ram_cpl bs p)" if "p \<in> set ps" for bs ps p
    unfolding cpl_ok_def using that
    by (intro conjI exI [of _ "snd p"]) (auto simp: ram_cpl_def split: cmd.splits)
  show "process_ok ram_spdk r_disk r_outs"
    unfolding process_ok_def Let_def
    using em cp ram_foldl_quiet ram_foldl_write
    by (auto simp: ram_spdk_def ram_process_def)
  show "progress_ok ram_spdk r_outs"
    unfolding progress_ok_def
  proof (intro allI impI exI [of _ 0])
    fix ns i and d :: ram assume "i \<in> fst ` set (r_outs d ns)"
    then show "i \<in> cpl_seq ` set (fst (sp_process ram_spdk ns (polled ram_spdk ns 0 d)))"
      by (force simp: ram_spdk_def ram_process_def polled_def ram_cpl_def image_image)
  qed
qed

definition done_upd :: "nat set \<Rightarrow> (nat \<Rightarrow> ubd_sequence option) \<Rightarrow> (nat \<Rightarrow> ubd_sequence option)" where
  "done_upd D sq = (\<lambda>j. map_option (\<lambda>s. if j \<in> D then s\<lparr>is_completed := 1\<rparr> else s) (sq j))"

lemma done_upd_simps:
  "done_upd {} sq = sq"
  "done_upd D (sq(i := map_option (is_completed_update (\<lambda>_. Suc 0)) (sq i))) = done_upd (insert i D) sq"
proof -
  show "done_upd {} sq = sq" by (simp add: done_upd_def option.map_ident)
  show "done_upd D (sq(i := map_option (is_completed_update (\<lambda>_. Suc 0)) (sq i))) = done_upd (insert i D) sq"
    by (rule ext) (case_tac "sq i", auto simp: done_upd_def)
qed

fun last_data :: "completion list \<Rightarrow> byte list option \<Rightarrow> byte list option" where
  "last_data [] b = b"
| "last_data (c # cs) b = last_data cs (case cpl_data c of None \<Rightarrow> b | Some x \<Rightarrow> Some x)"

lemma apply_completions_ok:
  assumes "\<forall>c\<in>set cs. \<not> cpl_error c \<and> (cpl_reset c \<longrightarrow> cpl_data c = None)"
  shows "apply_completions cs u =
    Inr (u\<lparr>seqs := done_upd (cpl_seq ` set cs) (seqs u), read_buf := last_data cs (read_buf u)\<rparr>)"
  using assms
proof (induction cs arbitrary: u)
  case Nil
  then show ?case by (simp add: done_upd_simps)
next
  case (Cons c cs)
  then show ?case
    by (cases u)
      (auto simp: io_complete_def reset_zone_complete_def seq_upd_def dma_in_def done_upd_simps split: option.splits)
qed


text \<open>One poll of a queue pair, and what any number of polls keeps, relative to the state \<open>u0\<close> they started from.\<close>

definition poll1 :: "'d spdk \<Rightarrow> nat \<Rightarrow> 'd UserBlkDev \<Rightarrow> 'd UserBlkDev" where
  "poll1 sp ns u =
     (let cs = fst (sp_process sp ns (ubd_dev u))
      in u\<lparr>ubd_dev := snd (sp_process sp ns (ubd_dev u)), seqs := done_upd (cpl_seq ` set cs) (seqs u),
           read_buf := last_data cs (read_buf u)\<rparr>)"

lemma cpl_okD: "cpl_ok bs ps c \<Longrightarrow> \<not> cpl_error c \<and> (cpl_reset c \<longrightarrow> cpl_data c = None)"
  unfolding cpl_ok_def by (elim conjE exE, rename_tac cm, case_tac cm) auto

lemma process_completions_poll:
  assumes "process_ok sp disk outs"
  shows "process_completions sp ns u = Inr (poll1 sp ns u)"
proof -
  have "\<forall>c\<in>set (fst (sp_process sp ns (ubd_dev u))). cpl_ok (disk (ubd_dev u) ns) (outs (ubd_dev u) ns) c"
    using assms unfolding process_ok_def Let_def by blast
  then have "\<forall>c\<in>set (fst (sp_process sp ns (ubd_dev u))). \<not> cpl_error c \<and> (cpl_reset c \<longrightarrow> cpl_data c = None)"
    using cpl_okD by blast
  then show ?thesis
    by (simp add: process_completions_def split_beta poll1_def Let_def apply_completions_ok)
qed

definition settled ::
  "('d \<Rightarrow> nat \<Rightarrow> nat \<Rightarrow> byte list) \<Rightarrow> ('d \<Rightarrow> nat \<Rightarrow> (nat \<times> cmd) list) \<Rightarrow> nat \<Rightarrow> (nat \<times> cmd) list \<Rightarrow> 'd \<Rightarrow> 'd \<Rightarrow>
     nat set \<Rightarrow> bool" where
  "settled disk outs ns os d0 d D \<longleftrightarrow>
     outs d = (outs d0)(ns := filter (\<lambda>p. fst p \<notin> D) os) \<and>
     (\<forall>ns' k. ns' \<noteq> ns \<or> quiet os k \<longrightarrow> disk d ns' k = disk d0 ns' k) \<and>
     (\<forall>i lba cnt data k. (i, CWrite lba cnt data) \<in> set os \<and> i \<in> D \<and> lba \<le> k \<and> k < lba + cnt \<and>
        quiet (filter (\<lambda>p. p \<noteq> (i, CWrite lba cnt data)) os) k \<longrightarrow> disk d ns k = block_of data lba k)"

abbreviation settled_in ::
  "('d \<Rightarrow> nat \<Rightarrow> nat \<Rightarrow> byte list) \<Rightarrow> ('d \<Rightarrow> nat \<Rightarrow> (nat \<times> cmd) list) \<Rightarrow> nat \<Rightarrow> 'd \<Rightarrow> 'd \<Rightarrow> nat set \<Rightarrow> bool" where
  "settled_in disk outs ns d0 d D \<equiv> settled disk outs ns (outs d0 ns) d0 d D"

lemma settled_in_refl: "settled_in disk outs ns d d {}"
  by (simp add: settled_def)

lemma quiet_filter: "quiet ps k \<Longrightarrow> quiet (filter P ps) k"
  by (simp add: quiet_def)

lemma settled_poll:
  assumes "process_ok sp disk outs"
  shows "settled_in disk outs ns d (snd (sp_process sp ns d)) (cpl_seq ` set (fst (sp_process sp ns d)))"
  using assms unfolding process_ok_def settled_def Let_def by blast

lemma settled_trans:
  assumes s: "settled disk outs ns os d0 d D" and t: "settled_in disk outs ns d d' E"
  shows "settled disk outs ns os d0 d' (D \<union> E)"
proof -
  have o: "outs d ns = filter (\<lambda>p. fst p \<notin> D) os" using s by (simp add: settled_def)
  have k': "\<And>ns' k. ns' \<noteq> ns \<or> quiet (outs d ns) k \<Longrightarrow> disk d' ns' k = disk d ns' k"
    and w': "\<And>i lba cnt data k. (i, CWrite lba cnt data) \<in> set (outs d ns) \<Longrightarrow> i \<in> E \<Longrightarrow> lba \<le> k \<Longrightarrow> k < lba + cnt \<Longrightarrow>
       quiet (filter (\<lambda>p. p \<noteq> (i, CWrite lba cnt data)) (outs d ns)) k \<Longrightarrow> disk d' ns k = block_of data lba k"
    using t unfolding settled_def by blast+
  show ?thesis
    unfolding settled_def
  proof (intro conjI allI impI)
    show "outs d' = (outs d0)(ns := filter (\<lambda>p. fst p \<notin> D \<union> E) os)"
      using t s by (auto simp: settled_def filter_filter)
    fix ns' k assume q: "ns' \<noteq> ns \<or> quiet os k"
    then show "disk d' ns' k = disk d0 ns' k"
      using k' [of ns' k] s o by (auto simp: settled_def quiet_filter)
  next
    fix i lba cnt data k
    assume a: "(i, CWrite lba cnt data) \<in> set os \<and> i \<in> D \<union> E \<and> lba \<le> k \<and> k < lba + cnt \<and>
      quiet (filter (\<lambda>p. p \<noteq> (i, CWrite lba cnt data)) os) k"
    let ?w = "(i, CWrite lba cnt data)"
    have q: "quiet (filter (\<lambda>p. p \<noteq> ?w) (outs d ns)) k" using a o by (auto simp: quiet_def)
    show "disk d' ns k = block_of data lba k"
    proof (cases "i \<in> D")
      case True
      then have "?w \<notin> set (outs d ns)" using o by auto
      then have "quiet (outs d ns) k" using q by (auto simp: quiet_def)
      moreover have "disk d ns k = block_of data lba k" using s a True unfolding settled_def by blast
      ultimately show ?thesis using k' by simp
    next
      case False
      then have "?w \<in> set (outs d ns)" using a o by auto
      then show ?thesis using w' a q False by blast
    qed
  qed
qed

lemmas settled_in_step = settled_trans [OF _ settled_poll]

definition same_setup :: "'d UserBlkDev \<Rightarrow> 'd UserBlkDev \<Rightarrow> bool" where
  "same_setup u0 u \<longleftrightarrow> g_vmd u = g_vmd u0 \<and> g_controllers u = g_controllers u0 \<and> g_namespaces u = g_namespaces u0 \<and>
     namespace_cnt u = namespace_cnt u0 \<and> next_seq u = next_seq u0"

definition poll_inv ::
  "('d \<Rightarrow> nat \<Rightarrow> nat \<Rightarrow> byte list) \<Rightarrow> ('d \<Rightarrow> nat \<Rightarrow> (nat \<times> cmd) list) \<Rightarrow> nat \<Rightarrow> 'd UserBlkDev \<Rightarrow> nat set \<Rightarrow>
     'd UserBlkDev \<Rightarrow> bool" where
  "poll_inv disk outs ns u0 D u \<longleftrightarrow> same_setup u0 u \<and> seqs u = done_upd D (seqs u0) \<and>
     settled_in disk outs ns (ubd_dev u0) (ubd_dev u) D"

lemma poll_inv_refl: "poll_inv disk outs ns u {} u"
  by (simp add: poll_inv_def done_upd_simps settled_in_refl same_setup_def)

lemma done_upd_Un: "done_upd E (done_upd D sq) = done_upd (D \<union> E) sq"
  by (rule ext, rename_tac j, case_tac "sq j") (simp_all add: done_upd_def)

lemma poll_inv_step:
  assumes "process_ok sp disk outs" "poll_inv disk outs ns u0 D u"
  shows "poll_inv disk outs ns u0 (D \<union> cpl_seq ` set (fst (sp_process sp ns (ubd_dev u)))) (poll1 sp ns u)"
  using assms(2) settled_in_step [OF _ assms(1)]
  by (simp add: poll_inv_def poll1_def Let_def same_setup_def done_upd_Un)

lemma wait_complete_done: "seq_done i u \<Longrightarrow> wait_complete sp ns i u = Some (Inr u)"
  by (subst wait_complete.simps) simp

lemma wait_complete_step:
  "process_ok sp disk outs \<Longrightarrow> \<not> seq_done i u \<Longrightarrow> wait_complete sp ns i u = wait_complete sp ns i (poll1 sp ns u)"
  by (subst wait_complete.simps) (simp add: process_completions_poll)

lemma poll_inv_seq_done:
  assumes "poll_inv disk outs ns u0 D u" "seqs u0 i = Some s" "is_completed s = 0"
  shows "seq_done i u \<longleftrightarrow> i \<in> D"
  using assms by (simp add: poll_inv_def seq_done_def done_upd_def)

text \<open>
  A polling loop returns once the completion of its sequence has been delivered.  \<open>P\<close> is anything that a poll keeps.
\<close>

lemma wait_complete_returns:
  assumes ok: "process_ok sp disk outs"
    and s: "seqs u0 i = Some s" "is_completed s = 0"
    and P: "\<And>D u. P D u \<Longrightarrow> poll_inv disk outs ns u0 D u \<Longrightarrow> i \<notin> D \<Longrightarrow>
              P (D \<union> cpl_seq ` set (fst (sp_process sp ns (ubd_dev u)))) (poll1 sp ns u)"
    and "poll_inv disk outs ns u0 D u" and "P D u" and "i \<notin> D"
    and "i \<in> cpl_seq ` set (fst (sp_process sp ns (polled sp ns n (ubd_dev u))))"
  shows "\<exists>D' u'. wait_complete sp ns i u = Some (Inr u') \<and> poll_inv disk outs ns u0 D' u' \<and> i \<in> D' \<and> P D' u'"
  using assms(5-8)
proof (induction n arbitrary: u D)
  case 0
  let ?E = "cpl_seq ` set (fst (sp_process sp ns (ubd_dev u)))"
  have i: "i \<in> D \<union> ?E" using "0.prems"(4) by (simp add: polled_def)
  note inv = poll_inv_step [OF ok "0.prems"(1)]
  have "wait_complete sp ns i u = Some (Inr (poll1 sp ns u))"
    using wait_complete_step [OF ok] wait_complete_done poll_inv_seq_done [OF inv s]
      poll_inv_seq_done [OF "0.prems"(1) s] i "0.prems"(3) by metis
  then show ?case using inv i P [OF "0.prems"(2,1,3)] by blast
next
  case (Suc n)
  let ?E = "cpl_seq ` set (fst (sp_process sp ns (ubd_dev u)))"
  note inv = poll_inv_step [OF ok Suc.prems(1)] and P' = P [OF Suc.prems(2,1,3)]
  have st: "wait_complete sp ns i u = wait_complete sp ns i (poll1 sp ns u)"
    using wait_complete_step [OF ok] poll_inv_seq_done [OF Suc.prems(1) s] Suc.prems(3) by blast
  show ?case
  proof (cases "i \<in> D \<union> ?E")
    case True
    then have "wait_complete sp ns i u = Some (Inr (poll1 sp ns u))"
      using st wait_complete_done poll_inv_seq_done [OF inv s] by metis
    then show ?thesis using inv P' True by blast
  next
    case False
    have "polled sp ns (Suc n) (ubd_dev u) = polled sp ns n (ubd_dev (poll1 sp ns u))"
      by (simp add: polled_def poll1_def Let_def funpow_Suc_right del: funpow.simps(2))
    then show ?thesis using Suc.IH [OF inv P' False] Suc.prems(4) unfolding st by simp
  qed
qed


subsection \<open>Reads and writes on a healthy device\<close>

definition ubd_ok :: "('d \<Rightarrow> nat \<Rightarrow> (nat \<times> cmd) list) \<Rightarrow> 'd UserBlkDev \<Rightarrow> bool" where
  "ubd_ok outs u \<longleftrightarrow> 0 < namespace_cnt u \<and> namespace_cnt u = length (g_namespaces u) \<and>
     (\<forall>ns. \<forall>p\<in>set (outs (ubd_dev u) ns). fst p < next_seq u \<and> (\<exists>lba cnt data. snd p = CWrite lba cnt data))"

text \<open>The device accepts commands, has memory for its buffers, no controller memory buffer and no zones.\<close>

definition plain_spdk :: "'d spdk \<Rightarrow> bool" where
  "plain_spdk sp \<longleftrightarrow> (\<forall>n d. sp_zmalloc sp n d) \<and> (\<forall>n d. \<not> sp_is_zns sp n d) \<and>
     (\<forall>ns i lba cnt d. fst (sp_cmd_read sp ns i lba cnt d) = 0) \<and>
     (\<forall>ns i lba cnt data d. fst (sp_cmd_write sp ns i lba cnt data d) = 0)"

lemma tgt_entry_some: "ubd_ok outs u \<Longrightarrow> \<exists>e. tgt_entry lba u = Some e"
  unfolding ubd_ok_def tgt_entry_def Let_def by (metis mod_less_divisor)

lemma tgt_entry_cong:
  "g_namespaces u' = g_namespaces u \<Longrightarrow> namespace_cnt u' = namespace_cnt u \<Longrightarrow> tgt_entry lba u' = tgt_entry lba u"
  by (simp add: tgt_entry_def Let_def)

lemma last_data_read:
  assumes "\<forall>c\<in>set cs. cpl_data c = None \<or> cpl_data c = Some x"
  shows "last_data cs b = (if \<exists>c\<in>set cs. cpl_data c = Some x then Some x else b)"
  using assms by (induction cs arbitrary: b) (auto split: option.splits)

text \<open>Among outstanding writes and one read of quiet blocks, the only data that can come in is that of the read.\<close>

lemma poll_read_buf:
  assumes ok: "process_ok sp disk outs" and inv: "poll_inv disk outs ns u0 D u"
    and os: "outs (ubd_dev u0) ns = ws @ [(i, CRead lba cnt)]"
    and ws: "\<forall>p\<in>set ws. fst p < i \<and> (\<exists>l c d. snd p = CWrite l c d)"
    and q: "\<forall>k. lba \<le> k \<and> k < lba + cnt \<longrightarrow> quiet ws k"
  shows "read_buf (poll1 sp ns u) =
    (if i \<in> cpl_seq ` set (fst (sp_process sp ns (ubd_dev u))) then Some (blocks (disk (ubd_dev u0) ns) lba cnt)
     else read_buf u)"
proof -
  let ?cs = "fst (sp_process sp ns (ubd_dev u))" and ?x = "blocks (disk (ubd_dev u0) ns) lba cnt"
  have q0: "quiet (outs (ubd_dev u0) ns) k" if "lba \<le> k" "k < lba + cnt" for k
    using q that by (auto simp: os quiet_def writes_block_def)
  have st: "settled_in disk outs ns (ubd_dev u0) (ubd_dev u) D" using inv by (simp add: poll_inv_def)
  have o: "outs (ubd_dev u) ns = filter (\<lambda>p. fst p \<notin> D) (ws @ [(i, CRead lba cnt)])"
    using st by (simp add: settled_def os)
  have same: "blocks (disk (ubd_dev u) ns) lba cnt = ?x"
    unfolding blocks_def using st q0 by (intro arg_cong [where f = concat] map_cong) (auto simp: settled_def)
  have c: "cpl_data c = (if cpl_seq c = i then Some ?x else None)" if "c \<in> set ?cs" for c
  proof -
    have "cpl_ok (disk (ubd_dev u) ns) (outs (ubd_dev u) ns) c"
      using ok that unfolding process_ok_def Let_def by blast
    then obtain cm where cm: "(cpl_seq c, cm) \<in> set (outs (ubd_dev u) ns)"
      "case cm of CRead l n \<Rightarrow> (\<forall>k. l \<le> k \<and> k < l + n \<longrightarrow> quiet (outs (ubd_dev u) ns) k) \<longrightarrow>
         cpl_data c = Some (blocks (disk (ubd_dev u) ns) l n) | _ \<Rightarrow> cpl_data c = None"
      by (auto simp: cpl_ok_def)
    have q1: "\<forall>k. lba \<le> k \<and> k < lba + cnt \<longrightarrow> quiet (outs (ubd_dev u) ns) k"
      using q0 unfolding o by (auto simp: os quiet_def)
    show ?thesis
    proof (cases "cpl_seq c = i")
      case True
      then have "(cpl_seq c, cm) \<notin> set ws" using ws by (metis fst_conv nat_less_le)
      then have "cm = CRead lba cnt" using cm(1) unfolding o by (auto split: if_splits)
      then show ?thesis using cm(2) q1 same True by simp
    next
      case False
      then have "(cpl_seq c, cm) \<in> set ws" using cm(1) unfolding o by (auto split: if_splits)
      then obtain l n d where "cm = CWrite l n d" using ws by (metis snd_conv)
      then show ?thesis using cm(2) False by simp
    qed
  qed
  have "last_data ?cs (read_buf u) = (if \<exists>c\<in>set ?cs. cpl_data c = Some ?x then Some ?x else read_buf u)"
    by (rule last_data_read) (use c in auto)
  moreover have "(\<exists>c\<in>set ?cs. cpl_data c = Some ?x) \<longleftrightarrow> i \<in> cpl_seq ` set ?cs"
    using c by (auto split: if_splits)
  ultimately show ?thesis by (simp add: poll1_def Let_def)
qed


lemma settled_in_read:
  assumes s: "settled_in disk outs ns d1 d D" and i: "i \<in> D"
    and o1: "outs d1 = (outs d0)(ns := outs d0 ns @ [(i, CRead lba cnt)])" and k1: "disk d1 = disk d0"
  shows "settled_in disk outs ns d0 d D"
proof -
  have q: "quiet (outs d1 ns) k \<longleftrightarrow> quiet (outs d0 ns) k" for k
    by (auto simp: o1 quiet_def writes_block_def)
  have q': "quiet (filter P (outs d1 ns)) k \<longleftrightarrow> quiet (filter P (outs d0 ns)) k" for P k
    by (auto simp: o1 quiet_def writes_block_def)
  have "set (outs d0 ns) \<subseteq> set (outs d1 ns)" by (auto simp: o1)
  then show ?thesis using s i unfolding settled_def q q' k1 by (auto simp: o1)
qed

lemma read_blocking_ok:
  assumes sp: "spdk_ok sp disk outs" "plain_spdk sp" and u: "ubd_ok outs u" and e: "tgt_entry lba u = Some e"
    and q: "\<forall>k. lba \<le> k \<and> k < lba + cnt \<longrightarrow> quiet (outs (ubd_dev u) (ns_ns e)) k"
  shows "\<exists>u' D. read_blocking sp lba cnt u =
      ret ((0, Some (take (cnt * 512) (blocks (disk (ubd_dev u) (ns_ns e)) lba cnt))), u') \<and>
    g_namespaces u' = g_namespaces u \<and> namespace_cnt u' = namespace_cnt u \<and> next_seq u' = Suc (next_seq u) \<and>
    settled_in disk outs (ns_ns e) (ubd_dev u) (ubd_dev u') D"
proof -
  let ?ns = "ns_ns e" and ?i = "next_seq u"
  define rb where "rb = (case read_buf u of Some b \<Rightarrow> b | None \<Rightarrow> replicate (cnt * 512) 0)"
  define s where "s = \<lparr>sq_ns_entry = e, sq_buf = rb, is_write = False, using_cmb_io = 0, is_completed = 0\<rparr>"
  define d1 where "d1 = snd (sp_cmd_read sp ?ns ?i lba cnt (ubd_dev u))"
  define u1 where "u1 = (snd (fresh_seq s (u\<lparr>read_buf := Some rb\<rparr>)))\<lparr>ubd_dev := d1\<rparr>"
  have proc: "process_ok sp disk outs" and cmd: "cmd_ok sp disk outs" and prog: "progress_ok sp outs"
    using sp(1) by (auto simp: spdk_ok_def)
  have rc: "fst (sp_cmd_read sp ?ns ?i lba cnt (ubd_dev u)) = 0" and zm: "sp_zmalloc sp (cnt * 512) (ubd_dev u)"
    using sp(2) by (simp_all add: plain_spdk_def)
  have nz: "namespace_cnt u \<noteq> 0" using u unfolding ubd_ok_def by linarith
  have d1: "disk d1 = disk (ubd_dev u)" "outs d1 = (outs (ubd_dev u))(?ns := outs (ubd_dev u) ?ns @ [(?i, CRead lba cnt)])"
    using cmd rc unfolding cmd_ok_def Let_def d1_def by blast+
  have u1: "ubd_dev u1 = d1" "seqs u1 ?i = Some s" "is_completed s = 0" "same_setup (u\<lparr>next_seq := Suc ?i\<rparr>) u1"
    by (simp_all add: u1_def fresh_seq_def s_def same_setup_def)
  let ?P = "\<lambda>D u. ?i \<in> D \<longrightarrow> read_buf u = Some (blocks (disk d1 ?ns) lba cnt)"
  have ws: "\<forall>p\<in>set (outs (ubd_dev u) ?ns). fst p < ?i \<and> (\<exists>l c d. snd p = CWrite l c d)"
    using u by (simp add: ubd_ok_def)
  have step: "?P (D \<union> cpl_seq ` set (fst (sp_process sp ?ns (ubd_dev v)))) (poll1 sp ?ns v)"
    if "poll_inv disk outs ?ns u1 D v" "?i \<notin> D" for D v
    using poll_read_buf [OF proc that(1), of "outs (ubd_dev u) ?ns" ?i lba cnt] d1 u1 ws q that(2) by simp
  have out: "?i \<in> fst ` set (outs (ubd_dev u1) ?ns)" by (simp add: u1(1) d1(2))
  obtain n where n: "?i \<in> cpl_seq ` set (fst (sp_process sp ?ns (polled sp ?ns n (ubd_dev u1))))"
    using prog out unfolding progress_ok_def by blast
  obtain D u' where w: "wait_complete sp ?ns ?i u1 = Some (Inr u')" and inv: "poll_inv disk outs ?ns u1 D u'"
    and i: "?i \<in> D" and rd: "read_buf u' = Some (blocks (disk d1 ?ns) lba cnt)"
    using wait_complete_returns [where P = ?P, OF proc u1(2,3) _ poll_inv_refl _ _ n] step by blast
  have sq: "seqs u' ?i = Some (s\<lparr>is_completed := 1\<rparr>)" using inv u1(2) i by (simp add: poll_inv_def done_upd_def)
  have "read_blocking sp lba cnt u =
      ret ((0, Some (take (cnt * 512) (blocks (disk (ubd_dev u) ?ns) lba cnt))), drop_seq ?i u')"
    using nz zm e rc w rd sq d1(1)
    by (simp add: read_blocking_def Let_def split_beta fresh_seq_def rb_def [symmetric]
        s_def [symmetric] d1_def [symmetric] u1_def)
  moreover have "settled_in disk outs ?ns (ubd_dev u) (ubd_dev u') D"
    using settled_in_read [OF _ i d1(2,1)] inv u1(1) by (simp add: poll_inv_def)
  ultimately show ?thesis
    using inv u1(4) by (intro exI [of _ "drop_seq ?i u'"]) (auto simp: drop_seq_def poll_inv_def same_setup_def)
qed


text \<open>
  \<open>written\<close>: the state after a write of \<open>data\<close> was submitted as sequence \<open>i\<close> and the queue pair was polled;
  \<open>D\<close> are the sequences that have completed since.
\<close>

abbreviation written ::
  "('d \<Rightarrow> nat \<Rightarrow> nat \<Rightarrow> byte list) \<Rightarrow> ('d \<Rightarrow> nat \<Rightarrow> (nat \<times> cmd) list) \<Rightarrow> nat \<Rightarrow> nat \<times> cmd \<Rightarrow> 'd \<Rightarrow> 'd \<Rightarrow> nat set \<Rightarrow>
     bool" where
  "written disk outs ns w d0 d D \<equiv> settled disk outs ns (outs d0 ns @ [w]) d0 d D"

lemma settled_written:
  assumes cmd: "cmd_ok sp disk outs" and rc: "fst (sp_cmd_write sp ns i lba cnt data d0) = 0"
    and s: "settled_in disk outs ns (snd (sp_cmd_write sp ns i lba cnt data d0)) d D"
  shows "written disk outs ns (i, CWrite lba cnt data) d0 d D"
proof -
  let ?d1 = "snd (sp_cmd_write sp ns i lba cnt data d0)" and ?w = "(i, CWrite lba cnt data)"
  have o1: "outs ?d1 = (outs d0)(ns := outs d0 ns @ [?w])"
    and k1: "\<And>ns' k. \<not> (ns' = ns \<and> lba \<le> k \<and> k < lba + cnt) \<Longrightarrow> disk ?d1 ns' k = disk d0 ns' k"
    using cmd rc unfolding cmd_ok_def Let_def by blast+
  have n1: "outs ?d1 ns = outs d0 ns @ [?w]" by (simp add: o1)
  have s1: "outs d = (outs ?d1)(ns := filter (\<lambda>p. fst p \<notin> D) (outs d0 ns @ [?w]))"
    and s2: "\<And>ns' k. ns' \<noteq> ns \<or> quiet (outs d0 ns @ [?w]) k \<Longrightarrow> disk d ns' k = disk ?d1 ns' k"
    using s unfolding settled_def n1 by blast+
  have "disk d ns' k = disk d0 ns' k" if "ns' \<noteq> ns \<or> quiet (outs d0 ns @ [?w]) k" for ns' k
    using s2 [OF that] k1 [of ns' k] that by (auto simp: quiet_def writes_block_def)
  moreover have "outs d = (outs d0)(ns := filter (\<lambda>p. fst p \<notin> D) (outs d0 ns @ [?w]))"
    unfolding s1 o1 by simp
  ultimately show ?thesis using s unfolding settled_def n1 by blast
qed

lemma ubd_write_ok:
  assumes sp: "spdk_ok sp disk outs" "plain_spdk sp" and u: "ubd_ok outs u" and e: "tgt_entry lba u = Some e"
  shows "\<exists>u' D. ubd_write sp buf lba cnt u = ret (Some (next_seq u), u') \<and>
    (\<exists>s. seqs u' (next_seq u) = Some s \<and> ns_ns (sq_ns_entry s) = ns_ns e \<and>
       (is_completed s \<noteq> 0 \<longleftrightarrow> next_seq u \<in> D)) \<and>
    g_namespaces u' = g_namespaces u \<and> namespace_cnt u' = namespace_cnt u \<and> next_seq u' = Suc (next_seq u) \<and>
    written disk outs (ns_ns e) (next_seq u, CWrite lba cnt (take (cnt * 512) buf)) (ubd_dev u) (ubd_dev u') D"
proof -
  let ?ns = "ns_ns e" and ?i = "next_seq u" and ?data = "take (cnt * 512) buf"
  define cmb where "cmb = (case sp_map_cmb sp (ns_ctrlr e) (ubd_dev u) of None \<Rightarrow> False | Some sz \<Rightarrow> cnt * 512 \<le> sz)"
  define s where "s = \<lparr>sq_ns_entry = e, sq_buf = ?data, is_write = True, using_cmb_io = (if cmb then 1 else 0),
                       is_completed = 0\<rparr>"
  define d1 where "d1 = snd (sp_cmd_write sp ?ns ?i lba cnt ?data (ubd_dev u))"
  define u1 where "u1 = (snd (fresh_seq s u))\<lparr>ubd_dev := d1\<rparr>"
  have proc: "process_ok sp disk outs" and cmd: "cmd_ok sp disk outs"
    using sp(1) by (auto simp: spdk_ok_def)
  have rc: "fst (sp_cmd_write sp ?ns ?i lba cnt ?data (ubd_dev u)) = 0" and zm: "sp_zmalloc sp (cnt * 512) (ubd_dev u)"
    and zns: "\<And>d. \<not> sp_is_zns sp ?ns d"
    using sp(2) by (simp_all add: plain_spdk_def)
  have nz: "namespace_cnt u \<noteq> 0" using u unfolding ubd_ok_def by linarith
  define D where "D = cpl_seq ` set (fst (sp_process sp ?ns d1))"
  have inv: "poll_inv disk outs ?ns u1 D (poll1 sp ?ns u1)"
    using poll_inv_step [OF proc poll_inv_refl [of disk outs ?ns u1]] by (simp add: D_def u1_def)
  have run: "ubd_write sp buf lba cnt u = ret (Some ?i, poll1 sp ?ns u1)"
    using nz zm zns e rc
    by (simp add: ubd_write_def Let_def split_beta fresh_seq_def cmb_def [symmetric] s_def [symmetric]
        d1_def [symmetric] process_completions_poll [OF proc])
      (simp add: u1_def fresh_seq_def s_def d1_def ret_def)
  have "written disk outs ?ns (?i, CWrite lba cnt ?data) (ubd_dev u) (ubd_dev (poll1 sp ?ns u1)) D"
    by (rule settled_written [OF cmd rc]) (use inv in \<open>simp add: poll_inv_def u1_def d1_def\<close>)
  moreover have "seqs (poll1 sp ?ns u1) ?i = Some (if ?i \<in> D then s\<lparr>is_completed := 1\<rparr> else s)"
    using inv by (simp add: poll_inv_def done_upd_def u1_def fresh_seq_def)
  ultimately show ?thesis
    using run inv
    by (intro exI [of _ "poll1 sp ?ns u1"] exI [of _ D])
      (auto simp: poll_inv_def same_setup_def u1_def fresh_seq_def s_def)
qed


lemma write_blocking_ok:
  assumes sp: "spdk_ok sp disk outs" "plain_spdk sp" and u: "ubd_ok outs u" and e: "tgt_entry lba u = Some e"
  shows "\<exists>u' D. write_blocking sp buf lba cnt u = ret (0, u') \<and> next_seq u \<in> D \<and>
    g_namespaces u' = g_namespaces u \<and> namespace_cnt u' = namespace_cnt u \<and> next_seq u' = Suc (next_seq u) \<and>
    written disk outs (ns_ns e) (next_seq u, CWrite lba cnt (take (cnt * 512) buf)) (ubd_dev u) (ubd_dev u') D"
proof -
  let ?ns = "ns_ns e" and ?i = "next_seq u" and ?w = "(next_seq u, CWrite lba cnt (take (cnt * 512) buf))"
  have proc: "process_ok sp disk outs" and cmd: "cmd_ok sp disk outs" and prog: "progress_ok sp outs"
    using sp(1) by (auto simp: spdk_ok_def)
  obtain u1 D s where u1: "ubd_write sp buf lba cnt u = ret (Some ?i, u1)" "seqs u1 ?i = Some s"
    "ns_ns (sq_ns_entry s) = ?ns" "is_completed s \<noteq> 0 \<longleftrightarrow> ?i \<in> D"
    "g_namespaces u1 = g_namespaces u" "namespace_cnt u1 = namespace_cnt u" "next_seq u1 = Suc ?i"
    "written disk outs ?ns ?w (ubd_dev u) (ubd_dev u1) D"
    using ubd_write_ok [OF sp u e, of buf cnt] by blast
  have "\<exists>u2 E. wait_complete sp ?ns ?i u1 = Some (Inr u2) \<and> poll_inv disk outs ?ns u1 E u2 \<and> ?i \<in> D \<union> E"
  proof (cases "?i \<in> D")
    case True
    then have "seq_done ?i u1" using u1(2,4) by (simp add: seq_done_def)
    then show ?thesis using wait_complete_done poll_inv_refl True by blast
  next
    case False
    then have z: "is_completed s = 0" using u1(4) by simp
    have "?w \<in> set (outs (ubd_dev u1) ?ns)" using u1(8) False by (simp add: settled_def)
    then have "?i \<in> fst ` set (outs (ubd_dev u1) ?ns)" by force
    then obtain n where n: "?i \<in> cpl_seq ` set (fst (sp_process sp ?ns (polled sp ?ns n (ubd_dev u1))))"
      using prog unfolding progress_ok_def by blast
    from wait_complete_returns [where P = "\<lambda>D u. True", OF proc u1(2) z _ poll_inv_refl _ _ n] show ?thesis by blast
  qed
  then obtain u2 E where u2: "wait_complete sp ?ns ?i u1 = Some (Inr u2)" "poll_inv disk outs ?ns u1 E u2" "?i \<in> D \<union> E"
    by blast
  define u3 where "u3 = drop_seq ?i (seq_free sp ?i u2)"
  have f: "disk (ubd_dev u3) = disk (ubd_dev u2)" "outs (ubd_dev u3) = outs (ubd_dev u2)"
    "g_namespaces u3 = g_namespaces u2" "namespace_cnt u3 = namespace_cnt u2" "next_seq u3 = next_seq u2"
    using cmd unfolding cmd_ok_def u3_def drop_seq_def seq_free_def upd_dev_def by (auto split: option.splits)
  have run: "write_blocking sp buf lba cnt u = ret (0, u3)"
    using u1(1-3) u2(1) by (simp add: write_blocking_def u3_def ret_def)
  have "written disk outs ?ns ?w (ubd_dev u) (ubd_dev u2) (D \<union> E)"
    using settled_trans [OF u1(8)] u2(2) by (simp add: poll_inv_def)
  then have "written disk outs ?ns ?w (ubd_dev u) (ubd_dev u3) (D \<union> E)"
    unfolding settled_def f .
  then show ?thesis using run u2 u1 f
    by (intro exI [of _ u3] exI [of _ "D \<union> E"]) (simp add: poll_inv_def same_setup_def)
qed

lemma blocks_block_of:
  assumes "length data = 512 * cnt" "\<And>k. lba \<le> k \<Longrightarrow> k < lba + cnt \<Longrightarrow> bs k = block_of data lba k"
  shows "blocks bs lba cnt = data"
proof -
  have "concat (map (block_of data lba) [lba..<lba + n]) = take (512 * n) data" if "n \<le> cnt" for n
    using that
  proof (induction n)
    case (Suc n)
    have "512 * Suc n = 512 * n + 512" by simp
    then have "take (512 * Suc n) data = take (512 * n) data @ take 512 (drop (512 * n) data)" by (simp only: take_add)
    then show ?case using Suc by (simp add: block_of_def)
  qed simp
  then have "blocks (block_of data lba) lba cnt = data" using assms(1) by (simp add: blocks_def)
  moreover have "map bs [lba..<lba + cnt] = map (block_of data lba) [lba..<lba + cnt]"
    using assms(2) by simp
  ultimately show ?thesis by (simp only: blocks_def)
qed


lemma ubd_ok_written:
  assumes "ubd_ok outs u" and "written disk outs ns (next_seq u, CWrite lba cnt data) (ubd_dev u) (ubd_dev u') D"
    and "g_namespaces u' = g_namespaces u" "namespace_cnt u' = namespace_cnt u" "next_seq u' = Suc (next_seq u)"
  shows "ubd_ok outs u'"
proof -
  have "outs (ubd_dev u') = (outs (ubd_dev u))(ns := filter (\<lambda>p. fst p \<notin> D) (outs (ubd_dev u) ns @ [(next_seq u, CWrite lba cnt data)]))"
    using assms(2) by (simp add: settled_def)
  then have "fst p < Suc (next_seq u) \<and> (\<exists>l c d. snd p = CWrite l c d)"
    if "p \<in> set (outs (ubd_dev u') ns')" for p ns'
    using that assms(1) unfolding ubd_ok_def by (cases "ns' = ns") (fastforce simp: less_Suc_eq split: if_splits)+
  then show ?thesis using assms(1,3-5) unfolding ubd_ok_def by metis
qed

lemma written_quiet:
  assumes "written disk outs ns (i, CWrite lba cnt data) d0 d D" "i \<in> D" "quiet (outs d0 ns) k"
  shows "quiet (outs d ns) k"
  using assms by (auto simp: settled_def quiet_def)

lemma written_block:
  assumes w: "written disk outs ns (i, CWrite lba cnt data) d0 d D" and i: "i \<in> D" and q: "quiet (outs d0 ns) k"
    and k: "lba \<le> k" "k < lba + cnt"
  shows "disk d ns k = block_of data lba k"
proof -
  have "quiet (filter (\<lambda>p. p \<noteq> (i, CWrite lba cnt data)) (outs d0 ns @ [(i, CWrite lba cnt data)])) k"
    using q by (simp add: quiet_def)
  moreover have "(i, CWrite lba cnt data) \<in> set (outs d0 ns @ [(i, CWrite lba cnt data)])" by simp
  ultimately show ?thesis using w i k unfolding settled_def by blast
qed

subsection \<open>Properties of the block device\<close>


definition demo_ubd :: "ram UserBlkDev" where
  "demo_ubd = \<lparr>ubd_dev = \<lparr>r_disk = (\<lambda>n k. replicate 512 0), r_outs = (\<lambda>n. [])\<rparr>, g_vmd = False, g_controllers = [0],
     g_namespaces = [\<lparr>ns_ctrlr = 0, ns_ns = 0, ns_qpair = True\<rparr>], namespace_cnt = 1, read_buf = None,
     seqs = (\<lambda>i. None), next_seq = 0\<rparr>"

lemma ram_plain: "plain_spdk ram_spdk"
  by (simp add: plain_spdk_def ram_spdk_def)

lemma demo_ubd_ok: "ubd_ok r_outs demo_ubd"
  by (simp add: ubd_ok_def demo_ubd_def)


text \<open>
  The blocking write never returns the failure code.  If submitting the write fails, it calls
  \<^verbatim>\<open>free\<close> through the null pointer; otherwise it returns 0, also when the device completed the write with an error.
\<close>

theorem write_blocking_never_fails:
  "(\<forall>u'. ubd_write sp buf lba cnt u = ret (None, u') \<longrightarrow> write_blocking sp buf lba cnt u = Some (Inl NullDeref)) \<and>
   (\<forall>rc u'. write_blocking sp buf lba cnt u = ret (rc, u') \<longrightarrow> rc = 0)"
  by (auto simp: write_blocking_def ret_def bindX_eq_ret split: option.splits)

theorem write_blocking_never_fails_witness:
  "write_blocking (ram_spdk\<lparr>sp_zmalloc := (\<lambda>n d. False)\<rparr>) (replicate 4096 7) 16 8 demo_ubd = Some (Inl NullDeref)"
proof -
  have "ubd_write (ram_spdk\<lparr>sp_zmalloc := (\<lambda>n d. False)\<rparr>) (replicate 4096 7) 16 8 demo_ubd = ret (None, demo_ubd)"
    by (simp add: ubd_write_def demo_ubd_def tgt_entry_def ram_spdk_def)
  then show ?thesis
    using write_blocking_never_fails [of "ram_spdk\<lparr>sp_zmalloc := (\<lambda>n d. False)\<rparr>" "replicate 4096 7" 16 8 demo_ubd]
    by blast
qed

end
