(* ===== verification/MemBWDist.thy ===== *)
theory MemBWDist
  imports Prelude
begin

text \<open>
  The access sampler of libcxlfs: membwdist.hh and membwdist.cc.  The perf ring buffer is shared with the
  kernel; a call sees it as the record \<open>sample_page\<close>, whose head the kernel wrote and whose tail the code advances.
  The loops of \<open>get_samples\<close> and \<open>get_dist\<close> are partial functions: \<open>None\<close> when they do not end.
\<close>

record sample_page =
  data_head :: nat
  data_tail :: nat
  data_offset :: nat
  data_size :: nat
  ring :: mem

record MemBWDist =
  sample_buf :: sample_page

definition BUF_SZ_PG_CNT :: nat where
  "BUF_SZ_PG_CNT = 0x100"

definition MAX_SAMPLES :: nat where
  "MAX_SAMPLES = 0x200"

definition PERF_RECORD_SAMPLE :: nat where
  "PERF_RECORD_SAMPLE = 9"

text \<open>\<^verbatim>\<open>perf_event_header\<close> is a 32-bit type, 16 bits of flags and a 16-bit size; \<^verbatim>\<open>pebs_sample_t\<close> adds two words.\<close>

definition hdr_at :: "sample_page \<Rightarrow> nat \<Rightarrow> addr" where
  "hdr_at b tail = data_offset b + tail mod data_size b"

definition hdr_type :: "sample_page \<Rightarrow> nat \<Rightarrow> nat" where
  "hdr_type b tail = ldn (ring b) (hdr_at b tail) 4"

definition hdr_size :: "sample_page \<Rightarrow> nat \<Rightarrow> nat" where
  "hdr_size b tail = ldn (ring b) (hdr_at b tail + 6) 2"

definition sample_ip :: "sample_page \<Rightarrow> nat \<Rightarrow> nat" where
  "sample_ip b tail = ldn (ring b) (hdr_at b tail + 8) 8"

definition sample_addr :: "sample_page \<Rightarrow> nat \<Rightarrow> nat" where
  "sample_addr b tail = ldn (ring b) (hdr_at b tail + 16) 8"

definition start_sampling ::
  "(nat \<Rightarrow> int) \<Rightarrow> (int \<Rightarrow> nat \<Rightarrow> sample_page option) \<Rightarrow> nat \<Rightarrow> nat \<Rightarrow> MemBWDist \<Rightarrow> int \<times> MemBWDist" where
  "start_sampling perf_open map_ring pagesize sampling_freq mb =
     (let fd = perf_open sampling_freq
      in if fd = -1 then (fd, mb)
         else case map_ring fd ((BUF_SZ_PG_CNT + 1) * pagesize) of
             None \<Rightarrow> (-1, mb)
           | Some b \<Rightarrow> (0, mb\<lparr>sample_buf := b\<rparr>))"

partial_function (option) samples_loop ::
  "sample_page \<Rightarrow> (nat \<times> nat) list \<Rightarrow> ((nat \<times> nat) list \<times> sample_page) option" where
  "samples_loop b acc =
     (if data_tail b = data_head b then Some (acc, b)
      else if hdr_type b (data_tail b) = PERF_RECORD_SAMPLE
      then samples_loop (b\<lparr>data_tail := uadd64 (data_tail b) (hdr_size b (data_tail b))\<rparr>)
             (acc @ [(sample_ip b (data_tail b), sample_addr b (data_tail b))])
      else samples_loop b acc)"

definition get_samples :: "MemBWDist \<Rightarrow> ((nat \<times> nat) list \<times> MemBWDist) option" where
  "get_samples mb =
     map_option (\<lambda>(r, b). (r, mb\<lparr>sample_buf := b\<rparr>)) (samples_loop (sample_buf mb) [])"

partial_function (option) dist_loop ::
  "nat \<Rightarrow> nat \<Rightarrow> nat \<Rightarrow> sample_page \<Rightarrow> nat \<Rightarrow> nat list \<Rightarrow> (nat list \<times> sample_page) option" where
  "dist_loop bits start_pg end_pg b sample_cnt result =
     (if data_tail b = data_head b then Some (result, b)
      else if hdr_type b (data_tail b) = PERF_RECORD_SAMPLE
      then let addr_pg = sample_addr b (data_tail b) div 2 ^ bits;
               result' = (if start_pg \<le> addr_pg \<and> addr_pg < end_pg then List.insert (addr_pg - start_pg) result
                          else result)
           in if Suc sample_cnt > MAX_SAMPLES then Some (result', b\<lparr>data_tail := data_head b\<rparr>)
              else dist_loop bits start_pg end_pg
                     (b\<lparr>data_tail := uadd64 (data_tail b) (hdr_size b (data_tail b))\<rparr>) (Suc sample_cnt) result'
      else dist_loop bits start_pg end_pg b sample_cnt result)"

definition get_dist :: "nat \<Rightarrow> nat \<Rightarrow> nat \<Rightarrow> MemBWDist \<Rightarrow> (nat list \<times> MemBWDist) option" where
  "get_dist pagesize start end' mb =
     (let bits = flog2 pagesize
      in map_option (\<lambda>(r, b). (r, mb\<lparr>sample_buf := b\<rparr>))
           (dist_loop bits (start div 2 ^ bits) (end' div 2 ^ bits) (sample_buf mb) 0 []))"

subsection \<open>Termination of the loops\<close>

definition next_rec :: "sample_page \<Rightarrow> sample_page" where
  "next_rec b = b\<lparr>data_tail := uadd64 (data_tail b) (hdr_size b (data_tail b))\<rparr>"

definition at_sample :: "sample_page \<Rightarrow> bool" where
  "at_sample b \<longleftrightarrow> data_tail b = data_head b \<or> hdr_type b (data_tail b) = PERF_RECORD_SAMPLE"

fun samples_ahead :: "nat \<Rightarrow> sample_page \<Rightarrow> bool" where
  "samples_ahead 0 b \<longleftrightarrow> at_sample b"
| "samples_ahead (Suc n) b \<longleftrightarrow> data_tail b = data_head b \<or> (at_sample b \<and> samples_ahead n (next_rec b))"

definition pg_range_ok :: "nat \<Rightarrow> nat \<Rightarrow> nat list \<Rightarrow> bool" where
  "pg_range_ok s e r \<longleftrightarrow> distinct r \<and> (\<forall>p\<in>set r. p < e - s)"

lemma dist_loop_returns:
  assumes "samples_ahead n b" and "c + n = MAX_SAMPLES" and "pg_range_ok s e r"
  shows "\<exists>r' b'. dist_loop bits s e b c r = Some (r', b') \<and> data_tail b' = data_head b' \<and>
    data_head b' = data_head b \<and> pg_range_ok s e r'"
  using assms
proof (induction n arbitrary: b c r)
  case 0
  have "at_sample b" using "0.prems"(1) by simp
  then show ?case using "0.prems"(2,3)
    by (subst dist_loop.simps) (auto simp: at_sample_def Let_def pg_range_ok_def)
next
  case (Suc n)
  show ?case
  proof (cases "data_tail b = data_head b")
    case True
    then show ?thesis using Suc.prems(3) by (subst dist_loop.simps) auto
  next
    case False
    have ty: "hdr_type b (data_tail b) = PERF_RECORD_SAMPLE"
      using Suc.prems(1) False by (simp add: at_sample_def)
    define pg where "pg = sample_addr b (data_tail b) div 2 ^ bits"
    define r' where "r' = (if s \<le> pg \<and> pg < e then List.insert (pg - s) r else r)"
    have r': "pg_range_ok s e r'" using Suc.prems(3) by (auto simp: r'_def pg_range_ok_def)
    have st: "dist_loop bits s e b c r = dist_loop bits s e (next_rec b) (Suc c) r'"
      using False ty Suc.prems(2)
      by (subst dist_loop.simps) (simp add: Let_def pg_def [symmetric] r'_def [symmetric] next_rec_def)
    have "samples_ahead n (next_rec b)" using Suc.prems(1) False by simp
    from Suc.IH [OF this _ r', of "Suc c"] Suc.prems(2) show ?thesis
      unfolding st by (simp add: next_rec_def)
  qed
qed

lemma dist_loop_stuck:
  assumes "data_tail b \<noteq> data_head b" "hdr_type b (data_tail b) \<noteq> PERF_RECORD_SAMPLE"
  shows "dist_loop bits s e b c r = None"
proof (rule ccontr)
  assume "dist_loop bits s e b c r \<noteq> None"
  then obtain y where "dist_loop bits s e b c r = Some y" by blast
  then have "\<not> (data_tail b \<noteq> data_head b \<and> hdr_type b (data_tail b) \<noteq> PERF_RECORD_SAMPLE)"
    by (rule dist_loop.raw_induct [rotated]) (fastforce split: if_splits)
  then show False using assms by blast
qed

lemma samples_loop_stuck:
  assumes "data_tail b \<noteq> data_head b" "hdr_type b (data_tail b) \<noteq> PERF_RECORD_SAMPLE"
  shows "samples_loop b acc = None"
proof (rule ccontr)
  assume "samples_loop b acc \<noteq> None"
  then obtain y where "samples_loop b acc = Some y" by blast
  then have "\<not> (data_tail b \<noteq> data_head b \<and> hdr_type b (data_tail b) \<noteq> PERF_RECORD_SAMPLE)"
    by (rule samples_loop.raw_induct [rotated]) (fastforce split: if_splits)
  then show False using assms by blast
qed

text \<open>
  C22: \<open>get_dist\<close> returns as long as it only meets sample records in its first \<open>MAX_SAMPLES\<close> steps:
  it consumes the whole buffer, and the pages it reports are distinct and inside the range it was asked for.
\<close>

theorem get_dist_returns:
  assumes "samples_ahead MAX_SAMPLES (sample_buf mb)"
  shows "\<exists>r mb'. get_dist pagesize s e mb = Some (r, mb') \<and>
    data_tail (sample_buf mb') = data_head (sample_buf mb') \<and>
    data_head (sample_buf mb') = data_head (sample_buf mb) \<and>
    pg_range_ok (s div 2 ^ flog2 pagesize) (e div 2 ^ flog2 pagesize) r"
proof -
  have "pg_range_ok (s div 2 ^ flog2 pagesize) (e div 2 ^ flog2 pagesize) []"
    by (simp add: pg_range_ok_def)
  from dist_loop_returns [OF assms _ this, where c = 0 and bits = "flog2 pagesize"]
  show ?thesis by (auto simp: get_dist_def Let_def)
qed

definition demo_ring :: sample_page where
  "demo_ring = \<lparr>data_head = 24, data_tail = 0, data_offset = 4096, data_size = 2 ^ 20,
     ring = wr (wr (wr (\<lambda>x. 0) 4112 (le_bytes 8 0x2003)) 4102 (le_bytes 2 24)) 4096 (le_bytes 4 9)\<rparr>"

lemma demo_ring_samples: "samples_ahead MAX_SAMPLES demo_ring"
proof -
  have n: "MAX_SAMPLES = Suc (Suc 510)" by (simp add: MAX_SAMPLES_def)
  have "at_sample demo_ring"
    by (simp add: at_sample_def demo_ring_def hdr_type_def hdr_at_def PERF_RECORD_SAMPLE_def)
  moreover have "data_tail (next_rec demo_ring) = data_head (next_rec demo_ring)"
    by (simp add: next_rec_def demo_ring_def hdr_size_def hdr_at_def ldn_wr_disj uadd64_def)
  ultimately show ?thesis unfolding n samples_ahead.simps by blast
qed

theorem get_dist_returns_witness:
  "\<exists>r mb'. get_dist 4096 0x1000 0x9000 \<lparr>sample_buf = demo_ring\<rparr> = Some (r, mb') \<and>
    data_tail (sample_buf mb') = data_head (sample_buf mb') \<and>
    data_head (sample_buf mb') = data_head (sample_buf \<lparr>sample_buf = demo_ring\<rparr>) \<and>
    pg_range_ok (0x1000 div 2 ^ flog2 4096) (0x9000 div 2 ^ flog2 4096) r"
  by (rule get_dist_returns) (simp add: demo_ring_samples)

text \<open>
  C34: a record of any other type at the tail stops both loops for good, since only sample records
  advance the tail: \<open>get_dist\<close> and \<open>get_samples\<close> do not return.
\<close>

theorem sampler_stuck:
  assumes "data_tail (sample_buf mb) \<noteq> data_head (sample_buf mb)"
    and "hdr_type (sample_buf mb) (data_tail (sample_buf mb)) \<noteq> PERF_RECORD_SAMPLE"
  shows "get_dist pagesize s e mb = None \<and> get_samples mb = None"
  using assms by (simp add: get_dist_def get_samples_def dist_loop_stuck samples_loop_stuck)

theorem sampler_stuck_witness:
  "get_dist 4096 0 0x1000 \<lparr>sample_buf = demo_ring\<lparr>data_head := 64, data_tail := 32\<rparr>\<rparr> = None \<and>
   get_samples \<lparr>sample_buf = demo_ring\<lparr>data_head := 64, data_tail := 32\<rparr>\<rparr> = None"
proof (rule sampler_stuck)
  have "ldn (\<lambda>x. 0) 4128 4 = 0" by (simp add: ldn_def rd_def numeral_eq_Suc)
  then show "hdr_type (sample_buf \<lparr>sample_buf = demo_ring\<lparr>data_head := 64, data_tail := 32\<rparr>\<rparr>)
      (data_tail (sample_buf \<lparr>sample_buf = demo_ring\<lparr>data_head := 64, data_tail := 32\<rparr>\<rparr>)) \<noteq> PERF_RECORD_SAMPLE"
    by (simp add: demo_ring_def hdr_type_def hdr_at_def PERF_RECORD_SAMPLE_def ldn_wr_disj)
qed simp

end
