(* ===== verification/NumaBinder.thy ===== *)
theory NumaBinder
  imports Prelude
begin

text \<open>
  The CPU and NUMA placement helper of libcxlfs: numabinder.hh and numabinder.cc.  What the operating system
  reports (processors, nodes, the files under /proc, the result of setting the affinity and of moving
  pages) is the record \<open>numa_env\<close>.  A status file is the list of lines that fgets returns.
\<close>

record numa_env =
  ne_nproc_conf :: nat
  ne_nproc_onln :: nat
  ne_node_of_cpu :: "nat \<Rightarrow> int"
  ne_getcpu :: nat
  ne_proc :: "(string \<times> string list option) list option"
  ne_setaffinity :: "nat \<Rightarrow> bool"
  ne_move_pages :: "nat \<Rightarrow> addr \<Rightarrow> int \<Rightarrow> int"

record NumaBinder =
  cpu_aff :: int

definition get_numa_map :: "numa_env \<Rightarrow> (nat \<times> int) list" where
  "get_numa_map ne = map (\<lambda>c. (c, ne_node_of_cpu ne c)) [0..<ne_nproc_conf ne]"

subsection \<open>Scanning /proc\<close>

text \<open>\<^verbatim>\<open>sscanf\<close> with \<^verbatim>\<open>%u\<close>: blanks, an optional plus sign, digits, stored in 32 bits.\<close>

definition scan_u :: "string \<Rightarrow> nat option" where
  "scan_u s =
     (let s1 = dropWhile is_space_char s;
          s2 = (case s1 of c # r \<Rightarrow> if c = CHR ''+'' then r else s1 | [] \<Rightarrow> []);
          ds = takeWhile is_digit_char s2
      in if ds = [] then None
         else Some (if dec_val ds < 2 ^ 64 then dec_val ds mod 2 ^ 32 else 2 ^ 32 - 1))"

definition vmsize_tag :: string where
  "vmsize_tag = ''VmSize:'' @ [CHR 0x09]"

definition cpus_tag :: string where
  "cpus_tag = ''Cpus_allowed_list:'' @ [CHR 0x09]"

definition has_prefix :: "string \<Rightarrow> string \<Rightarrow> bool" where
  "has_prefix p s \<longleftrightarrow> take (length p) s = p"

fun scan_status :: "bool \<Rightarrow> string list \<Rightarrow> nat option" where
  "scan_status has_vmsize [] = None"
| "scan_status has_vmsize (l # ls) =
     (let hv = has_vmsize \<or> has_prefix vmsize_tag l
      in if has_prefix cpus_tag l \<and> CHR ''-'' \<notin> set l \<and> CHR '','' \<notin> set l
         then case scan_u (drop 19 l) of
             None \<Rightarrow> scan_status hv ls
           | Some hval \<Rightarrow> if hval < 4096 \<and> hv then Some hval else scan_status hv ls
         else scan_status hv ls)"

fun scan_proc :: "(string \<times> string list option) list \<Rightarrow> nat list" where
  "scan_proc [] = []"
| "scan_proc ((name, f) # des) =
     (if name = [] \<or> \<not> is_digit_char (hd name) then scan_proc des
      else case f of
          None \<Rightarrow> scan_proc des
        | Some ls \<Rightarrow> (case scan_status False ls of None \<Rightarrow> scan_proc des | Some h \<Rightarrow> h # scan_proc des))"

subsection \<open>Binding\<close>

fun first_free :: "nat list \<Rightarrow> nat \<Rightarrow> nat \<Rightarrow> nat" where
  "first_free used i 0 = i"
| "first_free used i (Suc k) = (if i \<notin> set used then i else first_free used (Suc i) k)"

text \<open>
  \<open>cpu_to_bind\<close> is \<open>None\<close> for the default argument -1.  The array \<^verbatim>\<open>cpu_used\<close> has 4096 elements.
\<close>

definition bind_to_free_cpu :: "numa_env \<Rightarrow> nat option \<Rightarrow> NumaBinder \<Rightarrow> (int \<times> NumaBinder) res" where
  "bind_to_free_cpu ne cpu_to_bind nb =
     (if ne_nproc_onln ne < 2 then Inr (-1, nb)
      else case ne_proc ne of None \<Rightarrow> Inr (-1, nb) | Some des \<Rightarrow>
        let used = scan_proc des;
            finish = (\<lambda>i. if i = ne_nproc_onln ne then Inr (-1, nb)
                          else let nb' = nb\<lparr>cpu_aff := int i\<rparr>
                               in if ne_setaffinity ne i then Inr (int i, nb') else Inr (-1, nb'))
        in case cpu_to_bind of
            Some c \<Rightarrow>
              if ne_nproc_onln ne \<le> c then Inr (-1, nb)
              else guardR (c < 4096) OutOfBounds (if c \<in> set used then Inr (-1, nb) else finish c)
          | None \<Rightarrow>
              let i = first_free used 0 (ne_nproc_onln ne)
              in guardR (i < 4096 \<or> i = ne_nproc_onln ne \<and> i \<le> 4096) OutOfBounds (finish i))"

fun bind_loop :: "numa_env \<Rightarrow> int \<Rightarrow> (nat \<times> int) list \<Rightarrow> NumaBinder \<Rightarrow> (bool \<times> NumaBinder) res" where
  "bind_loop ne tgt [] nb = Inr (False, nb)"
| "bind_loop ne tgt ((cpuid, nodeid) # m) nb =
     (if nodeid = tgt
      then bindR (bind_to_free_cpu ne (Some cpuid) nb)
             (\<lambda>(r, nb'). if r = int cpuid then Inr (True, nb') else bind_loop ne tgt m nb')
      else bind_loop ne tgt m nb)"

definition bind_to_node :: "numa_env \<Rightarrow> int \<Rightarrow> NumaBinder \<Rightarrow> (int \<times> NumaBinder) res" where
  "bind_to_node ne tgt_node nb =
     bindR (bind_loop ne tgt_node (get_numa_map ne) nb)
       (\<lambda>(ok, nb'). Inr (if ok then tgt_node else -1, nb'))"

definition get_cur_numa_node :: "numa_env \<Rightarrow> int" where
  "get_cur_numa_node ne = ne_node_of_cpu ne (ne_getcpu ne)"

text \<open>
  \<^verbatim>\<open>numa_move_pages\<close> gets the page count of the range and arrays of one element; \<open>ne_move_pages\<close> is the status
  it stores in the first one.
\<close>

definition move_range :: "numa_env \<Rightarrow> addr \<Rightarrow> nat \<Rightarrow> int \<Rightarrow> int" where
  "move_range ne a len dest_node = ne_move_pages ne (len div 4096) a dest_node"

subsection \<open>Correctness\<close>

lemma bind_to_free_cpu_bound:
  assumes "bind_to_free_cpu ne (Some c) nb = Inr (r, nb')" and "r = int c"
  shows "cpu_aff nb' = int c" and "c < ne_nproc_onln ne" and "ne_setaffinity ne c"
    and "\<exists>des. ne_proc ne = Some des \<and> c \<notin> set (scan_proc des)"
  using assms by (auto simp: bind_to_free_cpu_def guardR_def Let_def split: if_splits option.splits)

lemma bind_loop_bound:
  assumes "bind_loop ne tgt m nb = Inr (True, nb')" and "\<And>c n. (c, n) \<in> set m \<Longrightarrow> n = ne_node_of_cpu ne c"
  shows "\<exists>c des. cpu_aff nb' = int c \<and> ne_node_of_cpu ne c = tgt \<and> c < ne_nproc_onln ne \<and>
    ne_setaffinity ne c \<and> ne_proc ne = Some des \<and> c \<notin> set (scan_proc des)"
  using assms
proof (induction ne tgt m nb rule: bind_loop.induct)
  case (1 ne tgt nb)
  then show ?case by simp
next
  case (2 ne tgt c n m nb)
  have nd: "n = ne_node_of_cpu ne c" using 2(4) by simp
  show ?case
  proof (cases "n = tgt")
    case True
    then obtain r nb1 where b: "bind_to_free_cpu ne (Some c) nb = Inr (r, nb1)"
      using 2(3) by (auto simp: bindR_eq_Inr)
    show ?thesis
    proof (cases "r = int c")
      case True
      then have "nb1 = nb'" using 2(3) \<open>n = tgt\<close> b by simp
      then show ?thesis using bind_to_free_cpu_bound [OF b True] nd \<open>n = tgt\<close> by blast
    next
      case False
      then show ?thesis using 2(3) \<open>n = tgt\<close> b 2(1) [OF \<open>n = tgt\<close> False] 2(4) by auto
    qed
  next
    case False
    then show ?thesis using 2 by auto
  qed
qed

text \<open>
  When \<open>bind_to_node\<close> reports the node it was asked for (and not the failure code), the recorded CPU
  belongs to that node, is online, was not claimed by any process in /proc, and its affinity was set.
\<close>

theorem bind_to_node_sound:
  assumes "bind_to_node ne tgt nb = Inr (tgt, nb')" and "tgt \<noteq> -1"
  shows "\<exists>c des. cpu_aff nb' = int c \<and> ne_node_of_cpu ne c = tgt \<and> c < ne_nproc_onln ne \<and>
    ne_setaffinity ne c \<and> ne_proc ne = Some des \<and> c \<notin> set (scan_proc des)"
proof -
  obtain ok where "bind_loop ne tgt (get_numa_map ne) nb = Inr (ok, nb')"
    "(if ok then tgt else -1) = tgt"
    using assms by (auto simp: bind_to_node_def bindR_eq_Inr)
  then have "bind_loop ne tgt (get_numa_map ne) nb = Inr (True, nb')" using assms(2) by (auto split: if_splits)
  then show ?thesis by (rule bind_loop_bound) (auto simp: get_numa_map_def)
qed

definition demo_numa :: numa_env where
  "demo_numa = \<lparr>ne_nproc_conf = 4, ne_nproc_onln = 4, ne_node_of_cpu = (\<lambda>c. if c < 2 then 0 else 1), ne_getcpu = 0,
     ne_proc = Some [(''1'', Some [vmsize_tag @ ''9'', cpus_tag @ ''2'']), (''self'', None)],
     ne_setaffinity = (\<lambda>c. True), ne_move_pages = (\<lambda>n p d. d)\<rparr>"

theorem bind_to_node_sound_witness:
  "\<exists>c des. cpu_aff \<lparr>cpu_aff = 3\<rparr> = int c \<and> ne_node_of_cpu demo_numa c = 1 \<and> c < ne_nproc_onln demo_numa \<and>
    ne_setaffinity demo_numa c \<and> ne_proc demo_numa = Some des \<and> c \<notin> set (scan_proc des)"
  by (rule bind_to_node_sound [where nb = "\<lparr>cpu_aff = -1\<rparr>"])
    (simp_all add: demo_numa_def bind_to_node_def get_numa_map_def upt_rec bind_to_free_cpu_def
      vmsize_tag_def cpus_tag_def has_prefix_def scan_u_def is_digit_char_def is_space_char_def dec_val_def Let_def)

end
