(* ===== verification/Controller.thy ===== *)
theory Controller
  imports BlkDev MemBWDist NumaBinder
begin

text \<open>
  The page cache of libcxlfs: controller.hh, controller.cc, pfmonitor.hh and pfmonitor.cc.  A region of
  anonymous memory stands for a larger block device: a page that is not mapped is inaccessible, the
  fault handler reads it from the device, and when the cache is full it writes another page back first.

  The variables of file scope in controller.cc (the random seed, the last access distribution, its age
  and the age limit) are fields of the record, and so are the contents of the region and the protection of
  its pages, which the operating system keeps.  What the operating system answers is the record \<open>cenv\<close>.
  The hash map \<open>mapped_pages\<close> is the list of its keys in iteration order; nothing below depends on the order.
\<close>

subsection \<open>State\<close>

record PFMonitor =
  pf_fd :: int
  tgt_node :: int
  pfm_start :: addr
  pfm_len :: nat
  pfm_cb :: bool

record cenv =
  ce_numa :: numa_env
  ce_pagesize :: nat
  ce_remote_node :: "int option"
  ce_mprotect :: "addr \<Rightarrow> nat \<Rightarrow> bool"
  ce_mmap :: "addr \<Rightarrow> nat \<Rightarrow> mem \<Rightarrow> (addr \<times> mem) option"
  ce_userfaultfd :: int
  ce_uffd_ioctl :: int
  ce_uffd_api_ok :: bool
  ce_sigaction :: int
  ce_pthread_create :: int
  ce_perf_open :: "nat \<Rightarrow> int"
  ce_map_ring :: "int \<Rightarrow> nat \<Rightarrow> sample_page option"
  ce_rand :: nat
  ce_clk_ns :: nat
  ce_garbage :: "nat \<Rightarrow> byte list"

record 'd Controller =
  faults :: nat
  remote_node :: int
  max_active_pg_cnt :: nat
  shm_pg_cnt :: nat
  ubd :: "'d UserBlkDev"
  pfm :: PFMonitor
  mbd :: MemBWDist
  nbd :: NumaBinder
  mbd_dist_sz :: "nat list"
  page_size :: nat
  shm_size :: nat
  mapped_pages :: "nat list"
  ubd_wr_cq :: "nat list"
  used_pages :: nat
  shm_start :: addr
  monitor_thread_running :: bool
  g_seed :: "32 word"
  dist :: "nat list"
  dist_age :: nat
  MAX_DIST_AGE :: nat
  shm_mem :: mem
  page_rw :: "nat \<Rightarrow> bool"

definition MAX_MAPPED_PG_LOOKUP :: nat where
  "MAX_MAPPED_PG_LOOKUP = 0x100"

subsection \<open>The fault monitor\<close>

definition pfm_error :: int where
  "pfm_error = -1"

definition get_pf_fd :: "cenv \<Rightarrow> int" where
  "get_pf_fd ce =
     (if ce_userfaultfd ce = -1 then pfm_error
      else if ce_uffd_ioctl ce \<noteq> 0 then pfm_error
      else if \<not> ce_uffd_api_ok ce then pfm_error
      else ce_userfaultfd ce)"

definition pfm_init :: "cenv \<Rightarrow> int \<Rightarrow> PFMonitor \<Rightarrow> int \<times> PFMonitor" where
  "pfm_init ce node p = (let p' = p\<lparr>pf_fd := get_pf_fd ce, tgt_node := node\<rparr> in (pf_fd p', p'))"

definition monitor_fd_blocking :: "cenv \<Rightarrow> PFMonitor \<Rightarrow> int \<times> PFMonitor" where
  "monitor_fd_blocking ce p = (ce_sigaction ce, p\<lparr>pfm_cb := True\<rparr>)"

definition pfm_monitor :: "cenv \<Rightarrow> PFMonitor \<Rightarrow> int \<times> PFMonitor" where
  "pfm_monitor ce p = monitor_fd_blocking ce p"

definition register_range :: "addr \<Rightarrow> nat \<Rightarrow> PFMonitor \<Rightarrow> int \<times> PFMonitor" where
  "register_range start len p = (0, p\<lparr>pfm_start := start, pfm_len := len\<rparr>)"

subsection \<open>Accessors and random numbers\<close>

definition get_shm :: "'d Controller \<Rightarrow> addr" where
  "get_shm c = shm_start c"

definition get_shm_len :: "'d Controller \<Rightarrow> nat" where
  "get_shm_len c = shm_pg_cnt c * 2 ^ 12 mod 2 ^ 64"

definition get_shm_end :: "'d Controller \<Rightarrow> addr" where
  "get_shm_end c = shm_start c + shm_pg_cnt c * 2 ^ 12"

definition fast_rand :: "32 word \<Rightarrow> nat \<times> 32 word" where
  "fast_rand seed =
     (let s = 214013 * seed + 2531011 in (unat (and (drop_bit 16 s) 0x7FFF), s))"

definition get_available_page :: "'d Controller \<Rightarrow> (addr \<times> 'd Controller) res" where
  "get_available_page c =
     guardR (shm_pg_cnt c \<noteq> 0) DivByZero
       (let (r, s) = fast_rand (g_seed c); page_idx = r mod shm_pg_cnt c
        in Inr (shm_start c + page_idx * 2 ^ 12, c\<lparr>g_seed := s\<rparr>))"

subsection \<open>Eviction\<close>

definition refresh_dist :: "cenv \<Rightarrow> 'd Controller \<Rightarrow> 'd Controller run" where
  "refresh_dist ce c =
     (if dist_age c = MAX_DIST_AGE c
      then case get_dist (ce_pagesize ce) (get_shm c) (get_shm_end c) (mbd c) of
          None \<Rightarrow> None
        | Some (d, mb) \<Rightarrow>
            ret (c\<lparr>dist := d, mbd := mb,
                   MAX_DIST_AGE := (if ce_clk_ns ce div 1024 > 1
                                    then MAX_DIST_AGE c * (ce_clk_ns ce div 1024) mod 2 ^ 64 else MAX_DIST_AGE c),
                   dist_age := 0\<rparr>)
      else ret (c\<lparr>dist_age := uadd64 (dist_age c) 1\<rparr>))"

fun evict_scan :: "nat list \<Rightarrow> nat \<Rightarrow> nat option \<Rightarrow> nat list \<Rightarrow> nat option" where
  "evict_scan d k target [] = target"
| "evict_scan d k target (pg # pgs) =
     (let target' = (if pg \<notin> set d then Some pg else target)
      in if k > MAX_MAPPED_PG_LOOKUP then target' else evict_scan d (Suc k) target' pgs)"

definition evict_target :: "cenv \<Rightarrow> 'd Controller \<Rightarrow> nat res" where
  "evict_target ce c =
     (case evict_scan (dist c) 0 None (mapped_pages c) of
        Some pg \<Rightarrow> Inr pg
      | None \<Rightarrow> guardR (mapped_pages c \<noteq> []) DivByZero
                  (Inr (mapped_pages c ! (ce_rand ce mod length (mapped_pages c)))))"

fun cq_sweep :: "'d spdk \<Rightarrow> nat \<Rightarrow> 'd UserBlkDev \<Rightarrow> nat list \<Rightarrow> 'd UserBlkDev \<times> nat list" where
  "cq_sweep sp 0 u cq = (u, cq)"
| "cq_sweep sp (Suc k) u cq =
     (let i = cq ! Suc k
      in if seq_done i u
         then cq_sweep sp k (drop_seq i (seq_free sp i u)) (take (Suc k) cq @ drop (Suc (Suc k)) cq)
         else cq_sweep sp k u cq)"

definition write_back_page :: "'d spdk \<Rightarrow> cenv \<Rightarrow> 'd Controller \<Rightarrow> (int \<times> 'd Controller) run" where
  "write_back_page sp ce c =
     bindX (Some (evict_target ce c)) (\<lambda>target_page_idx.
     let target_page = shm_start c + target_page_idx * 2 ^ 12
     in bindX (ubd_write sp (rd (shm_mem c) target_page (page_size c div 512 * 512)) (target_page_idx * 8)
                 (page_size c div 512) (ubd c)) (\<lambda>(sq, u).
     case sq of
       None \<Rightarrow> ret (-1, c\<lparr>ubd := u\<rparr>)
     | Some i \<Rightarrow>
         let cq = ubd_wr_cq c @ [i]; (u', cq') = cq_sweep sp (length cq - 1) u cq
         in guardX (ce_mprotect ce target_page (page_size c)) ExitFailure
              (ret (0, c\<lparr>ubd := u', ubd_wr_cq := cq', page_rw := (page_rw c)(target_page div 4096 := False),
                         mapped_pages := removeAll target_page_idx (mapped_pages c),
                         used_pages := usub64 (used_pages c) 1\<rparr>))))"

definition evict_a_page :: "'d spdk \<Rightarrow> cenv \<Rightarrow> 'd Controller \<Rightarrow> (int \<times> 'd Controller) run" where
  "evict_a_page sp ce c =
     bindX (refresh_dist ce c)
       (\<lambda>c1. write_back_page sp ce (c1\<lparr>mbd_dist_sz := mbd_dist_sz c1 @ [length (dist c1)]\<rparr>))"

subsection \<open>Page faults\<close>

definition map_page_from_blkdev :: "'d spdk \<Rightarrow> cenv \<Rightarrow> addr \<Rightarrow> 'd Controller \<Rightarrow> (byte list \<times> 'd Controller) run" where
  "map_page_from_blkdev sp ce pf_addr c =
     (let pf = pf_addr div 2 ^ 12 * 2 ^ 12;
          addr_off = usub64 pf (shm_start c);
          start_lba = addr_off div 2 ^ 12 * 8
      in bindX (read_blocking sp start_lba 8 (ubd c)) (\<lambda>((rc, data), u).
           ret (case data of Some b \<Rightarrow> b | None \<Rightarrow> ce_garbage ce (page_size c),
                c\<lparr>ubd := u, mapped_pages := List.insert (usub64 pf (get_shm c) div 2 ^ 12) (mapped_pages c)\<rparr>)))"

definition notify_page_fault :: "'d spdk \<Rightarrow> cenv \<Rightarrow> addr \<Rightarrow> 'd Controller \<Rightarrow> (byte list \<times> 'd Controller) run" where
  "notify_page_fault sp ce a c =
     guardX (used_pages c \<le> max_active_pg_cnt c) AssertFailed
       (bindX (if used_pages c = max_active_pg_cnt c then evict_a_page sp ce c else ret (0, c)) (\<lambda>(rc, c1).
          map_page_from_blkdev sp ce a
            (c1\<lparr>faults := Suc (faults c1), used_pages := uadd64 (used_pages c1) 1\<rparr>)))"

definition handler :: "'d spdk \<Rightarrow> cenv \<Rightarrow> addr \<Rightarrow> 'd Controller \<Rightarrow> 'd Controller run" where
  "handler sp ce place c =
     (if pfm_start (pfm c) \<le> place \<and> place < pfm_start (pfm c) + pfm_len (pfm c)
      then let page_aligned = place div 4096 * 4096
           in bindX (notify_page_fault sp ce page_aligned c) (\<lambda>(src, c1).
                guardX (ce_mprotect ce page_aligned 0x1000) ExitFailure
                  (ret (c1\<lparr>page_rw := (page_rw c1)(page_aligned div 4096 := True),
                           shm_mem := wr (shm_mem c1) page_aligned (take 0x1000 src)\<rparr>)))
      else Some (Inl ExitFailure))"

definition monitor_thread :: "cenv \<Rightarrow> 'd Controller \<Rightarrow> 'd Controller res" where
  "monitor_thread ce c =
     bindR (bind_to_node (ce_numa ce) (remote_node c) (nbd c)) (\<lambda>(r, nb).
       let (rc, p) = pfm_monitor ce (pfm c)
       in if rc = -1 then Inl ExitFailure else Inr (c\<lparr>nbd := nb, pfm := p\<rparr>))"

definition monitor_thread_wrapper :: "cenv \<Rightarrow> 'd Controller \<Rightarrow> 'd Controller res" where
  "monitor_thread_wrapper ce c = monitor_thread ce c"

subsection \<open>Direct access, initialisation and flushing\<close>

definition write_to_ubd :: "'d spdk \<Rightarrow> byte list \<Rightarrow> addr \<Rightarrow> 'd Controller \<Rightarrow> 'd Controller run" where
  "write_to_ubd sp buf a c =
     (let start_lba = usub64 a (shm_start c) div 2 ^ 12 * 8
      in bindX (write_blocking sp buf start_lba 8 (ubd c)) (\<lambda>(rc, u). ret (c\<lparr>ubd := u\<rparr>)))"

definition read_from_ubd :: "'d spdk \<Rightarrow> addr \<Rightarrow> 'd Controller \<Rightarrow> (byte list option \<times> 'd Controller) run" where
  "read_from_ubd sp a c =
     (let start_lba = usub64 a (shm_start c) div 2 ^ 12 * 8
      in bindX (read_blocking sp start_lba 8 (ubd c)) (\<lambda>((rc, data), u). ret (data, c\<lparr>ubd := u\<rparr>)))"

definition protect_all :: "addr \<Rightarrow> nat \<Rightarrow> (nat \<Rightarrow> bool) \<Rightarrow> nat \<Rightarrow> bool" where
  "protect_all a len p = (\<lambda>k. if a \<le> k * 4096 \<and> k * 4096 < a + len then False else p k)"

definition start_monitor :: "cenv \<Rightarrow> 'd Controller \<Rightarrow> (int \<times> 'd Controller) res" where
  "start_monitor ce c =
     (if \<not> monitor_thread_running c
      then if ce_pthread_create ce = -1 then Inr (-1, c)
           else bindR (monitor_thread_wrapper ce c) (\<lambda>c'. Inr (0, c'\<lparr>monitor_thread_running := True\<rparr>))
      else Inr (0, c))"

definition arm_region :: "cenv \<Rightarrow> addr \<Rightarrow> 'd Controller \<Rightarrow> (int \<times> 'd Controller) res" where
  "arm_region ce shm_addr c =
     (if \<not> ce_mprotect ce (shm_start c) (shm_size c) then Inr (-1, c)
      else let (r3, p) = register_range (shm_start c) (shm_size c) (pfm c);
               c' = c\<lparr>page_rw := protect_all (shm_start c) (shm_size c) (page_rw c), pfm := p\<rparr>
           in if move_range (ce_numa ce) shm_addr (shm_size c') (remote_node c') = -1 then Inr (-1, c')
              else start_monitor ce c')"

definition ctrl_init :: "cenv \<Rightarrow> nat \<Rightarrow> nat \<Rightarrow> 'd Controller \<Rightarrow> (int \<times> 'd Controller) res" where
  "ctrl_init ce max_cnt pg_cnt c0 =
     (let c1 = c0\<lparr>max_active_pg_cnt := max_cnt, shm_pg_cnt := pg_cnt, faults := 0,
                  shm_size := pg_cnt * page_size c0, used_pages := 0\<rparr>
      in bindR (bind_to_node (ce_numa ce) (remote_node c1) (nbd c1)) (\<lambda>(r1, nb1).
         let c2 = c1\<lparr>nbd := nb1\<rparr>
         in case ce_mmap ce (shm_start c2) (shm_size c2) (shm_mem c2) of
              None \<Rightarrow> Inr (-1, c2)
            | Some (shm_addr, m) \<Rightarrow>
                guardR (shm_start c2 = 0 \<or> shm_addr = shm_start c2) ExitFailure
                  (bindR (bind_to_node (ce_numa ce) (1 - remote_node c2) (nbd c2)) (\<lambda>(r2, nb2).
                     arm_region ce shm_addr (c2\<lparr>nbd := nb2, shm_start := shm_addr, shm_mem := m\<rparr>)))))"

fun flush_pages :: "'d spdk \<Rightarrow> nat list \<Rightarrow> 'd Controller \<Rightarrow> 'd Controller run" where
  "flush_pages sp [] c = ret c"
| "flush_pages sp (page_idx # ps) c =
     (let page_addr = shm_start c + page_idx * 2 ^ 12
      in bindX (write_blocking sp (rd (shm_mem c) page_addr 4096) (page_idx * 8) 8 (ubd c))
           (\<lambda>(rc, u). flush_pages sp ps (c\<lparr>ubd := u\<rparr>)))"

definition flush_cache :: "'d spdk \<Rightarrow> cenv \<Rightarrow> 'd Controller \<Rightarrow> 'd Controller run" where
  "flush_cache sp ce c =
     guardX (shm_pg_cnt c \<noteq> 0) AssertFailed
       (bindX (flush_pages sp (mapped_pages c) c) (\<lambda>c1.
          bindX (Some (ctrl_init ce (max_active_pg_cnt c1) (shm_pg_cnt c1) (c1\<lparr>mapped_pages := []\<rparr>)))
            (\<lambda>(rc, c2). ret c2)))"

definition resize_cache :: "'d spdk \<Rightarrow> cenv \<Rightarrow> nat \<Rightarrow> 'd Controller \<Rightarrow> 'd Controller run" where
  "resize_cache sp ce pg_cnt c =
     (let should_flush = pg_cnt < max_active_pg_cnt c; c1 = c\<lparr>max_active_pg_cnt := pg_cnt\<rparr>
      in if should_flush then flush_cache sp ce c1 else ret c1)"

definition reset_stats :: "'d Controller \<Rightarrow> 'd Controller" where
  "reset_stats c = c\<lparr>faults := 0, mbd_dist_sz := []\<rparr>"

definition ctrl_ctor :: "'d spdk \<Rightarrow> cenv \<Rightarrow> 'd UserBlkDev \<Rightarrow> sample_page \<Rightarrow> 'd Controller \<Rightarrow> 'd Controller res" where
  "ctrl_ctor sp ce u0 ring0 c =
     (case ce_remote_node ce of None \<Rightarrow> Inl Uncaught | Some node \<Rightarrow>
        let (r1, mb) = start_sampling (ce_perf_open ce) (ce_map_ring ce) (ce_pagesize ce) 250 \<lparr>sample_buf = ring0\<rparr>;
            (r2, u) = ubd_init sp u0;
            (r3, p) = pfm_init ce node \<lparr>pf_fd = -1, tgt_node = 0, pfm_start = 0, pfm_len = 0, pfm_cb = False\<rparr>
        in Inr (c\<lparr>remote_node := node, ubd := u, pfm := p, mbd := mb, nbd := \<lparr>cpu_aff = -1\<rparr>,
                       mbd_dist_sz := [], page_size := ce_pagesize ce, max_active_pg_cnt := 2,
                       shm_pg_cnt := 64 * 1024, used_pages := 0, shm_start := 0,
                       monitor_thread_running := False, mapped_pages := [], ubd_wr_cq := []\<rparr>))"

subsection \<open>A page on the device\<close>

text \<open>
  \<open>dev_page bs os p v\<close>: page \<open>p\<close> has contents \<open>v\<close> on the device, either on the medium \<open>bs\<close> with no write to its
  blocks outstanding, or in the only outstanding write to them.
\<close>

definition pg_quiet :: "(nat \<times> cmd) list \<Rightarrow> nat \<Rightarrow> bool" where
  "pg_quiet os p \<longleftrightarrow> (\<forall>k. p * 8 \<le> k \<and> k < p * 8 + 8 \<longrightarrow> quiet os k)"

definition dev_page :: "(nat \<Rightarrow> byte list) \<Rightarrow> (nat \<times> cmd) list \<Rightarrow> nat \<Rightarrow> byte list \<Rightarrow> bool" where
  "dev_page bs os p v \<longleftrightarrow> length v = 4096 \<and>
     (pg_quiet os p \<and> blocks bs (p * 8) 8 = v \<or>
      (\<exists>i. (i, CWrite (p * 8) 8 v) \<in> set os \<and> pg_quiet (filter (\<lambda>w. w \<noteq> (i, CWrite (p * 8) 8 v)) os) p))"

lemma pg_quiet_filter: "pg_quiet os p \<Longrightarrow> pg_quiet (filter P os) p"
  by (simp add: pg_quiet_def quiet_def)

lemma dev_page_settled:
  assumes s: "settled disk outs ns os d0 d D" and v: "dev_page (disk d0 ns) os p v"
  shows "dev_page (disk d ns) (outs d ns) p v"
proof -
  have o: "outs d ns = filter (\<lambda>w. fst w \<notin> D) os" using s by (simp add: settled_def)
  have len: "length v = 4096" using v by (simp add: dev_page_def)
  show ?thesis
  proof (cases "pg_quiet os p \<and> blocks (disk d0 ns) (p * 8) 8 = v")
    case True
    have "blocks (disk d ns) (p * 8) 8 = blocks (disk d0 ns) (p * 8) 8"
      unfolding blocks_def using True s by (intro arg_cong [where f = concat] map_cong) (auto simp: settled_def pg_quiet_def)
    then show ?thesis using True len pg_quiet_filter unfolding o dev_page_def by auto
  next
    case False
    then obtain i where i: "(i, CWrite (p * 8) 8 v) \<in> set os"
      and q: "pg_quiet (filter (\<lambda>w. w \<noteq> (i, CWrite (p * 8) 8 v)) os) p"
      using v by (auto simp: dev_page_def)
    show ?thesis
    proof (cases "i \<in> D")
      case True
      have "blocks (disk d ns) (p * 8) 8 = v"
        by (rule blocks_block_of) (use len s i q True in \<open>auto simp: settled_def pg_quiet_def\<close>)
      moreover have "pg_quiet (outs d ns) p"
        using q True unfolding o by (auto simp: pg_quiet_def quiet_def)
      ultimately show ?thesis using len by (simp add: dev_page_def)
    next
      case False
      then have "(i, CWrite (p * 8) 8 v) \<in> set (outs d ns)" using i o by simp
      moreover have "pg_quiet (filter (\<lambda>w. w \<noteq> (i, CWrite (p * 8) 8 v)) (outs d ns)) p"
        using q unfolding o by (auto simp: pg_quiet_def quiet_def)
      ultimately show ?thesis using len by (auto simp: dev_page_def)
    qed
  qed
qed

lemma writes_other_page: "t \<noteq> p \<Longrightarrow> p * 8 \<le> k \<Longrightarrow> k < p * 8 + 8 \<Longrightarrow> \<not> writes_block (i, CWrite (t * 8) 8 data) k"
  by (auto simp: writes_block_def)

lemma pg_quiet_append_other:
  "t \<noteq> p \<Longrightarrow> pg_quiet (os @ [(i, CWrite (t * 8) 8 data)]) p \<longleftrightarrow> pg_quiet os p"
  by (auto simp: pg_quiet_def quiet_def writes_other_page)

lemma dev_page_append_other:
  assumes "t \<noteq> p" "dev_page bs os p v"
  shows "dev_page bs (os @ [(i, CWrite (t * 8) 8 data)]) p v"
  using assms pg_quiet_append_other [OF assms(1)] unfolding dev_page_def by fastforce

lemma dev_page_append_same:
  assumes "pg_quiet os p" "length data = 4096" "\<forall>w\<in>set os. fst w \<noteq> i"
  shows "dev_page bs (os @ [(i, CWrite (p * 8) 8 data)]) p data"
proof -
  have "filter (\<lambda>w. w \<noteq> (i, CWrite (p * 8) 8 data)) (os @ [(i, CWrite (p * 8) 8 data)]) = os"
    using assms(3) by (auto simp: filter_id_conv)
  then show ?thesis using assms by (auto simp: dev_page_def)
qed

subsection \<open>The invariant of the cache\<close>

definition pg_ns :: "'d UserBlkDev \<Rightarrow> nat \<Rightarrow> nat" where
  "pg_ns u p = (case tgt_entry (p * 8) u of Some e \<Rightarrow> ns_ns e | None \<Rightarrow> 0)"

definition pg_mem :: "'d Controller \<Rightarrow> nat \<Rightarrow> byte list" where
  "pg_mem c p = rd (shm_mem c) (shm_start c + p * 4096) 4096"

definition pg_idle :: "('d \<Rightarrow> nat \<Rightarrow> (nat \<times> cmd) list) \<Rightarrow> 'd Controller \<Rightarrow> nat \<Rightarrow> bool" where
  "pg_idle outs c p \<longleftrightarrow> pg_quiet (outs (ubd_dev (ubd c)) (pg_ns (ubd c) p)) p"

definition pg_holds ::
  "('d \<Rightarrow> nat \<Rightarrow> nat \<Rightarrow> byte list) \<Rightarrow> ('d \<Rightarrow> nat \<Rightarrow> (nat \<times> cmd) list) \<Rightarrow> 'd Controller \<Rightarrow> nat \<Rightarrow> byte list \<Rightarrow> bool" where
  "pg_holds disk outs c p v \<longleftrightarrow>
     (if p \<in> set (mapped_pages c) then pg_mem c p = v
      else dev_page (disk (ubd_dev (ubd c)) (pg_ns (ubd c) p)) (outs (ubd_dev (ubd c)) (pg_ns (ubd c) p)) p v)"

definition ctl_ok :: "('d \<Rightarrow> nat \<Rightarrow> (nat \<times> cmd) list) \<Rightarrow> 'd Controller \<Rightarrow> bool" where
  "ctl_ok outs c \<longleftrightarrow> ubd_ok outs (ubd c) \<and> page_size c = 4096 \<and> shm_start c mod 4096 = 0 \<and>
     shm_start c + shm_pg_cnt c * 4096 < 2 ^ 64 \<and> pfm_start (pfm c) = shm_start c \<and>
     pfm_len (pfm c) = shm_pg_cnt c * 4096 \<and> distinct (mapped_pages c) \<and>
     used_pages c = length (mapped_pages c) \<and> used_pages c \<le> max_active_pg_cnt c \<and> 0 < max_active_pg_cnt c \<and>
     max_active_pg_cnt c < 2 ^ 64 - 1 \<and>
     (\<forall>p\<in>set (mapped_pages c). p < shm_pg_cnt c \<and> pg_idle outs c p)"

lemma evict_scan_in: "evict_scan d k t pgs = Some p \<Longrightarrow> t = Some p \<or> p \<in> set pgs"
  by (induction pgs arbitrary: k t) (auto simp: Let_def split: if_splits)

lemma evict_target_in:
  assumes "mapped_pages c \<noteq> []"
  obtains p where "evict_target ce c = Inr p" "p \<in> set (mapped_pages c)"
proof (cases "evict_scan (dist c) 0 None (mapped_pages c)")
  case None
  have "ce_rand ce mod length (mapped_pages c) < length (mapped_pages c)" using assms by simp
  then show thesis using that None assms by (simp add: evict_target_def)
next
  case (Some p)
  then show thesis using that evict_scan_in [OF Some] by (simp add: evict_target_def)
qed

lemma cq_sweep_frame:
  assumes "cmd_ok sp disk outs"
  shows "disk (ubd_dev (fst (cq_sweep sp k u cq))) = disk (ubd_dev u) \<and>
    outs (ubd_dev (fst (cq_sweep sp k u cq))) = outs (ubd_dev u) \<and>
    g_namespaces (fst (cq_sweep sp k u cq)) = g_namespaces u \<and>
    namespace_cnt (fst (cq_sweep sp k u cq)) = namespace_cnt u \<and> next_seq (fst (cq_sweep sp k u cq)) = next_seq u"
proof (induction k arbitrary: u cq)
  case (Suc k)
  have "disk (ubd_dev (drop_seq i (seq_free sp i u))) = disk (ubd_dev u) \<and>
      outs (ubd_dev (drop_seq i (seq_free sp i u))) = outs (ubd_dev u) \<and>
      g_namespaces (drop_seq i (seq_free sp i u)) = g_namespaces u \<and>
      namespace_cnt (drop_seq i (seq_free sp i u)) = namespace_cnt u \<and>
      next_seq (drop_seq i (seq_free sp i u)) = next_seq u" for i
    using assms unfolding cmd_ok_def drop_seq_def seq_free_def upd_dev_def by (auto split: option.splits)
  then show ?case using Suc.IH by (auto simp: Let_def)
qed simp

definition same_core :: "'d Controller \<Rightarrow> 'd Controller \<Rightarrow> bool" where
  "same_core c c' \<longleftrightarrow> pfm c' = pfm c \<and> page_size c' = page_size c \<and> shm_start c' = shm_start c \<and>
     shm_pg_cnt c' = shm_pg_cnt c \<and> shm_mem c' = shm_mem c \<and> max_active_pg_cnt c' = max_active_pg_cnt c"

definition same_cache :: "'d Controller \<Rightarrow> 'd Controller \<Rightarrow> bool" where
  "same_cache c c' \<longleftrightarrow> same_core c c' \<and> ubd c' = ubd c \<and> mapped_pages c' = mapped_pages c \<and>
     used_pages c' = used_pages c \<and> ubd_wr_cq c' = ubd_wr_cq c"

lemma refresh_dist_same: "refresh_dist ce c = Some (Inr c') \<Longrightarrow> same_cache c c'"
  by (auto simp: refresh_dist_def same_cache_def same_core_def ret_def split: if_splits option.splits)

lemma ctl_ok_same: "same_cache c c' \<Longrightarrow> ctl_ok outs c' = ctl_ok outs c"
  by (simp add: ctl_ok_def same_cache_def same_core_def pg_idle_def)

lemma pg_ns_cong: "g_namespaces u' = g_namespaces u \<Longrightarrow> namespace_cnt u' = namespace_cnt u \<Longrightarrow> pg_ns u' p = pg_ns u p"
  unfolding pg_ns_def by (metis tgt_entry_cong)

text \<open>What a write of page \<open>t\<close> does to the pages on the device.\<close>

lemma written_pages:
  assumes w: "written disk outs (pg_ns u t) (i, CWrite (t * 8) 8 data) (ubd_dev u) (ubd_dev u') D"
    and ns: "\<And>p. pg_ns u' p = pg_ns u p"
  shows "p \<noteq> t \<Longrightarrow> dev_page (disk (ubd_dev u) (pg_ns u p)) (outs (ubd_dev u) (pg_ns u p)) p v \<Longrightarrow>
      dev_page (disk (ubd_dev u') (pg_ns u' p)) (outs (ubd_dev u') (pg_ns u' p)) p v"
    and "p \<noteq> t \<Longrightarrow> pg_quiet (outs (ubd_dev u) (pg_ns u p)) p \<Longrightarrow> pg_quiet (outs (ubd_dev u') (pg_ns u' p)) p"
    and "pg_quiet (outs (ubd_dev u) (pg_ns u t)) t \<Longrightarrow> length data = 4096 \<Longrightarrow>
      \<forall>q\<in>set (outs (ubd_dev u) (pg_ns u t)). fst q \<noteq> i \<Longrightarrow>
      dev_page (disk (ubd_dev u') (pg_ns u' t)) (outs (ubd_dev u') (pg_ns u' t)) t data"
proof -
  have other: "outs (ubd_dev u') n = outs (ubd_dev u) n" "disk (ubd_dev u') n = disk (ubd_dev u) n"
    if "n \<noteq> pg_ns u t" for n
    using w that by (auto simp: settled_def)
  show "dev_page (disk (ubd_dev u') (pg_ns u' p)) (outs (ubd_dev u') (pg_ns u' p)) p v"
    if "p \<noteq> t" "dev_page (disk (ubd_dev u) (pg_ns u p)) (outs (ubd_dev u) (pg_ns u p)) p v"
    using that dev_page_settled [OF w] dev_page_append_other [of t p] other [of "pg_ns u p"]
    by (cases "pg_ns u p = pg_ns u t") (auto simp: ns)
  show "pg_quiet (outs (ubd_dev u') (pg_ns u' p)) p" if "p \<noteq> t" "pg_quiet (outs (ubd_dev u) (pg_ns u p)) p"
  proof (cases "pg_ns u p = pg_ns u t")
    case True
    have "outs (ubd_dev u') (pg_ns u t) =
        filter (\<lambda>p. fst p \<notin> D) (outs (ubd_dev u) (pg_ns u t) @ [(i, CWrite (t * 8) 8 data)])"
      using w by (simp add: settled_def)
    then show ?thesis
      using that True pg_quiet_append_other [of t p "outs (ubd_dev u) (pg_ns u t)" i data] pg_quiet_filter by (metis ns)
  next
    case False
    then show ?thesis using that other by (simp add: ns)
  qed
  show "dev_page (disk (ubd_dev u') (pg_ns u' t)) (outs (ubd_dev u') (pg_ns u' t)) t data"
    if "pg_quiet (outs (ubd_dev u) (pg_ns u t)) t" "length data = 4096" "\<forall>q\<in>set (outs (ubd_dev u) (pg_ns u t)). fst q \<noteq> i"
    unfolding ns by (rule dev_page_settled [OF w dev_page_append_same [OF that]])
qed

lemma length_removeAll: "distinct xs \<Longrightarrow> x \<in> set xs \<Longrightarrow> length (removeAll x xs) = length xs - 1"
  by (metis distinct_remove1_removeAll length_remove1)

lemma evict_effect:
  assumes ok: "ctl_ok outs c" and t: "t \<in> set (mapped_pages c)"
    and w: "written disk outs (pg_ns (ubd c) t) (next_seq (ubd c), CWrite (t * 8) 8 (pg_mem c t))
              (ubd_dev (ubd c)) (ubd_dev (ubd c')) D"
    and s: "g_namespaces (ubd c') = g_namespaces (ubd c)" "namespace_cnt (ubd c') = namespace_cnt (ubd c)"
      "next_seq (ubd c') = Suc (next_seq (ubd c))"
    and c': "mapped_pages c' = removeAll t (mapped_pages c)" "used_pages c' = used_pages c - 1" "same_core c c'"
  shows "ctl_ok outs c'" and "pg_holds disk outs c p v \<Longrightarrow> pg_holds disk outs c' p v"
    and "p \<noteq> t \<Longrightarrow> pg_idle outs c p \<Longrightarrow> pg_idle outs c' p"
proof -
  have u: "ubd_ok outs (ubd c)" and idle: "\<And>p. p \<in> set (mapped_pages c) \<Longrightarrow> pg_idle outs c p"
    and dm: "distinct (mapped_pages c)" "used_pages c = length (mapped_pages c)"
    using ok by (auto simp: ctl_ok_def)
  note wp = written_pages [OF w pg_ns_cong [OF s(1,2)]]
  have fresh: "\<forall>q\<in>set (outs (ubd_dev (ubd c)) (pg_ns (ubd c) t)). fst q \<noteq> next_seq (ubd c)"
    using u unfolding ubd_ok_def by (metis less_irrefl)
  have pm: "pg_mem c' p = pg_mem c p" for p using c'(3) by (simp add: pg_mem_def same_core_def)
  show id': "p \<noteq> t \<Longrightarrow> pg_idle outs c p \<Longrightarrow> pg_idle outs c' p" for p
    unfolding pg_idle_def by (rule wp(2))
  have "ubd_ok outs (ubd c')" by (rule ubd_ok_written [OF u w s])
  moreover have "length (removeAll t (mapped_pages c)) = length (mapped_pages c) - 1"
    by (rule length_removeAll [OF dm(1) t])
  ultimately show "ctl_ok outs c'"
    using ok c' id' idle by (auto simp: ctl_ok_def same_core_def distinct_removeAll)
  show "pg_holds disk outs c p v \<Longrightarrow> pg_holds disk outs c' p v"
  proof (cases "p = t")
    case True
    assume "pg_holds disk outs c p v"
    then have "v = pg_mem c t" using True t by (simp add: pg_holds_def)
    then show ?thesis
      using True wp(3) [OF idle [OF t, unfolded pg_idle_def] _ fresh] c'(1) by (simp add: pg_holds_def pg_mem_def)
  next
    case False
    assume "pg_holds disk outs c p v"
    then show ?thesis using False wp(1) [OF False] c'(1) pm by (auto simp: pg_holds_def split: if_splits)
  qed
qed

lemma write_back_ok:
  assumes sp: "spdk_ok sp disk outs" "plain_spdk sp" and ok: "ctl_ok outs c" and ne: "mapped_pages c \<noteq> []"
    and mp: "\<And>a n. ce_mprotect ce a n"
  shows "\<exists>c' t. write_back_page sp ce c = ret (0, c') \<and> t \<in> set (mapped_pages c) \<and>
    mapped_pages c' = removeAll t (mapped_pages c) \<and> ctl_ok outs c' \<and> same_core c c' \<and>
    (\<forall>p v. pg_holds disk outs c p v \<longrightarrow> pg_holds disk outs c' p v) \<and>
    (\<forall>p. p \<noteq> t \<and> pg_idle outs c p \<longrightarrow> pg_idle outs c' p)"
proof -
  obtain t where t: "evict_target ce c = Inr t" "t \<in> set (mapped_pages c)" by (rule evict_target_in [OF ne])
  have u: "ubd_ok outs (ubd c)" and ps: "page_size c = 4096" using ok by (auto simp: ctl_ok_def)
  obtain e where e: "tgt_entry (t * 8) (ubd c) = Some e" using tgt_entry_some [OF u] by blast
  have ns: "pg_ns (ubd c) t = ns_ns e" by (simp add: pg_ns_def e)
  let ?pg = "pg_mem c t" and ?i = "next_seq (ubd c)"
  have tk: "take (8 * 512) ?pg = ?pg" by (simp add: pg_mem_def)
  obtain u1 D where w: "ubd_write sp ?pg (t * 8) 8 (ubd c) = ret (Some ?i, u1)"
    "g_namespaces u1 = g_namespaces (ubd c)" "namespace_cnt u1 = namespace_cnt (ubd c)" "next_seq u1 = Suc ?i"
    "written disk outs (ns_ns e) (?i, CWrite (t * 8) 8 ?pg) (ubd_dev (ubd c)) (ubd_dev u1) D"
    using ubd_write_ok [OF sp u e, of ?pg 8, unfolded tk] by blast
  let ?cq = "ubd_wr_cq c @ [?i]"
  obtain u2 cq' where sw: "cq_sweep sp (length ?cq - 1) u1 ?cq = (u2, cq')" by fastforce
  have fr: "disk (ubd_dev u2) = disk (ubd_dev u1)" "outs (ubd_dev u2) = outs (ubd_dev u1)"
    "g_namespaces u2 = g_namespaces u1" "namespace_cnt u2 = namespace_cnt u1" "next_seq u2 = next_seq u1"
    using cq_sweep_frame [of sp disk outs "length ?cq - 1" u1 ?cq] sp(1) sw by (auto simp: spdk_ok_def)
  define c3 where "c3 = c\<lparr>ubd := u2, ubd_wr_cq := cq', page_rw := (page_rw c)((shm_start c + t * 4096) div 4096 := False),
      mapped_pages := removeAll t (mapped_pages c), used_pages := usub64 (used_pages c) 1\<rparr>"
  have run: "write_back_page sp ce c = ret (0, c3)"
    using t(1) w(1) sw mp ps by (simp add: write_back_page_def c3_def pg_mem_def)
  have "1 \<le> used_pages c" "used_pages c < 2 ^ 64" using ok ne by (auto simp: ctl_ok_def Suc_le_eq)
  then have used: "used_pages c3 = used_pages c - 1" by (simp add: c3_def usub64_ge)
  have w3: "written disk outs (pg_ns (ubd c) t) (?i, CWrite (t * 8) 8 ?pg) (ubd_dev (ubd c)) (ubd_dev (ubd c3)) D"
    using w(5) fr(1,2) by (simp add: settled_def c3_def ns)
  have core: "same_core c c3" by (simp add: c3_def same_core_def)
  have m3: "mapped_pages c3 = removeAll t (mapped_pages c)" by (simp add: c3_def)
  note ef = evict_effect [OF ok t(2) w3 _ _ _ m3 used core]
  have "ctl_ok outs c3" "\<And>p v. pg_holds disk outs c p v \<Longrightarrow> pg_holds disk outs c3 p v"
    "\<And>p. p \<noteq> t \<Longrightarrow> pg_idle outs c p \<Longrightarrow> pg_idle outs c3 p"
    using ef fr(3-5) w(2-4) by (simp_all add: c3_def)
  then show ?thesis using run t(2) core m3 by blast
qed

lemma evict_ok:
  assumes sp: "spdk_ok sp disk outs" "plain_spdk sp" and ok: "ctl_ok outs c" and ne: "mapped_pages c \<noteq> []"
    and rf: "refresh_dist ce c \<noteq> None" and mp: "\<And>a n. ce_mprotect ce a n"
  shows "\<exists>c' t. evict_a_page sp ce c = ret (0, c') \<and> t \<in> set (mapped_pages c) \<and>
    mapped_pages c' = removeAll t (mapped_pages c) \<and> ctl_ok outs c' \<and> same_core c c' \<and>
    (\<forall>p v. pg_holds disk outs c p v \<longrightarrow> pg_holds disk outs c' p v) \<and>
    (\<forall>p. p \<noteq> t \<and> pg_idle outs c p \<longrightarrow> pg_idle outs c' p)"
proof -
  obtain c1 where c1: "refresh_dist ce c = Some (Inr c1)"
    using rf by (auto simp: refresh_dist_def ret_def split: option.splits if_splits)
  define c2 where "c2 = c1\<lparr>mbd_dist_sz := mbd_dist_sz c1 @ [length (dist c1)]\<rparr>"
  have s2: "same_cache c c2" using refresh_dist_same [OF c1] by (simp add: c2_def same_cache_def same_core_def)
  have eq: "ubd c2 = ubd c" "mapped_pages c2 = mapped_pages c" and core: "same_core c c2"
    using s2 by (auto simp: same_cache_def)
  have ok2: "ctl_ok outs c2" using ok ctl_ok_same [OF s2] by simp
  have h: "pg_holds disk outs c2 p v = pg_holds disk outs c p v" "pg_idle outs c2 p = pg_idle outs c p" for p v
    using eq core by (simp_all add: pg_holds_def pg_idle_def pg_mem_def same_core_def)
  have run: "evict_a_page sp ce c = write_back_page sp ce c2" using c1 by (simp add: evict_a_page_def c2_def)
  have tr: "same_core c2 c' \<Longrightarrow> same_core c c'" for c' using core by (simp add: same_core_def)
  show ?thesis
    using write_back_ok [OF sp ok2 _ mp] ne unfolding run eq h using tr by blast
qed

text \<open>Polling a namespace keeps what every page holds and what is idle.\<close>

lemma polled_pages:
  assumes s: "settled_in disk outs ns (ubd_dev u) (ubd_dev u') D" and ns: "\<And>p. pg_ns u' p = pg_ns u p"
  shows "dev_page (disk (ubd_dev u) (pg_ns u p)) (outs (ubd_dev u) (pg_ns u p)) p v \<Longrightarrow>
      dev_page (disk (ubd_dev u') (pg_ns u' p)) (outs (ubd_dev u') (pg_ns u' p)) p v"
    and "pg_quiet (outs (ubd_dev u) (pg_ns u p)) p \<Longrightarrow> pg_quiet (outs (ubd_dev u') (pg_ns u' p)) p"
proof -
  have o: "outs (ubd_dev u') = (outs (ubd_dev u))(ns := filter (\<lambda>p. fst p \<notin> D) (outs (ubd_dev u) ns))"
    using s by (simp add: settled_def)
  have d: "n \<noteq> ns \<Longrightarrow> disk (ubd_dev u') n = disk (ubd_dev u) n" for n using s by (auto simp: settled_def)
  show "dev_page (disk (ubd_dev u) (pg_ns u p)) (outs (ubd_dev u) (pg_ns u p)) p v \<Longrightarrow>
      dev_page (disk (ubd_dev u') (pg_ns u' p)) (outs (ubd_dev u') (pg_ns u' p)) p v"
    using dev_page_settled [OF s] by (cases "pg_ns u p = ns") (simp_all add: ns o d)
  show "pg_quiet (outs (ubd_dev u) (pg_ns u p)) p \<Longrightarrow> pg_quiet (outs (ubd_dev u') (pg_ns u' p)) p"
    by (auto simp: ns o intro: pg_quiet_filter)
qed

lemma ubd_ok_polled:
  assumes "ubd_ok outs u" and s: "settled_in disk outs ns (ubd_dev u) (ubd_dev u') D"
    and "g_namespaces u' = g_namespaces u" "namespace_cnt u' = namespace_cnt u" "next_seq u' = Suc (next_seq u)"
  shows "ubd_ok outs u'"
proof -
  have "outs (ubd_dev u') = (outs (ubd_dev u))(ns := filter (\<lambda>p. fst p \<notin> D) (outs (ubd_dev u) ns))"
    using s by (simp add: settled_def)
  then have "fst p < Suc (next_seq u) \<and> (\<exists>l c d. snd p = CWrite l c d)"
    if "p \<in> set (outs (ubd_dev u') ns')" for p ns'
    using that assms(1) unfolding ubd_ok_def by (cases "ns' = ns") (fastforce simp: less_Suc_eq)+
  then show ?thesis using assms(1,3-5) unfolding ubd_ok_def by metis
qed

text \<open>The space a fault needs: the handler evicts a page when the cache is full.\<close>

definition make_room :: "'d spdk \<Rightarrow> cenv \<Rightarrow> 'd Controller \<Rightarrow> (int \<times> 'd Controller) run" where
  "make_room sp ce c = (if used_pages c = max_active_pg_cnt c then evict_a_page sp ce c else ret (0, c))"

lemma make_room_ok:
  assumes sp: "spdk_ok sp disk outs" "plain_spdk sp" and ok: "ctl_ok outs c"
    and rf: "refresh_dist ce c \<noteq> None" and mp: "\<And>a n. ce_mprotect ce a n"
    and p: "p \<notin> set (mapped_pages c)" "pg_idle outs c p"
  shows "\<exists>c'. make_room sp ce c = ret (0, c') \<and> ctl_ok outs c' \<and> same_core c c' \<and>
    used_pages c' < max_active_pg_cnt c' \<and> p \<notin> set (mapped_pages c') \<and> pg_idle outs c' p \<and>
    (\<forall>q v. pg_holds disk outs c q v \<longrightarrow> pg_holds disk outs c' q v)"
proof (cases "used_pages c = max_active_pg_cnt c")
  case True
  then have ne: "mapped_pages c \<noteq> []" using ok by (auto simp: ctl_ok_def)
  obtain c' t where e: "evict_a_page sp ce c = ret (0, c')" "t \<in> set (mapped_pages c)"
    "mapped_pages c' = removeAll t (mapped_pages c)" "ctl_ok outs c'" "same_core c c'"
    "\<forall>p v. pg_holds disk outs c p v \<longrightarrow> pg_holds disk outs c' p v"
    "\<forall>p. p \<noteq> t \<and> pg_idle outs c p \<longrightarrow> pg_idle outs c' p"
    using evict_ok [OF sp ok ne rf mp] by blast
  have "length (removeAll t (mapped_pages c)) = length (mapped_pages c) - 1"
    by (rule length_removeAll) (use ok e(2) in \<open>simp_all add: ctl_ok_def\<close>)
  then have "used_pages c' < max_active_pg_cnt c'"
    using ok e(3-5) True ne by (simp add: ctl_ok_def same_core_def)
  moreover have "p \<notin> set (mapped_pages c')" "pg_idle outs c' p" using e(2,3,7) p by auto
  ultimately show ?thesis using e(1,4-6) True unfolding make_room_def by auto
next
  case False
  then have "used_pages c < max_active_pg_cnt c" using ok by (auto simp: ctl_ok_def)
  then show ?thesis using False ok p by (auto simp: make_room_def same_core_def)
qed

lemma load_effect:
  assumes ok: "ctl_ok outs c" and p: "p \<notin> set (mapped_pages c)" "p < shm_pg_cnt c" "pg_idle outs c p"
    and lt: "used_pages c < max_active_pg_cnt c"
    and s: "settled_in disk outs ns (ubd_dev (ubd c)) (ubd_dev (ubd c')) D"
    and u: "g_namespaces (ubd c') = g_namespaces (ubd c)" "namespace_cnt (ubd c') = namespace_cnt (ubd c)"
      "next_seq (ubd c') = Suc (next_seq (ubd c))"
    and c': "mapped_pages c' = p # mapped_pages c" "used_pages c' = Suc (used_pages c)" "pfm c' = pfm c"
      "page_size c' = page_size c" "shm_start c' = shm_start c" "shm_pg_cnt c' = shm_pg_cnt c"
      "max_active_pg_cnt c' = max_active_pg_cnt c"
      "shm_mem c' = wr (shm_mem c) (shm_start c + p * 4096) v"
    and v: "length v = 4096" "pg_holds disk outs c p v"
  shows "ctl_ok outs c'" and "pg_mem c' p = v" and "pg_holds disk outs c q w \<Longrightarrow> pg_holds disk outs c' q w"
proof -
  note pp = polled_pages [OF s pg_ns_cong [OF u(1,2)]]
  have idle: "pg_idle outs c q \<Longrightarrow> pg_idle outs c' q" for q unfolding pg_idle_def by (rule pp(2))
  have "ubd_ok outs (ubd c')" by (rule ubd_ok_polled [OF _ s u]) (use ok in \<open>simp add: ctl_ok_def\<close>)
  then show "ctl_ok outs c'" using ok p lt c' idle by (auto simp: ctl_ok_def)
  show pm: "pg_mem c' p = v" by (simp add: pg_mem_def c' v)
  have other: "pg_mem c' q = pg_mem c q" if "q \<noteq> p" for q
  proof -
    have "q * 4096 + 4096 \<le> p * 4096 \<or> p * 4096 + 4096 \<le> q * 4096" using that by linarith
    then show ?thesis unfolding pg_mem_def c' by (intro rd_wr_disj) (use v(1) in auto)
  qed
  have uniq: "pg_holds disk outs c p w \<Longrightarrow> w = v" using v(2) p(1,3)
    unfolding pg_holds_def dev_page_def pg_idle_def pg_quiet_def quiet_def writes_block_def by fastforce
  show "pg_holds disk outs c q w \<Longrightarrow> pg_holds disk outs c' q w"
    using other pp(1) uniq pm by (cases "q = p") (auto simp: pg_holds_def c'(1))
qed

lemma page_of: "b mod 4096 = (0::nat) \<Longrightarrow> b + p * 4096 \<le> a \<Longrightarrow> a < b + p * 4096 + 4096 \<Longrightarrow> a div 4096 * 4096 = b + p * 4096"
  using div_nat_eqI [of 4096 "b div 4096 + p" a] by (auto simp: algebra_simps)

lemma notify_ok:
  assumes sp: "spdk_ok sp disk outs" "plain_spdk sp" and ok: "ctl_ok outs c"
    and rf: "refresh_dist ce c \<noteq> None" and mp: "\<And>a n. ce_mprotect ce a n"
    and p: "p \<notin> set (mapped_pages c)" "pg_idle outs c p" "p < shm_pg_cnt c" and v: "pg_holds disk outs c p v"
  shows "\<exists>c1 u D. notify_page_fault sp ce (shm_start c + p * 4096) c =
      ret (v, c1\<lparr>faults := Suc (faults c1), used_pages := Suc (used_pages c1), ubd := u,
                mapped_pages := p # mapped_pages c1\<rparr>) \<and>
    ctl_ok outs c1 \<and> same_core c c1 \<and> used_pages c1 < max_active_pg_cnt c1 \<and> p \<notin> set (mapped_pages c1) \<and> pg_idle outs c1 p \<and>
    (\<forall>q v. pg_holds disk outs c q v \<longrightarrow> pg_holds disk outs c1 q v) \<and> length v = 4096 \<and>
    g_namespaces u = g_namespaces (ubd c1) \<and> namespace_cnt u = namespace_cnt (ubd c1) \<and>
    next_seq u = Suc (next_seq (ubd c1)) \<and> settled_in disk outs (pg_ns (ubd c1) p) (ubd_dev (ubd c1)) (ubd_dev u) D"
proof -
  obtain c1 where r: "make_room sp ce c = ret (0, c1)" "ctl_ok outs c1" "same_core c c1"
    "used_pages c1 < max_active_pg_cnt c1" "p \<notin> set (mapped_pages c1)" "pg_idle outs c1 p"
    "\<forall>q v. pg_holds disk outs c q v \<longrightarrow> pg_holds disk outs c1 q v"
    using make_room_ok [OF sp ok rf mp p(1,2)] by blast
  have u1: "ubd_ok outs (ubd c1)" using r(2) by (simp add: ctl_ok_def)
  obtain e where e: "tgt_entry (p * 8) (ubd c1) = Some e" using tgt_entry_some [OF u1] by blast
  have ns: "pg_ns (ubd c1) p = ns_ns e" by (simp add: pg_ns_def e)
  have h: "pg_holds disk outs c1 p v" using r(7) v by blast
  have q: "pg_quiet (outs (ubd_dev (ubd c1)) (ns_ns e)) p" using r(6) by (simp add: pg_idle_def ns)
  have dp: "dev_page (disk (ubd_dev (ubd c1)) (ns_ns e)) (outs (ubd_dev (ubd c1)) (ns_ns e)) p v"
    using h r(5) by (simp add: pg_holds_def ns)
  have b: "blocks (disk (ubd_dev (ubd c1)) (ns_ns e)) (p * 8) 8 = v" "length v = 4096"
    using dp q unfolding dev_page_def pg_quiet_def quiet_def writes_block_def by fastforce+
  have q': "\<forall>k. p * 8 \<le> k \<and> k < p * 8 + 8 \<longrightarrow> quiet (outs (ubd_dev (ubd c1)) (ns_ns e)) k"
    using q by (simp add: pg_quiet_def)
  obtain u D where rb: "read_blocking sp (p * 8) 8 (ubd c1) = ret ((0, Some v), u)"
    "g_namespaces u = g_namespaces (ubd c1)" "namespace_cnt u = namespace_cnt (ubd c1)"
    "next_seq u = Suc (next_seq (ubd c1))" "settled_in disk outs (ns_ns e) (ubd_dev (ubd c1)) (ubd_dev u) D"
    using read_blocking_ok [OF sp u1 e q'] b by auto
  have st: "shm_start c1 = shm_start c" "max_active_pg_cnt c1 < 2 ^ 64 - 1"
    using r(2,3) by (auto simp: same_core_def ctl_ok_def)
  have in64: "shm_start c + p * 4096 < 2 ^ 64" "shm_start c mod 4096 = 0" "used_pages c \<le> max_active_pg_cnt c"
    using ok p(3) unfolding ctl_ok_def by linarith+
  define a where "a = shm_start c + p * 4096"
  have pg: "a div 4096 * 4096 = a"
    unfolding a_def by (rule page_of [OF in64(2)]) simp_all
  have us: "usub64 a (shm_start c) = p * 4096" using usub64_ge [of "shm_start c" a] in64(1) by (simp add: a_def)
  have ua: "uadd64 (used_pages c1) (Suc 0) = Suc (used_pages c1)" using r(4) st(2) by (simp add: uadd64_small)
  have "notify_page_fault sp ce a c =
      ret (v, c1\<lparr>faults := Suc (faults c1), used_pages := Suc (used_pages c1), ubd := u, mapped_pages := p # mapped_pages c1\<rparr>)"
    using r(1,5) rb(1) in64(3) unfolding notify_page_fault_def make_room_def [symmetric]
    by (simp add: map_page_from_blkdev_def Let_def pg us ua st(1) get_shm_def List.insert_def)
  then have n: "notify_page_fault sp ce (shm_start c + p * 4096) c =
      ret (v, c1\<lparr>faults := Suc (faults c1), used_pages := Suc (used_pages c1), ubd := u, mapped_pages := p # mapped_pages c1\<rparr>)"
    by (simp only: a_def)
  show ?thesis
    by (intro exI conjI) (rule n r(2-7) b(2) rb(2-4) rb(5) [folded ns])+
qed

lemma handler_ok:
  assumes sp: "spdk_ok sp disk outs" "plain_spdk sp" and ok: "ctl_ok outs c"
    and rf: "refresh_dist ce c \<noteq> None" and mp: "\<And>a n. ce_mprotect ce a n"
    and p: "p \<notin> set (mapped_pages c)" "pg_idle outs c p" "p < shm_pg_cnt c" and v: "pg_holds disk outs c p v"
    and a: "shm_start c + p * 4096 \<le> a" "a < shm_start c + p * 4096 + 4096"
  shows "\<exists>c'. handler sp ce a c = ret c' \<and> ctl_ok outs c' \<and> p \<in> set (mapped_pages c') \<and>
    page_rw c' (a div 4096) \<and> pg_mem c' p = v \<and> (\<forall>q w. pg_holds disk outs c q w \<longrightarrow> pg_holds disk outs c' q w)"
proof -
  obtain c1 u D where n: "notify_page_fault sp ce (shm_start c + p * 4096) c =
      ret (v, c1\<lparr>faults := Suc (faults c1), used_pages := Suc (used_pages c1), ubd := u,
                mapped_pages := p # mapped_pages c1\<rparr>)"
    and c1: "ctl_ok outs c1" "same_core c c1" "used_pages c1 < max_active_pg_cnt c1" "p \<notin> set (mapped_pages c1)"
      "pg_idle outs c1 p" "\<forall>q v. pg_holds disk outs c q v \<longrightarrow> pg_holds disk outs c1 q v" "length v = 4096"
    and u: "g_namespaces u = g_namespaces (ubd c1)" "namespace_cnt u = namespace_cnt (ubd c1)"
      "next_seq u = Suc (next_seq (ubd c1))"
      "settled_in disk outs (pg_ns (ubd c1) p) (ubd_dev (ubd c1)) (ubd_dev u) D"
    using notify_ok [OF sp ok rf mp p v] by blast
  have cov: "pfm_start (pfm c) = shm_start c" "pfm_len (pfm c) = shm_pg_cnt c * 4096" "shm_start c mod 4096 = 0"
    using ok by (auto simp: ctl_ok_def)
  have pg: "a div 4096 * 4096 = shm_start c + p * 4096" by (rule page_of [OF cov(3) a])
  have inside: "shm_start c \<le> a \<and> a < shm_start c + shm_pg_cnt c * 4096" using a p(3) by auto
  define c' where "c' = c1\<lparr>faults := Suc (faults c1), used_pages := Suc (used_pages c1), ubd := u,
      mapped_pages := p # mapped_pages c1, page_rw := (page_rw c1)((shm_start c + p * 4096) div 4096 := True),
      shm_mem := wr (shm_mem c1) (shm_start c + p * 4096) v\<rparr>"
  have run: "handler sp ce a c = ret c'"
    using n inside mp c1(7) by (simp add: handler_def cov(1,2) pg c'_def)
  have p1: "p < shm_pg_cnt c1" "shm_start c1 = shm_start c" using c1(2) p(3) by (simp_all add: same_core_def)
  have v1: "pg_holds disk outs c1 p v" using c1(6) v by blast
  have s: "settled_in disk outs (pg_ns (ubd c1) p) (ubd_dev (ubd c1)) (ubd_dev (ubd c')) D"
    using u(4) by (simp add: c'_def)
  note le = load_effect [OF c1(1,4) p1(1) c1(5,3) s _ _ _ _ _ _ _ _ _ _ _ c1(7) v1]
  have post: "ctl_ok outs c'" "pg_mem c' p = v" "\<And>q w. pg_holds disk outs c1 q w \<Longrightarrow> pg_holds disk outs c' q w"
    by (rule le; simp add: c'_def u(1-3) p1(2))+
  have "(shm_start c + p * 4096) div 4096 = a div 4096" unfolding pg [symmetric] by (rule nonzero_mult_div_cancel_right) simp
  moreover have "page_rw c' = (page_rw c1)((shm_start c + p * 4096) div 4096 := True)" by (simp add: c'_def)
  ultimately have "page_rw c' (a div 4096)" by (simp only: fun_upd_same)
  moreover have "p \<in> set (mapped_pages c')" by (simp add: c'_def)
  ultimately show ?thesis using run c1(6) post by blast
qed

text \<open>Flushing writes every resident page to the device.\<close>

definition pg_dev ::
  "('d \<Rightarrow> nat \<Rightarrow> nat \<Rightarrow> byte list) \<Rightarrow> ('d \<Rightarrow> nat \<Rightarrow> (nat \<times> cmd) list) \<Rightarrow> 'd Controller \<Rightarrow> nat \<Rightarrow> byte list \<Rightarrow> bool" where
  "pg_dev disk outs c p v \<longleftrightarrow>
     dev_page (disk (ubd_dev (ubd c)) (pg_ns (ubd c) p)) (outs (ubd_dev (ubd c)) (pg_ns (ubd c) p)) p v"

lemma flush_one:
  assumes sp: "spdk_ok sp disk outs" "plain_spdk sp" and u: "ubd_ok outs (ubd c)" and t: "pg_idle outs c t"
  shows "\<exists>u'. write_blocking sp (pg_mem c t) (t * 8) 8 (ubd c) = ret (0, u') \<and> ubd_ok outs u' \<and>
    pg_dev disk outs (c\<lparr>ubd := u'\<rparr>) t (pg_mem c t) \<and>
    (\<forall>p v. p \<noteq> t \<and> pg_dev disk outs c p v \<longrightarrow> pg_dev disk outs (c\<lparr>ubd := u'\<rparr>) p v) \<and>
    (\<forall>p. pg_idle outs c p \<longrightarrow> pg_idle outs (c\<lparr>ubd := u'\<rparr>) p)"
proof -
  obtain e where e: "tgt_entry (t * 8) (ubd c) = Some e" using tgt_entry_some [OF u] by blast
  have ns: "pg_ns (ubd c) t = ns_ns e" by (simp add: pg_ns_def e)
  have len: "length (pg_mem c t) = 4096" by (simp add: pg_mem_def)
  have tk: "take (8 * 512) (pg_mem c t) = pg_mem c t" by (simp add: pg_mem_def)
  obtain u' D where w: "write_blocking sp (pg_mem c t) (t * 8) 8 (ubd c) = ret (0, u')" "next_seq (ubd c) \<in> D"
    "g_namespaces u' = g_namespaces (ubd c)" "namespace_cnt u' = namespace_cnt (ubd c)"
    "next_seq u' = Suc (next_seq (ubd c))"
    "written disk outs (pg_ns (ubd c) t) (next_seq (ubd c), CWrite (t * 8) 8 (pg_mem c t)) (ubd_dev (ubd c)) (ubd_dev u') D"
    using write_blocking_ok [OF sp u e, of "pg_mem c t" 8, unfolded tk, folded ns] by blast
  have nsc: "pg_ns u' p = pg_ns (ubd c) p" for p by (rule pg_ns_cong [OF w(3,4)])
  note wp = written_pages [OF w(6) nsc]
  have fresh: "\<forall>q\<in>set (outs (ubd_dev (ubd c)) (pg_ns (ubd c) t)). fst q \<noteq> next_seq (ubd c)"
    using u unfolding ubd_ok_def by (metis less_irrefl)
  have q: "pg_quiet (outs (ubd_dev u') (pg_ns u' t)) t"
    using t written_quiet [OF w(6,2)] unfolding pg_idle_def pg_quiet_def nsc by blast
  have "pg_idle outs (c\<lparr>ubd := u'\<rparr>) p" if "pg_idle outs c p" for p
    using that wp(2) q unfolding pg_idle_def by (cases "p = t") simp_all
  moreover have "pg_dev disk outs (c\<lparr>ubd := u'\<rparr>) t (pg_mem c t)"
    using wp(3) t len fresh by (simp add: pg_dev_def pg_idle_def)
  ultimately show ?thesis using w(1) ubd_ok_written [OF u w(6,3-5)] wp(1) by (auto simp: pg_dev_def)
qed

lemma flush_pages_ok:
  assumes sp: "spdk_ok sp disk outs" "plain_spdk sp"
  shows "ubd_ok outs (ubd c) \<Longrightarrow> \<forall>p\<in>set ps. pg_idle outs c p \<Longrightarrow>
    \<exists>u'. flush_pages sp ps c = ret (c\<lparr>ubd := u'\<rparr>) \<and> ubd_ok outs u' \<and>
      (\<forall>p v. (if p \<in> set ps then pg_mem c p = v else pg_dev disk outs c p v) \<longrightarrow> pg_dev disk outs (c\<lparr>ubd := u'\<rparr>) p v) \<and>
      (\<forall>p. pg_idle outs c p \<longrightarrow> pg_idle outs (c\<lparr>ubd := u'\<rparr>) p)"
proof (induction ps arbitrary: c)
  case Nil
  show ?case by (rule exI [of _ "ubd c"]) (use Nil in simp)
next
  case (Cons t ps)
  obtain u1 where w: "write_blocking sp (pg_mem c t) (t * 8) 8 (ubd c) = ret (0, u1)" "ubd_ok outs u1"
    "pg_dev disk outs (c\<lparr>ubd := u1\<rparr>) t (pg_mem c t)"
    "\<forall>p v. p \<noteq> t \<and> pg_dev disk outs c p v \<longrightarrow> pg_dev disk outs (c\<lparr>ubd := u1\<rparr>) p v"
    "\<forall>p. pg_idle outs c p \<longrightarrow> pg_idle outs (c\<lparr>ubd := u1\<rparr>) p"
    using flush_one [OF sp, of c t] Cons.prems by auto
  have pm: "pg_mem (c\<lparr>ubd := u1\<rparr>) p = pg_mem c p" for p by (simp add: pg_mem_def)
  obtain u' where r: "flush_pages sp ps (c\<lparr>ubd := u1\<rparr>) = ret (c\<lparr>ubd := u'\<rparr>)" "ubd_ok outs u'"
    "\<forall>p v. (if p \<in> set ps then pg_mem c p = v else pg_dev disk outs (c\<lparr>ubd := u1\<rparr>) p v) \<longrightarrow> pg_dev disk outs (c\<lparr>ubd := u'\<rparr>) p v"
    "\<forall>p. pg_idle outs (c\<lparr>ubd := u1\<rparr>) p \<longrightarrow> pg_idle outs (c\<lparr>ubd := u'\<rparr>) p"
    using Cons.IH [of "c\<lparr>ubd := u1\<rparr>"] w(2,5) Cons.prems unfolding pm by auto
  have "flush_pages sp (t # ps) c = ret (c\<lparr>ubd := u'\<rparr>)" using w(1) r(1) by (simp add: pg_mem_def)
  moreover have "pg_dev disk outs (c\<lparr>ubd := u'\<rparr>) p v"
    if "if p \<in> set (t # ps) then pg_mem c p = v else pg_dev disk outs c p v" for p v
  proof -
    have "if p \<in> set ps then pg_mem c p = v else pg_dev disk outs (c\<lparr>ubd := u1\<rparr>) p v"
      using that w(3,4) by (cases "p = t") (auto split: if_splits)
    then show ?thesis using r(3) by blast
  qed
  ultimately show ?case using r(2,4) w(5) by blast
qed

definition same_pages :: "'d Controller \<Rightarrow> 'd Controller \<Rightarrow> bool" where
  "same_pages c c' \<longleftrightarrow> ubd c' = ubd c \<and> mapped_pages c' = mapped_pages c \<and> used_pages c' = used_pages c"

lemma start_monitor_same: "start_monitor ce c = Inr (rc, c') \<Longrightarrow> same_pages c c'"
  by (auto simp: start_monitor_def monitor_thread_wrapper_def monitor_thread_def same_pages_def bindR_eq_Inr
      case_prod_unfold Let_def split: if_split_asm)

lemma arm_region_same: "arm_region ce a c = Inr (rc, c') \<Longrightarrow> same_pages c c'"
  by (auto simp: arm_region_def case_prod_unfold Let_def same_pages_def dest!: start_monitor_same split: if_split_asm)

lemma ctrl_init_keeps:
  assumes "ctrl_init ce m n c = Inr (rc, c')"
  shows "ubd c' = ubd c \<and> mapped_pages c' = mapped_pages c \<and> used_pages c' = 0"
  using assms
  by (auto simp: ctrl_init_def Let_def bindR_eq_Inr guardR_eq_Inr case_prod_unfold same_pages_def
      dest!: arm_region_same split: option.split_asm)

lemma cq_sweep_first: "cq \<noteq> [] \<Longrightarrow> k < length cq \<Longrightarrow> snd (cq_sweep sp k u cq) \<noteq> [] \<and> hd (snd (cq_sweep sp k u cq)) = hd cq"
proof (induction k arbitrary: u cq)
  case (Suc k)
  let ?cq = "take (Suc k) cq @ drop (Suc (Suc k)) cq"
  have "?cq \<noteq> [] \<and> k < length ?cq \<and> hd ?cq = hd cq" using Suc.prems by (cases cq) auto
  then show ?case using Suc by (auto simp: Let_def)
qed simp

subsection \<open>Properties\<close>

text \<open>
  C8: serving a page fault is transparent.  Whatever the cache evicts to make room, the handler returns, the
  faulting page becomes resident and accessible with the contents it had on the device, the invariant of the cache
  holds again (in particular, never more than \<open>max_active_pg_cnt\<close> pages are resident), and every page of the region
  still holds what it held, in memory or on the device.
\<close>

theorem page_fault_transparent:
  assumes "spdk_ok sp disk outs" and "plain_spdk sp" and "ctl_ok outs c" and "refresh_dist ce c \<noteq> None"
    and "\<And>a n. ce_mprotect ce a n" and "p \<notin> set (mapped_pages c)" and "pg_idle outs c p" and "p < shm_pg_cnt c"
    and "pg_holds disk outs c p v" and "shm_start c + p * 4096 \<le> a" and "a < shm_start c + p * 4096 + 4096"
  shows "\<exists>c'. handler sp ce a c = ret c' \<and> ctl_ok outs c' \<and> p \<in> set (mapped_pages c') \<and>
    page_rw c' (a div 4096) \<and> pg_mem c' p = v \<and> (\<forall>q w. pg_holds disk outs c q w \<longrightarrow> pg_holds disk outs c' q w)"
  by (rule handler_ok [OF assms])

definition demo_cenv :: cenv where
  "demo_cenv = \<lparr>ce_numa = demo_numa, ce_pagesize = 4096, ce_remote_node = Some 1, ce_mprotect = (\<lambda>a n. True),
     ce_mmap = (\<lambda>a n m. Some (a, wr m a (replicate n 0))), ce_userfaultfd = 5, ce_uffd_ioctl = 0, ce_uffd_api_ok = True,
     ce_sigaction = 0, ce_pthread_create = 0, ce_perf_open = (\<lambda>n. 6), ce_map_ring = (\<lambda>fd n. Some demo_ring),
     ce_rand = 17, ce_clk_ns = 1000, ce_garbage = (\<lambda>n. replicate n 0)\<rparr>"

definition demo_ctl :: "ram Controller" where
  "demo_ctl = \<lparr>faults = 3, remote_node = 1, max_active_pg_cnt = 1, shm_pg_cnt = 4, ubd = demo_ubd,
     pfm = \<lparr>pf_fd = 5, tgt_node = 1, pfm_start = 2 ^ 30, pfm_len = 4 * 4096, pfm_cb = True\<rparr>,
     mbd = \<lparr>sample_buf = demo_ring\<rparr>, nbd = \<lparr>cpu_aff = 3\<rparr>, mbd_dist_sz = [], page_size = 4096, shm_size = 4 * 4096,
     mapped_pages = [2], ubd_wr_cq = [], used_pages = 1, shm_start = 2 ^ 30, monitor_thread_running = True, g_seed = 1,
     dist = [], dist_age = 0, MAX_DIST_AGE = 10, shm_mem = (\<lambda>x. 5), page_rw = (\<lambda>k. k = 2 ^ 18 + 2)\<rparr>"

lemma demo_ctl_ok: "ctl_ok r_outs demo_ctl" "pg_idle r_outs demo_ctl p"
  using demo_ubd_ok by (simp_all add: ctl_ok_def demo_ctl_def pg_idle_def pg_quiet_def quiet_def demo_ubd_def)

lemma demo_ctl_holds: "p \<noteq> 2 \<Longrightarrow> pg_holds r_disk r_outs demo_ctl p (replicate 4096 0)"
proof -
  have "blocks (\<lambda>k. replicate 512 0) (p * 8) 8 = replicate 4096 0"
    unfolding blocks_def by (simp add: upt_rec flip: replicate_add)
  then show "p \<noteq> 2 \<Longrightarrow> pg_holds r_disk r_outs demo_ctl p (replicate 4096 0)"
    by (simp add: pg_holds_def demo_ctl_def dev_page_def pg_quiet_def quiet_def demo_ubd_def)
qed

theorem page_fault_transparent_witness:
  "\<exists>c'. handler ram_spdk demo_cenv (2 ^ 30 + 4100) demo_ctl = ret c' \<and> ctl_ok r_outs c' \<and> 1 \<in> set (mapped_pages c') \<and>
    page_rw c' ((2 ^ 30 + 4100) div 4096) \<and> pg_mem c' 1 = replicate 4096 0 \<and>
    (\<forall>q w. pg_holds r_disk r_outs demo_ctl q w \<longrightarrow> pg_holds r_disk r_outs c' q w)"
  by (rule page_fault_transparent [OF ram_spdk_ok ram_plain demo_ctl_ok(1)])
    (simp_all add: demo_ctl_ok demo_ctl_holds, simp_all add: demo_ctl_def demo_cenv_def refresh_dist_def ret_def)

text \<open>
  C9: flushing the cache loses nothing.  It always ends; when the region could be mapped again no page is resident
  and every page holds on the device what it held before, resident or not.
\<close>

theorem flush_cache_keeps_pages:
  assumes "spdk_ok sp disk outs" and "plain_spdk sp" and "ctl_ok outs c" and "shm_pg_cnt c \<noteq> 0"
  shows "\<exists>r. flush_cache sp ce c = Some r \<and> (\<forall>c'. r = Inr c' \<longrightarrow>
    mapped_pages c' = [] \<and> used_pages c' = 0 \<and> (\<forall>p v. pg_holds disk outs c p v \<longrightarrow> pg_holds disk outs c' p v))"
proof -
  have "ubd_ok outs (ubd c)" "\<forall>p\<in>set (mapped_pages c). pg_idle outs c p" using assms(3) by (simp_all add: ctl_ok_def)
  then obtain u' where u': "flush_pages sp (mapped_pages c) c = ret (c\<lparr>ubd := u'\<rparr>)"
    "\<forall>p v. (if p \<in> set (mapped_pages c) then pg_mem c p = v else pg_dev disk outs c p v) \<longrightarrow> pg_dev disk outs (c\<lparr>ubd := u'\<rparr>) p v"
    using flush_pages_ok [OF assms(1,2)] by blast
  define ci where "ci = ctrl_init ce (max_active_pg_cnt c) (shm_pg_cnt c) (c\<lparr>ubd := u', mapped_pages := []\<rparr>)"
  have run: "flush_cache sp ce c = bindX (Some ci) (\<lambda>(rc, c2). ret c2)"
    using u'(1) assms(4) by (simp add: flush_cache_def ci_def)
  show ?thesis
  proof (cases ci)
    case (Inl e)
    then show ?thesis using run by simp
  next
    case (Inr x)
    then obtain rc c2 where x: "ci = Inr (rc, c2)" by (cases x) simp
    have k: "ubd c2 = u'" "mapped_pages c2 = []" "used_pages c2 = 0"
      using ctrl_init_keeps [OF x [unfolded ci_def]] by simp_all
    have "pg_holds disk outs c2 p v" if "pg_holds disk outs c p v" for p v
      using that u'(2) k by (auto simp: pg_holds_def pg_dev_def split: if_splits)
    then show ?thesis using run x k by (simp add: ret_def)
  qed
qed

theorem flush_cache_keeps_pages_witness:
  "\<exists>r. flush_cache ram_spdk demo_cenv demo_ctl = Some r \<and> (\<forall>c'. r = Inr c' \<longrightarrow>
    mapped_pages c' = [] \<and> used_pages c' = 0 \<and> (\<forall>p v. pg_holds r_disk r_outs demo_ctl p v \<longrightarrow> pg_holds r_disk r_outs c' p v))"
  by (rule flush_cache_keeps_pages [OF ram_spdk_ok ram_plain demo_ctl_ok(1)]) (simp add: demo_ctl_def)

text \<open>
  The sweep over the write-completion queue runs its index from the last entry down to 1, so the entry at the
  front is never freed or erased, however long it has been complete.
\<close>

theorem cq_first_never_freed:
  assumes "cq \<noteq> []"
  shows "snd (cq_sweep sp (length cq - 1) u cq) \<noteq> [] \<and> hd (snd (cq_sweep sp (length cq - 1) u cq)) = hd cq"
  by (rule cq_sweep_first [OF assms]) (use assms in simp)

theorem cq_first_never_freed_witness:
  "snd (cq_sweep ram_spdk (length [4, 7 :: nat] - 1) demo_ubd [4, 7 :: nat]) \<noteq> [] \<and>
   hd (snd (cq_sweep ram_spdk (length [4, 7 :: nat] - 1) demo_ubd [4, 7 :: nat])) = hd [4, 7 :: nat]"
  by (rule cq_first_never_freed) simp

end
