(* ===== verification/CxlFs.thy ===== *)
theory CxlFs
  imports UndoLog Controller FdTable
begin

text \<open>
  libcxlfs.cc: a bump allocator over the region of the page cache controller, and the file calls of \<open>FdTable\<close> over it.
  The library's globals are the controller, created by the first allocation, and the bump offset; they extend the record
  of libstoreinst's globals.  The controller works on the memory of the machine: \<open>with_ctrlr\<close> hands it over and takes it back.
  \<open>fenv\<close> holds what a new controller is built from.
\<close>

record 'd cxl = glob +
  ctrlr :: "'d Controller option"
  bump_off :: nat

record 'd fenv =
  fe_spdk :: "'d spdk"
  fe_cenv :: cenv
  fe_ubd :: "'d UserBlkDev"
  fe_ring :: sample_page
  fe_ctl :: "'d Controller"

definition MEM_SIZE :: nat where
  "MEM_SIZE = 16 * 1024 * 1024 * 1024"

definition CACHE_SIZE :: nat where
  "CACHE_SIZE = 128 * 1024 * 1024"

definition with_ctrlr :: "('d Controller \<Rightarrow> 'd Controller run) \<Rightarrow> 'd cxl \<Rightarrow> 'd cxl run" where
  "with_ctrlr f g =
     (case ctrlr g of None \<Rightarrow> ret g
      | Some c \<Rightarrow> bindX (f (c\<lparr>shm_mem := cpu (mch g)\<rparr>))
          (\<lambda>c'. ret (g\<lparr>ctrlr := Some c', mch := (mch g)\<lparr>cpu := shm_mem c'\<rparr>\<rparr>)))"

definition new_ctrlr :: "'d fenv \<Rightarrow> 'd cxl \<Rightarrow> 'd cxl res" where
  "new_ctrlr fe g =
     bindR (ctrl_ctor (fe_spdk fe) (fe_cenv fe) (fe_ubd fe) (fe_ring fe) ((fe_ctl fe)\<lparr>shm_mem := cpu (mch g)\<rparr>)) (\<lambda>c.
     bindR (ctrl_init (fe_cenv fe) (CACHE_SIZE div 2 ^ 12) (MEM_SIZE div 2 ^ 12) c) (\<lambda>(rc, c').
     Inr (g\<lparr>ctrlr := Some c', mch := (mch g)\<lparr>cpu := shm_mem c'\<rparr>\<rparr>)))"

definition cxl_malloc :: "'d fenv \<Rightarrow> nat \<Rightarrow> 'd cxl \<Rightarrow> (addr \<times> 'd cxl) res" where
  "cxl_malloc fe bytes g =
     bindR (case ctrlr g of None \<Rightarrow> new_ctrlr fe g | Some c \<Rightarrow> Inr g) (\<lambda>g1.
       case ctrlr g1 of None \<Rightarrow> Inl NullDeref
       | Some c \<Rightarrow> Inr (uadd64 (get_shm c) (bump_off g1), g1\<lparr>bump_off := uadd64 (bump_off g1) bytes\<rparr>))"

definition cxl_lseek :: "'d fenv \<Rightarrow> int \<Rightarrow> int \<Rightarrow> int \<Rightarrow> fs_tab \<times> 'd cxl \<Rightarrow> (int \<times> fs_tab \<times> 'd cxl) res" where
  "cxl_lseek fe = fs_lseek (cxl_malloc fe)"

definition flush_caches :: "'d spdk \<Rightarrow> cenv \<Rightarrow> 'd cxl \<Rightarrow> 'd cxl run" where
  "flush_caches sp ce g = with_ctrlr (flush_cache sp ce) g"

subsection \<open>The bump allocator\<close>

definition cxl_owned :: "'d cxl \<Rightarrow> addr \<Rightarrow> bool" where
  "cxl_owned g x \<longleftrightarrow> (\<exists>c. ctrlr g = Some c \<and> inr (get_shm c) (bump_off g) x)"

definition cxl_room :: "nat \<Rightarrow> 'd cxl \<Rightarrow> bool" where
  "cxl_room n g \<longleftrightarrow> (\<exists>c. ctrlr g = Some c \<and> get_shm c + bump_off g + n < 2 ^ 64)"

lemma cxl_malloc_bump:
  assumes "ctrlr g = Some c" "get_shm c + bump_off g + n < 2 ^ 64"
  shows "cxl_malloc fe n g = Inr (get_shm c + bump_off g, g\<lparr>bump_off := bump_off g + n\<rparr>)"
  using assms by (simp add: cxl_malloc_def uadd64_small)

interpretation cf: region_alloc "cxl_malloc fe" cxl_owned cxl_room for fe :: "'d fenv"
proof
  fix n k x p and s s' :: "'d cxl"
  assume r: "cxl_room (n + k) s" and m: "cxl_malloc fe n s = Inr (p, s')"
  show "cxl_room k s'" using r m by (auto simp: cxl_room_def cxl_malloc_bump)
next
  fix n x p and s s' :: "'d cxl"
  assume r: "cxl_room n s" and m: "cxl_malloc fe n s = Inr (p, s')"
  obtain c where c: "ctrlr s = Some c" "get_shm c + bump_off s + n < 2 ^ 64" using r by (auto simp: cxl_room_def)
  have ps: "p = get_shm c + bump_off s" "s' = s\<lparr>bump_off := bump_off s + n\<rparr>"
    using m cxl_malloc_bump [OF c] by simp_all
  show "inr p n x \<Longrightarrow> \<not> cxl_owned s x \<and> cxl_owned s' x" using ps c by (auto simp: cxl_owned_def inr_def)
  show "cxl_owned s x \<Longrightarrow> cxl_owned s' x" using ps c by (auto simp: cxl_owned_def inr_def)
next
  fix n k and s :: "'d cxl" assume "cxl_room (n + k) s"
  then show "cxl_room n s" by (auto simp: cxl_room_def)
qed

subsection \<open>Properties\<close>

text \<open>
  C10: files of libcxlfs do not overlap.  After any sequence of open, lseek and mmap calls that starts with no file and
  whose sizes fit the address space, no byte belongs to two descriptors.
\<close>

theorem cxlfs_files_disjoint:
  assumes "ctrlr g = Some c" and "get_shm c + bump_off g + fs_total cs < 2 ^ 64"
    and "fs_run (cxl_malloc fe) cs (empty_tab, g) = Inr (t', g')"
    and "file_byte t' fd x" and "file_byte t' fd' x"
  shows "fd = fd'"
proof -
  have "cxl_room (fs_total cs) g" using assms(1,2) by (auto simp: cxl_room_def)
  then have "cf.separate (t', g')"
    using cf.run_separate [of "(empty_tab, g)" cs fe "(t', g')"] assms(3) tab_ok_empty cf.separate_empty [of g] by simp
  then show ?thesis using assms(4,5) unfolding cf.separate_def fst_conv by blast
qed

definition demo_fs_lib :: "ram cxl" where
  "demo_fs_lib = glob.extend demo_glob \<lparr>ctrlr = Some demo_ctl, bump_off = 0\<rparr>"

definition demo_fenv :: "ram fenv" where
  "demo_fenv = \<lparr>fe_spdk = ram_spdk, fe_cenv = demo_cenv, fe_ubd = demo_ubd, fe_ring = demo_ring, fe_ctl = demo_ctl\<rparr>"

definition demo_fs_calls :: "fs_call list" where
  "demo_fs_calls = [Open ''/mnt/mss0/a'', Seek 1 4096 0, Open ''/mnt/mss0/b'', Seek 2 100 0, Map 100 1 2 0]"

definition demo_fs_tab :: fs_tab where
  "demo_fs_tab = \<lparr>path_to_fd = [(''/mnt/mss0/a'', 1), (''/mnt/mss0/b'', 2)], fd_to_path = [(1, ''/mnt/mss0/a''), (2, ''/mnt/mss0/b'')],
     fd_desc = [(1, \<lparr>fdd_fd = 1, fdd_region = 2 ^ 30, fdd_len = 4096, fdd_va_alloc_off = 0, fdd_seek = 4096\<rparr>),
                (2, \<lparr>fdd_fd = 2, fdd_region = 2 ^ 30 + 4096, fdd_len = 100, fdd_va_alloc_off = 0, fdd_seek = 100\<rparr>)],
     fs_errno = 0\<rparr>"

lemma demo_fs_run: "fs_run (cxl_malloc demo_fenv) demo_fs_calls (empty_tab, demo_fs_lib) = Inr (demo_fs_tab, demo_fs_lib\<lparr>bump_off := 4196\<rparr>)"
  by (simp add: demo_fs_calls_def demo_fs_tab_def fs_open_def create_fd_def get_free_fd_def free_from.simps empty_tab_def
      fs_lseek_def fs_mmap_def to_size_def SEEK_SET_def map_flag_defs cxl_malloc_def demo_fs_lib_def glob.defs get_shm_def
      demo_ctl_def uadd64_def Let_def)

theorem cxlfs_files_disjoint_witness:
  "fs_run (cxl_malloc demo_fenv) demo_fs_calls (empty_tab, demo_fs_lib) = Inr (demo_fs_tab, demo_fs_lib\<lparr>bump_off := 4196\<rparr>) \<and>
   file_byte demo_fs_tab 1 (2 ^ 30 + 7) \<and> \<not> file_byte demo_fs_tab 2 (2 ^ 30 + 7)"
proof -
  have b: "file_byte demo_fs_tab 1 (2 ^ 30 + 7)" by (simp add: file_byte_def demo_fs_tab_def inr_def)
  have "ctrlr demo_fs_lib = Some demo_ctl" "get_shm demo_ctl + bump_off demo_fs_lib + fs_total demo_fs_calls < 2 ^ 64"
    by (simp_all add: demo_fs_lib_def glob.defs get_shm_def demo_ctl_def demo_fs_calls_def to_size_def)
  from cxlfs_files_disjoint [OF this demo_fs_run b, of 2] show ?thesis using b demo_fs_run by auto
qed

text \<open>
  The allocator does not check the size of the region.  An allocation that ends past it succeeds, and the first
  access to a byte past the region ends the process in the fault handler.
\<close>

theorem cxl_malloc_past_region:
  assumes "ctrlr g = Some c" and "get_shm c + bump_off g + n < 2 ^ 64" and "pfm_start (pfm c) = get_shm c"
    and "pfm_len (pfm c) < bump_off g + n"
  shows "\<exists>p g'. cxl_malloc fe n g = Inr (p, g') \<and> ctrlr g' = Some c \<and>
    (0 < n \<longrightarrow> handler sp ce (p + (n - 1)) c = Some (Inl ExitFailure))"
  using cxl_malloc_bump [OF assms(1,2)] assms(1,3,4) by (auto simp: handler_def)

theorem cxl_malloc_past_region_witness:
  "\<exists>p g'. cxl_malloc demo_fenv 20000 demo_fs_lib = Inr (p, g') \<and> ctrlr g' = Some demo_ctl \<and>
    handler ram_spdk demo_cenv (p + 19999) demo_ctl = Some (Inl ExitFailure)"
  using cxl_malloc_past_region [of demo_fs_lib demo_ctl 20000 demo_fenv ram_spdk demo_cenv]
  by (simp add: demo_fs_lib_def glob.defs get_shm_def demo_ctl_def)

end
