(* ===== verification/Snapshot.thy ===== *)
theory Snapshot
  imports CxlFs
begin

text \<open>
  \<^verbatim>\<open>snapshot\<close> of libc\_wrappers.cc: for every thread's log it marks the log active, copies every logged range
  inside the given range from the working copy to the backing copy, drains, marks the log empty and clears
  it.  The copy is the default build's: 64-bit and larger writes are streamed, widened to an aligned block.

  The state is the library's record of globals extended by those of libcxlfs.  What snapshot uses from outside is
  the record \<open>senv\<close>: the persistence primitives, \<^verbatim>\<open>std::sort\<close>, the size of a file, the real msync, and the
  parameters of the controller.

  The copies are described by \<open>mirrored\<close>: a byte of the working range equals its image in the backing range.
\<close>

subsection \<open>Definitions\<close>

record 'd senv =
  se_ops :: pmem_ops
  se_sort :: "log_entry_lean_t list \<Rightarrow> log_entry_lean_t list"
  se_file_size :: "string \<Rightarrow> nat option"
  se_msync :: "addr \<Rightarrow> nat \<Rightarrow> nat \<Rightarrow> int"
  se_spdk :: "'d spdk"
  se_cenv :: cenv

fun popcount :: "nat \<Rightarrow> nat" where
  "popcount n = (if n = 0 then 0 else n mod 2 + popcount (n div 2))"

declare popcount.simps [simp del]

definition previousPowerOfTwo :: "nat \<Rightarrow> nat" where
  "previousPowerOfTwo x = flog2 x"

definition snap_align_to :: "nat \<Rightarrow> nat" where
  "snap_align_to bytes =
     (let prev_pwr_2 = previousPowerOfTwo bytes + 1;
          align_to = (if prev_pwr_2 > 9 then 9 else prev_pwr_2)
      in if popcount bytes = 1 then align_to - 1 else align_to)"

definition snap_block :: "nat \<Rightarrow> nat \<Rightarrow> nat \<times> nat" where
  "snap_block dst_addr bytes =
     (let align_to = snap_align_to bytes;
          modulo = dst_addr mod 2 ^ align_to;
          dst_addr_aligned = (if modulo = 0 then dst_addr else dst_addr div 2 ^ align_to * 2 ^ align_to);
          new_sz_pfx_al = bytes + (dst_addr - dst_addr_aligned);
          new_sz_sfx_al = (if bytes \<le> 2 ^ align_to then 2 ^ align_to
                           else (bytes div 256 + (if bytes mod 256 \<noteq> 0 then 1 else 0)) * 256);
          new_sz = (if dst_addr = dst_addr_aligned then new_sz_sfx_al else new_sz_pfx_al)
      in (dst_addr_aligned, new_sz))"

definition snap_copy :: "pmem_ops \<Rightarrow> addr \<Rightarrow> addr \<Rightarrow> log_entry_lean_t \<Rightarrow> mach \<times> counters \<Rightarrow> mach \<times> counters" where
  "snap_copy ops pm_back sa e = (\<lambda>(m, c).
     let offset = usub64 (lean_addr e) sa;
         dst_addr = uadd64 pm_back offset;
         c1 = c\<lparr>total_pers_log_entries := Suc (total_pers_log_entries c)\<rparr>
     in if 8 \<le> lean_bytes e
        then let (dst_arg, new_sz) = snap_block dst_addr (lean_bytes e);
                 src_arg = uadd64 (usub64 dst_arg pm_back) sa
             in (po_streaming_wr ops dst_arg (rd (cpu m) src_arg new_sz) m,
                 c1\<lparr>total_bytes_wr := total_bytes_wr c1 + new_sz,
                    total_bytes_wr_strm := total_bytes_wr_strm c1 + new_sz\<rparr>)
        else (po_flush ops dst_addr (lean_bytes e) (c_memmove dst_addr (lean_addr e) (lean_bytes e) m),
              c1\<lparr>total_bytes_wr := total_bytes_wr c1 + lean_bytes e\<rparr>))"

record snap_st =
  ss_mem :: "mach \<times> counters"
  applied_cnt :: nat
  entry_cnt :: nat
  total_proc :: nat

definition in_snap :: "addr \<Rightarrow> nat \<Rightarrow> log_entry_lean_t \<Rightarrow> bool" where
  "in_snap start diff e \<longleftrightarrow> usub64 (lean_addr e) start \<le> diff"

fun snap_loop :: "pmem_ops \<Rightarrow> addr \<Rightarrow> addr \<Rightarrow> addr \<Rightarrow> nat \<Rightarrow> log_entry_lean_t option \<Rightarrow> log_entry_lean_t list \<Rightarrow>
    snap_st \<Rightarrow> snap_st" where
  "snap_loop ops pm_back sa start diff prev [] s = s"
| "snap_loop ops pm_back sa start diff prev (e # es) s =
     (let skip_entry = (prev = Some e);
          s1 = (if in_snap start diff e then s\<lparr>entry_cnt := Suc (entry_cnt s)\<rparr> else s);
          s2 = (if in_snap start diff e \<and> skip_entry
                then s1\<lparr>applied_cnt := Suc (applied_cnt s1),
                        ss_mem := (let (m, c) = ss_mem s1 in (m, c\<lparr>dup_log_entries := Suc (dup_log_entries c)\<rparr>))\<rparr>
                else s1)
      in if in_snap start diff e \<and> \<not> skip_entry
         then let s3 = s2\<lparr>applied_cnt := Suc (applied_cnt s2), ss_mem := snap_copy ops pm_back sa e (ss_mem s2)\<rparr>
              in snap_loop ops pm_back sa start diff (Some e) es (s3\<lparr>total_proc := Suc (total_proc s3)\<rparr>)
         else if lean_addr e = 0 then s2
         else snap_loop ops pm_back sa start diff (Some e) es (s2\<lparr>total_proc := Suc (total_proc s2)\<rparr>))"

fun mergeable :: "log_entry_lean_t list \<Rightarrow> nat" where
  "mergeable (a # b # es) =
     (if lean_addr b = uadd64 (lean_addr a) (lean_bytes a) then 1 else 0) + mergeable (b # es)"
| "mergeable es = 0"

fun first_copy :: "'d senv \<Rightarrow> addr \<Rightarrow> (int \<times> fd_metadata_t) list \<Rightarrow> 'd cxl \<Rightarrow> 'd cxl res" where
  "first_copy se a [] g = Inr g"
| "first_copy se a ((fd, md) # es) g =
     (let erange = md_range md; fname = md_fpath md
      in if range_start erange \<le> a \<and> range_end erange > a
         then let off = usub64 (range_start erange) 0x10000000000;
                  dst = uadd64 (backing_file_start g) off
              in (case (if fname = [] then Some (usub64 (range_end erange) (range_start erange))
                        else se_file_size se fname) of
                    None \<Rightarrow> Inl Uncaught
                  | Some sz \<Rightarrow> Inr (upd_mch (c_memmove dst (range_start erange) sz) g))
         else first_copy se a es g)"

definition first_snapshot :: "'d senv \<Rightarrow> addr \<Rightarrow> 'd cxl \<Rightarrow> 'd cxl run" where
  "first_snapshot se a g =
     (if firstSnapshot g
      then bindX (Some (first_copy se a (mapped_addr g) (g\<lparr>firstSnapshot := False\<rparr>))) (\<lambda>g1.
             with_ctrlr (\<lambda>c. bindX (resize_cache (se_spdk se) (se_cenv se) (CACHE_SIZE div 2 ^ 12) c)
               (\<lambda>c'. ret (reset_stats c'))) g1)
      else ret g)"

definition snap_copy_log :: "'d senv \<Rightarrow> addr \<Rightarrow> nat \<Rightarrow> nat \<Rightarrow> 'd cxl \<Rightarrow> nat \<times> nat \<times> 'd cxl" where
  "snap_copy_log se a bytes t g =
     (let start = a; end' = uadd64 a bytes; diff = usub64 end' start;
          log_list0 = entries (tls_logs g ! t);
          log_list' = (if length log_list0 > 10 then se_sort se log_list0 else log_list0);
          c = ctrs g;
          c1 = c\<lparr>mergeable_entries := mergeable_entries c + mergeable log_list'\<rparr>;
          s = snap_loop (se_ops se) (backing_file_start g) (start_addr g) start diff None log_list'
                \<lparr>ss_mem = (mch g, c1), applied_cnt = 0, entry_cnt = 0, total_proc = 0\<rparr>;
          (m, c2) = ss_mem s;
          c3 = c2\<lparr>tx_log_count_dist := tx_log_count_dist c2 @ [total_proc s]\<rparr>
      in (applied_cnt s, entry_cnt s, g\<lparr>mch := m, ctrs := c3\<rparr>))"

definition snapshot_log :: "'d senv \<Rightarrow> addr \<Rightarrow> nat \<Rightarrow> nat \<Rightarrow> nat \<Rightarrow> 'd cxl \<Rightarrow> 'd cxl run" where
  "snapshot_log se a bytes flags t g =
     (let L = tls_logs g ! t; ops = se_ops se
      in guardX (log_area L \<noteq> 0) NullDeref
        (let m1 = st64 (log_offset_at (log_area L)) 0 (flush_all ops L (mch g))
         in bindX (Some (set_state ops L ACTIVE True m1)) (\<lambda>m2.
            guardX (\<not> (flags div MS_FORCE_SNAPSHOT mod 2 = 1 \<and> \<not> storeInstEnabled g)) ExitFailure
            (bindX (first_snapshot se a (g\<lparr>mch := m2\<rparr>)) (\<lambda>g1.
             let (applied, ents, g2) = snap_copy_log se a bytes t g1;
                 g3 = upd_mch (po_drain ops) g2
             in if applied = ents
                then bindX (Some (set_state ops L EMPTY False (mch g3))) (\<lambda>m4.
                       ret (clear_log t (g3\<lparr>mch := m4\<rparr>)))
                else Some (Inl ExitFailure))))))"

fun snapshot_logs :: "'d senv \<Rightarrow> addr \<Rightarrow> nat \<Rightarrow> nat \<Rightarrow> nat list \<Rightarrow> 'd cxl \<Rightarrow> 'd cxl run" where
  "snapshot_logs se a bytes flags [] g = ret g"
| "snapshot_logs se a bytes flags (t # ts) g =
     bindX (snapshot_log se a bytes flags t g) (snapshot_logs se a bytes flags ts)"

definition snapshot :: "'d senv \<Rightarrow> addr \<Rightarrow> nat \<Rightarrow> nat \<Rightarrow> 'd cxl \<Rightarrow> (int \<times> 'd cxl) run" where
  "snapshot se a bytes flags g0 =
     (let g = upd_ctrs (\<lambda>c. c\<lparr>n_snapshots := Suc (n_snapshots c)\<rparr>) g0
      in if nopMsync g then ret (0, g)
         else if storeInstEnabled g
         then bindX (snapshot_logs se a bytes flags [0..<length (tls_logs g)] g) (\<lambda>g'. ret (0, g'))
         else let g1 = upd_ctrs (\<lambda>c. c\<lparr>n_real_msyncs := Suc (n_real_msyncs c)\<rparr>) g
              in if se_msync se (a div 2 ^ 12 * 2 ^ 12) bytes flags = -1 then Some (Inl ExitFailure)
                 else ret (0, g1))"

subsection \<open>The widened block\<close>

lemma snap_align_to_le: "snap_align_to n \<le> 9"
  by (simp add: snap_align_to_def Let_def)

lemma pow_align_le: "(2 :: nat) ^ snap_align_to n \<le> 512"
  using power_increasing [OF snap_align_to_le [of n], of "2 :: nat"] by simp

lemma round_256: "n \<le> (n div 256 + (if n mod 256 \<noteq> 0 then 1 else 0)) * 256 \<and>
    (n div 256 + (if n mod 256 \<noteq> 0 then 1 else 0)) * 256 \<le> n + 255" for n :: nat
proof -
  define q r where "q = n div 256" and "r = n mod 256"
  have "n = q * 256 + r" "r < 256" by (simp_all add: q_def r_def)
  then show ?thesis unfolding q_def [symmetric] r_def [symmetric] by (cases "r = 0") auto
qed

lemma snap_block_spec:
  assumes "snap_block dst n = (d, k)"
  shows "d \<le> dst" and "dst + n \<le> d + k" and "d + k \<le> dst + n + 512" and "dst < d + 512"
    and "d = dst div 2 ^ snap_align_to n * 2 ^ snap_align_to n"
proof -
  let ?p = "(2 :: nat) ^ snap_align_to n"
  have p: "0 < ?p" "?p \<le> 512" by (simp_all add: pow_align_le)
  have m: "dst mod ?p < ?p" "dst = dst div ?p * ?p + dst mod ?p" using p by (simp, simp only: div_mult_mod_eq)
  have d: "d = (if dst mod ?p = 0 then dst else dst div ?p * ?p)"
    and k: "k = (if dst = d then if n \<le> ?p then ?p else (n div 256 + (if n mod 256 \<noteq> 0 then 1 else 0)) * 256
                 else n + (dst - d))"
    using assms by (auto simp: snap_block_def Let_def)
  show dd: "d = dst div ?p * ?p" using d m by auto
  then show "d \<le> dst" using m by linarith
  show "dst < d + 512" using dd m p by linarith
  show "dst + n \<le> d + k" "d + k \<le> dst + n + 512"
    using k round_256 [of n] p \<open>d \<le> dst\<close> by auto
qed

lemma snap_block_base:
  assumes "snap_block dst n = (d, k)" "pb mod 512 = 0" "pb \<le> dst"
  shows "pb \<le> d"
proof -
  let ?p = "(2 :: nat) ^ snap_align_to n"
  have "?p dvd 512"
    using le_imp_power_dvd [OF snap_align_to_le [of n], of "2 :: nat"] by simp
  then have "?p dvd pb" using assms(2) by (meson dvd_trans mod_0_imp_dvd)
  then have "pb div ?p * ?p = pb" by simp
  moreover have "pb div ?p * ?p \<le> dst div ?p * ?p" using assms(3) by (simp add: div_le_mono)
  ultimately show ?thesis using snap_block_spec(5) [OF assms(1)] by simp
qed

subsection \<open>Working copy and backing copy\<close>

text \<open>
  \<open>layout\<close>: the working range starts at \<open>sa\<close>, its image at \<open>pb\<close>, which is aligned to 512 bytes (it is a
  mapping); both are \<open>len\<close> bytes long and are followed by the slack that a widened block may touch.
  \<open>H\<close> are the addresses of the log headers, which are in neither range.
\<close>

definition layout :: "(addr \<Rightarrow> bool) \<Rightarrow> addr \<Rightarrow> addr \<Rightarrow> nat \<Rightarrow> bool" where
  "layout H sa pb len \<longleftrightarrow> pb mod 512 = 0 \<and> sa + len + 512 < 2 ^ 64 \<and> pb + len + 512 < 2 ^ 64 \<and>
     (sa + len + 512 \<le> pb \<or> pb + len + 512 \<le> sa) \<and>
     (\<forall>k<len + 512. \<not> H (sa + k) \<and> \<not> H (pb + k))"

definition in_work :: "addr \<Rightarrow> nat \<Rightarrow> log_entry_lean_t \<Rightarrow> bool" where
  "in_work sa len e \<longleftrightarrow> sa \<le> lean_addr e \<and> lean_addr e + lean_bytes e \<le> sa + len \<and> 0 < lean_addr e"

definition mirrored :: "mem \<Rightarrow> addr \<Rightarrow> addr \<Rightarrow> nat \<Rightarrow> bool" where
  "mirrored m sa pb k \<longleftrightarrow> m (pb + k) = m (sa + k)"

text \<open>\<open>copies sa pb lo hi m m'\<close>: the bytes at offsets \<open>lo\<close> to \<open>hi\<close> were copied, and nothing else changed.\<close>

definition copies :: "addr \<Rightarrow> addr \<Rightarrow> nat \<Rightarrow> nat \<Rightarrow> mem \<Rightarrow> mem \<Rightarrow> bool" where
  "copies sa pb lo hi m m' \<longleftrightarrow>
     (\<forall>x. m' x = (if pb + lo \<le> x \<and> x < pb + hi then m (sa + (x - pb)) else m x))"

lemma copies_wr:
  assumes "pb \<le> d" "d + k = pb + hi" "lo = d - pb" "s = sa + lo"
  shows "copies sa pb lo hi m (wr m d (rd m s k))"
  unfolding copies_def
proof
  fix x
  show "wr m d (rd m s k) x = (if pb + lo \<le> x \<and> x < pb + hi then m (sa + (x - pb)) else m x)"
  proof (cases "inr d k x")
    case True
    then have "s + (x - d) = sa + (x - pb)" using assms by (auto simp: inr_def)
    then show ?thesis using True assms by (auto simp: wr_def inr_def)
  next
    case False
    then show ?thesis using assms by (auto simp: wr_def inr_def)
  qed
qed

lemma snap_copy_copies:
  assumes ops: "pmem_ops_ok ops" and lay: "layout H sa pb len" and e: "in_work sa len e"
  obtains lo hi where "copies sa pb lo hi (cpu m) (cpu (fst (snap_copy ops pb sa e (m, c))))"
    and "lo \<le> lean_addr e - sa" and "lean_addr e - sa + lean_bytes e \<le> hi" and "hi \<le> len + 512"
    and "\<And>x. pb + lo \<le> x \<Longrightarrow> x < pb + hi \<Longrightarrow> pending (fst (snap_copy ops pb sa e (m, c))) x"
    and "\<And>x. pending m x \<Longrightarrow> pending (fst (snap_copy ops pb sa e (m, c))) x"
proof -
  let ?a = "lean_addr e" and ?n = "lean_bytes e"
  have L: "sa + len + 512 < 2 ^ 64" "pb + len + 512 < 2 ^ 64" "pb mod 512 = 0" using lay by (auto simp: layout_def)
  have E: "sa \<le> ?a" "?a + ?n \<le> sa + len" using e by (auto simp: in_work_def)
  let ?dst = "pb + (?a - sa)"
  have off: "usub64 ?a sa = ?a - sa" using E L by (simp add: usub64_ge)
  have dst: "uadd64 pb (usub64 ?a sa) = ?dst" unfolding off using E L by (simp add: uadd64_small)
  show thesis
  proof (cases "8 \<le> ?n")
    case True
    obtain d k where dk: "snap_block ?dst ?n = (d, k)" by fastforce
    note sp = snap_block_spec [OF dk] and base = snap_block_base [OF dk L(3)]
    have pbd: "pb \<le> d" using base by simp
    have dlt: "d - pb + sa < 2 ^ 64" "d < 2 ^ 64" using sp(1) E L by linarith+
    have src: "uadd64 (usub64 d pb) sa = sa + (d - pb)"
      using pbd dlt by (simp add: usub64_ge uadd64_small)
    let ?m' = "po_streaming_wr ops d (rd (cpu m) (sa + (d - pb)) k) m"
    have m': "fst (snap_copy ops pb sa e (m, c)) = ?m'"
      using True dst dk src by (simp add: snap_copy_def Let_def)
    show thesis
    proof (rule that [of "d - pb" "d + k - pb"])
      show "copies sa pb (d - pb) (d + k - pb) (cpu m) (cpu (fst (snap_copy ops pb sa e (m, c))))"
        unfolding m' pmem_cpu(3) [OF ops] by (rule copies_wr) (use pbd in auto)
      show "d - pb \<le> ?a - sa" "?a - sa + ?n \<le> d + k - pb" "d + k - pb \<le> len + 512"
        using sp(1-3) pbd E by linarith+
      show "pending (fst (snap_copy ops pb sa e (m, c))) x" if "pb + (d - pb) \<le> x" "x < pb + (d + k - pb)" for x
        unfolding m' pending_def using that pbd by (auto simp: inr_def intro!: pmem_inflight(2) [OF ops])
      show "pending (fst (snap_copy ops pb sa e (m, c))) x" if "pending m x" for x
        unfolding m' using that pmem_inflight(2) [OF ops]
        by (auto simp: pending_def durable_def pmem_cpu [OF ops] pmem_media [OF ops] wr_apply_out)
    qed
  next
    case False
    let ?m' = "po_flush ops ?dst ?n (c_memmove ?dst ?a ?n m)"
    have m': "fst (snap_copy ops pb sa e (m, c)) = ?m'"
      using False dst by (simp add: snap_copy_def Let_def)
    show thesis
    proof (rule that [of "?a - sa" "?a - sa + ?n"])
      show "copies sa pb (?a - sa) (?a - sa + ?n) (cpu m) (cpu (fst (snap_copy ops pb sa e (m, c))))"
        unfolding m' pmem_cpu(1) [OF ops] cpu_c_memmove by (rule copies_wr) (use E in auto)
      show "?a - sa + ?n \<le> len + 512" using E by simp
      have new: "in_lines ?dst ?n x" if "inr ?dst ?n x" for x using that by (rule inr_in_lines)
      show "pending (fst (snap_copy ops pb sa e (m, c))) x" if "pb + (?a - sa) \<le> x" "x < pb + (?a - sa + ?n)" for x
        unfolding m' by (rule pending_flush [OF ops]) (use that new in \<open>auto simp: inr_def\<close>)
      show "pending (fst (snap_copy ops pb sa e (m, c))) x" if "pending m x" for x
        unfolding m' c_memmove_def
        by (rule pending_flush [OF ops], cases "inr ?dst ?n x")
          (use that new pending_store [of ?dst "rd (cpu m) ?a ?n" x m] in auto)
    qed simp_all
  qed
qed

text \<open>
  \<open>syncs\<close>: outside the backing range and the log headers nothing changed, and every byte of the backing range either kept its
  value or got that of the working copy.  \<open>entry_done\<close>: the bytes of an entry are mirrored and pending.
\<close>

definition syncs :: "(addr \<Rightarrow> bool) \<Rightarrow> addr \<Rightarrow> addr \<Rightarrow> nat \<Rightarrow> mach \<Rightarrow> mach \<Rightarrow> bool" where
  "syncs H sa pb len m m' \<longleftrightarrow>
     (\<forall>x. \<not> H x \<and> (x < pb \<or> pb + len + 512 \<le> x) \<longrightarrow> cpu m' x = cpu m x) \<and>
     (\<forall>k<len + 512. cpu m' (pb + k) = cpu m (pb + k) \<or> cpu m' (pb + k) = cpu m (sa + k)) \<and>
     (\<forall>x. \<not> H x \<and> pending m x \<longrightarrow> pending m' x)"

definition entry_done :: "addr \<Rightarrow> addr \<Rightarrow> log_entry_lean_t \<Rightarrow> mach \<Rightarrow> bool" where
  "entry_done sa pb e m \<longleftrightarrow>
     (\<forall>k. lean_addr e - sa \<le> k \<and> k < lean_addr e - sa + lean_bytes e \<longrightarrow>
        mirrored (cpu m) sa pb k \<and> pending m (pb + k))"

lemma layout_work_outside:
  "layout H sa pb len \<Longrightarrow> k < len + 512 \<Longrightarrow> \<not> H (sa + k) \<and> (sa + k < pb \<or> pb + len + 512 \<le> sa + k)"
  by (auto simp: layout_def)

lemma syncs_refl: "syncs H sa pb len m m"
  by (simp add: syncs_def)

lemma syncs_work: "layout H sa pb len \<Longrightarrow> syncs H sa pb len m m' \<Longrightarrow> k < len + 512 \<Longrightarrow> cpu m' (sa + k) = cpu m (sa + k)"
  unfolding syncs_def by (drule (1) layout_work_outside) blast

lemma syncs_trans:
  assumes "layout H sa pb len" "syncs H sa pb len m m'" "syncs H sa pb len m' m''"
  shows "syncs H sa pb len m m''"
proof -
  have "cpu m'' (pb + k) = cpu m (pb + k) \<or> cpu m'' (pb + k) = cpu m (sa + k)" if "k < len + 512" for k
    using assms(2,3) syncs_work [OF assms(1,2) that] that unfolding syncs_def by metis
  then show ?thesis using assms(2,3) by (simp add: syncs_def)
qed

lemma syncs_mirrored:
  assumes "layout H sa pb len" "syncs H sa pb len m m'" "k < len + 512" "mirrored (cpu m) sa pb k"
  shows "mirrored (cpu m') sa pb k"
  using assms syncs_work [OF assms(1-3)] by (auto simp: mirrored_def syncs_def)

lemma syncs_entry_done:
  assumes "layout H sa pb len" "syncs H sa pb len m m'" "in_work sa len e" "entry_done sa pb e m"
  shows "entry_done sa pb e m'"
  unfolding entry_done_def
proof (intro allI impI)
  fix k assume k: "lean_addr e - sa \<le> k \<and> k < lean_addr e - sa + lean_bytes e"
  then have lt: "k < len + 512" using assms(3) by (auto simp: in_work_def)
  have "\<not> H (pb + k)" using assms(1) lt by (simp add: layout_def)
  then show "mirrored (cpu m') sa pb k \<and> pending m' (pb + k)"
    using assms(2,4) k syncs_mirrored [OF assms(1,2) lt] by (auto simp: entry_done_def syncs_def)
qed

lemma snap_copy_syncs:
  assumes ops: "pmem_ops_ok ops" and lay: "layout H sa pb len" and e: "in_work sa len e"
  shows "syncs H sa pb len m (fst (snap_copy ops pb sa e (m, c)))"
    and "entry_done sa pb e (fst (snap_copy ops pb sa e (m, c)))"
proof -
  let ?m' = "fst (snap_copy ops pb sa e (m, c))"
  obtain lo hi where cp: "copies sa pb lo hi (cpu m) (cpu ?m')"
    and lo: "lo \<le> lean_addr e - sa" and hi: "lean_addr e - sa + lean_bytes e \<le> hi" "hi \<le> len + 512"
    and new: "\<And>x. pb + lo \<le> x \<Longrightarrow> x < pb + hi \<Longrightarrow> pending ?m' x"
    and old: "\<And>x. pending m x \<Longrightarrow> pending ?m' x"
    using snap_copy_copies [OF ops lay e, of m c] by blast
  show s: "syncs H sa pb len m ?m'"
    using cp hi(2) old by (auto simp: syncs_def copies_def)
  show "entry_done sa pb e ?m'"
    unfolding entry_done_def
  proof (intro allI impI conjI)
    fix k assume k: "lean_addr e - sa \<le> k \<and> k < lean_addr e - sa + lean_bytes e"
    have "cpu ?m' (pb + k) = cpu m (sa + k)" using cp k lo hi by (auto simp: copies_def)
    then show "mirrored (cpu ?m') sa pb k"
      using syncs_work [OF lay s, of k] k hi by (simp add: mirrored_def)
    show "pending ?m' (pb + k)" by (rule new) (use k lo hi in auto)
  qed
qed

subsection \<open>The copy loop\<close>

lemma snap_loop_counts:
  "applied_cnt s = entry_cnt s \<Longrightarrow>
     applied_cnt (snap_loop ops pb sa start diff prev es s) = entry_cnt (snap_loop ops pb sa start diff prev es s)"
  by (induction es arbitrary: prev s) (auto simp: Let_def)

lemma snap_loop_syncs:
  assumes ops: "pmem_ops_ok ops" and lay: "layout H sa pb len"
    and "\<And>e. e \<in> set es \<Longrightarrow> in_work sa len e"
    and "\<And>p. prev = Some p \<Longrightarrow> in_snap start diff p \<Longrightarrow> in_work sa len p \<and> entry_done sa pb p (fst (ss_mem s))"
  shows "syncs H sa pb len (fst (ss_mem s)) (fst (ss_mem (snap_loop ops pb sa start diff prev es s))) \<and>
    (\<forall>e\<in>set es. in_snap start diff e \<longrightarrow>
       entry_done sa pb e (fst (ss_mem (snap_loop ops pb sa start diff prev es s))))"
  using assms(3,4)
proof (induction es arbitrary: prev s)
  case Nil
  then show ?case by (simp add: syncs_refl)
next
  case (Cons e es)
  have e: "in_work sa len e" and es: "\<And>x. x \<in> set es \<Longrightarrow> in_work sa len x" using Cons.prems(1) by auto
  have nz: "lean_addr e \<noteq> 0" using e by (simp add: in_work_def)
  obtain m c where mc: "ss_mem s = (m, c)" by fastforce
  define s' where "s' = (if in_snap start diff e \<and> prev \<noteq> Some e
     then s\<lparr>entry_cnt := Suc (entry_cnt s), applied_cnt := Suc (applied_cnt s),
            ss_mem := snap_copy ops pb sa e (ss_mem s), total_proc := Suc (total_proc s)\<rparr>
     else if in_snap start diff e
     then s\<lparr>entry_cnt := Suc (entry_cnt s), applied_cnt := Suc (applied_cnt s),
            ss_mem := (m, c\<lparr>dup_log_entries := Suc (dup_log_entries c)\<rparr>), total_proc := Suc (total_proc s)\<rparr>
     else s\<lparr>total_proc := Suc (total_proc s)\<rparr>)"
  have step: "snap_loop ops pb sa start diff prev (e # es) s = snap_loop ops pb sa start diff (Some e) es s'"
    using nz mc by (auto simp: s'_def Let_def)
  have st: "syncs H sa pb len (fst (ss_mem s)) (fst (ss_mem s'))"
    using snap_copy_syncs(1) [OF ops lay e, of m c] mc by (auto simp: s'_def syncs_refl)
  have done': "entry_done sa pb e (fst (ss_mem s'))" if "in_snap start diff e"
    using that snap_copy_syncs(2) [OF ops lay e, of m c] Cons.prems(2) [of e] mc by (auto simp: s'_def)
  have IH: "syncs H sa pb len (fst (ss_mem s')) (fst (ss_mem (snap_loop ops pb sa start diff (Some e) es s'))) \<and>
    (\<forall>x\<in>set es. in_snap start diff x \<longrightarrow>
       entry_done sa pb x (fst (ss_mem (snap_loop ops pb sa start diff (Some e) es s'))))"
    by (rule Cons.IH) (use es e done' in auto)
  then show ?case
    unfolding step using syncs_trans [OF lay st] syncs_entry_done [OF lay _ e done'] by auto
qed

subsection \<open>One log\<close>

lemma syncs_header:
  assumes "\<And>x. \<not> inr la 24 x \<Longrightarrow> cpu m' x = cpu m x" and "\<And>x. \<not> inr la 24 x \<Longrightarrow> pending m x \<Longrightarrow> pending m' x"
    and "\<And>x. inr la 24 x \<Longrightarrow> H x" and "layout H sa pb len"
  shows "syncs H sa pb len m m'"
  unfolding syncs_def using assms by (auto simp: layout_def)

lemma durable_pending: "durable m x \<Longrightarrow> pending m x"
  by (simp add: pending_def)

lemma flush_all_frame:
  "pmem_ops_ok ops \<Longrightarrow> cpu (flush_all ops L m) = cpu m"
  "pmem_ops_ok ops \<Longrightarrow> pending m x \<Longrightarrow> pending (flush_all ops L m) x"
  by (auto simp: flush_all_def Let_def pmem_cpu intro: pending_flush)

lemma st64_pending: "\<not> inr a 8 x \<Longrightarrow> pending m x \<Longrightarrow> pending (st64 a v m) x"
  unfolding st64_def by (rule pending_store) simp_all

lemma st64_outside: "\<not> inr a 8 x \<Longrightarrow> cpu (st64 a v m) x = cpu m x"
  by (simp add: wr_apply_out)

lemma set_state_frame:
  assumes "pmem_ops_ok ops" "set_state ops L s w m = Inr m'" "\<not> inr (log_area L) 24 x"
  shows "cpu m' x = cpu m x" and "pending m x \<Longrightarrow> pending m' x"
proof -
  have o8: "\<not> inr (log_area L) 8 x" using assms(3) by (auto simp: inr_def)
  show "cpu m' x = cpu m x"
    using assms o8 by (auto simp: set_state_def guardR_def Let_def pmem_cpu wr_apply_out log_state_at_def split: if_splits)
  assume p: "pending m x"
  have "pending (po_flush ops (log_area L) log_hdr_sz (st64 (log_area L) (state_val s) m)) x"
    by (rule pending_flush [OF assms(1)]) (use st64_pending [OF o8 p] in simp)
  moreover have "pending (po_streaming_wr ops (log_area L) (le_bytes 8 (state_val s)) m) x"
    using p o8 pmem_inflight(2) [OF assms(1)]
    by (auto simp: pending_def durable_def pmem_cpu [OF assms(1)] pmem_media [OF assms(1)] wr_apply_out)
  ultimately show "pending m' x"
    using assms(1,2) by (auto simp: set_state_def guardR_def Let_def log_state_at_def split: if_splits
        intro: durable_pending pending_drain)
qed

lemma clear_log_frame:
  assumes "\<not> inr (log_area (tls_logs g ! t)) 24 x"
  shows "cpu (mch (clear_log t g)) x = cpu (mch g) x"
    and "pending (mch g) x \<Longrightarrow> pending (mch (clear_log t g)) x"
  using assms
  by (auto simp: clear_log_def Let_def set_log_def log_layout_defs inr_def wr_apply_out intro!: st64_pending)

definition entry_safe :: "addr \<Rightarrow> addr \<Rightarrow> log_entry_lean_t \<Rightarrow> mach \<Rightarrow> bool" where
  "entry_safe sa pb e m \<longleftrightarrow>
     (\<forall>k. lean_addr e - sa \<le> k \<and> k < lean_addr e - sa + lean_bytes e \<longrightarrow>
        mirrored (cpu m) sa pb k \<and> durable m (pb + k))"

lemma set_state_durable:
  assumes "pmem_ops_ok ops" "set_state ops L s w m = Inr m'" "\<not> inr (log_area L) 24 x" "pending m x"
  shows "durable m' x"
proof -
  have o8: "\<not> inr (log_area L) 8 x" using assms(3) by (auto simp: inr_def)
  have "pending (po_flush ops (log_area L) log_hdr_sz (st64 (log_area L) (state_val s) m)) x"
    by (rule pending_flush [OF assms(1)]) (use st64_pending [OF o8 assms(4)] in simp)
  moreover have "pending (po_streaming_wr ops (log_area L) (le_bytes 8 (state_val s)) m) x"
    using assms(4) o8 pmem_inflight(2) [OF assms(1)]
    by (auto simp: pending_def durable_def pmem_cpu [OF assms(1)] pmem_media [OF assms(1)] wr_apply_out)
  ultimately show ?thesis
    using assms(1,2) by (auto simp: set_state_def guardR_def Let_def log_state_at_def split: if_splits
        intro: pending_drain)
qed

lemma durable_store: "\<not> inr a (length bs) x \<Longrightarrow> durable m x \<Longrightarrow> durable (store a bs m) x"
  by (simp add: durable_def media_store wr_apply_out)

lemma clear_log_durable:
  assumes "\<not> inr (log_area (tls_logs g ! t)) 24 x" and "durable (mch g) x"
  shows "durable (mch (clear_log t g)) x"
  using assms
  by (auto simp: clear_log_def Let_def set_log_def log_layout_defs inr_def st64_def intro!: durable_store)

definition cleared :: "Log \<Rightarrow> Log" where
  "cleared L = L\<lparr>last_flush_offset := 0, last_log := lean_zero, entries := []\<rparr>"

definition sort_ok :: "(log_entry_lean_t list \<Rightarrow> log_entry_lean_t list) \<Rightarrow> bool" where
  "sort_ok srt \<longleftrightarrow> (\<forall>es. mset (srt es) = mset es \<and> sorted (map lean_addr (srt es)))"

lemma sort_ok_set: "sort_ok srt \<Longrightarrow> set (srt es) = set es"
  unfolding sort_ok_def using mset_eq_setD by blast

lemma set_state_runs: "log_area L \<noteq> 0 \<Longrightarrow> \<exists>m'. set_state ops L s w m = Inr m'"
  by (simp add: set_state_def Let_def)

lemma snap_copy_log_syncs:
  assumes "pmem_ops_ok (se_ops se)" "sort_ok (se_sort se)"
    and "layout H (start_addr g) (backing_file_start g) len"
    and "\<And>e. e \<in> set (entries (tls_logs g ! t)) \<Longrightarrow> in_work (start_addr g) len e"
  shows "\<exists>k m c. snap_copy_log se a bytes t g = (k, k, g\<lparr>mch := m, ctrs := c\<rparr>) \<and>
    syncs H (start_addr g) (backing_file_start g) len (mch g) m \<and>
    (\<forall>e\<in>set (entries (tls_logs g ! t)). in_snap a (usub64 (uadd64 a bytes) a) e \<longrightarrow>
       entry_done (start_addr g) (backing_file_start g) e m)"
proof -
  let ?es = "entries (tls_logs g ! t)" and ?diff = "usub64 (uadd64 a bytes) a"
  let ?l = "if length ?es > 10 then se_sort se ?es else ?es"
  let ?ini = "\<lparr>ss_mem = (mch g, (ctrs g)\<lparr>mergeable_entries := mergeable_entries (ctrs g) + mergeable ?l\<rparr>),
              applied_cnt = 0, entry_cnt = 0, total_proc = 0\<rparr>"
  let ?fin = "snap_loop (se_ops se) (backing_file_start g) (start_addr g) a ?diff None ?l ?ini"
  obtain m c where mc: "ss_mem ?fin = (m, c)" by fastforce
  have set: "set ?l = set ?es" using sort_ok_set [OF assms(2)] by simp
  have cnt: "applied_cnt ?fin = entry_cnt ?fin" by (rule snap_loop_counts) simp
  have sy: "syncs H (start_addr g) (backing_file_start g) len (fst (ss_mem ?ini)) (fst (ss_mem ?fin)) \<and>
      (\<forall>e\<in>set ?l. in_snap a ?diff e \<longrightarrow> entry_done (start_addr g) (backing_file_start g) e (fst (ss_mem ?fin)))"
    by (rule snap_loop_syncs [OF assms(1,3)]) (use assms(4) set in auto)
  have "snap_copy_log se a bytes t g = (entry_cnt ?fin, entry_cnt ?fin,
      g\<lparr>mch := m, ctrs := c\<lparr>tx_log_count_dist := tx_log_count_dist c @ [total_proc ?fin]\<rparr>\<rparr>)"
    using mc cnt by (simp add: snap_copy_log_def Let_def)
  moreover have "syncs H (start_addr g) (backing_file_start g) len (mch g) m" using sy mc by simp
  moreover have "\<forall>e\<in>set ?es. in_snap a ?diff e \<longrightarrow> entry_done (start_addr g) (backing_file_start g) e m"
    using sy mc set by auto
  ultimately show ?thesis by blast
qed

definition snap_diff :: "addr \<Rightarrow> nat \<Rightarrow> nat" where
  "snap_diff a bytes = usub64 (uadd64 a bytes) a"

definition snap_pre :: "'d senv \<Rightarrow> (addr \<Rightarrow> bool) \<Rightarrow> nat \<Rightarrow> nat \<Rightarrow> 'd cxl \<Rightarrow> bool" where
  "snap_pre se H len t g \<longleftrightarrow>
     t < length (tls_logs g) \<and> log_area (tls_logs g ! t) \<noteq> 0 \<and>
     (\<forall>x. inr (log_area (tls_logs g ! t)) 24 x \<longrightarrow> H x) \<and>
     (\<forall>e\<in>set (entries (tls_logs g ! t)). in_work (start_addr g) len e)"

definition snap_env_ok :: "'d senv \<Rightarrow> (addr \<Rightarrow> bool) \<Rightarrow> nat \<Rightarrow> 'd cxl \<Rightarrow> bool" where
  "snap_env_ok se H len g \<longleftrightarrow>
     pmem_ops_ok (se_ops se) \<and> sort_ok (se_sort se) \<and> layout H (start_addr g) (backing_file_start g) len \<and>
     \<not> firstSnapshot g \<and> storeInstEnabled g"

lemma entry_done_safe:
  assumes lay: "layout H sa pb len" and s: "syncs H sa pb len m m'" and e: "in_work sa len e"
    and d: "\<And>x. \<not> H x \<Longrightarrow> pending m x \<Longrightarrow> durable m' x" and dn: "entry_done sa pb e m"
  shows "entry_safe sa pb e m'"
  unfolding entry_safe_def
proof (intro allI impI)
  fix j assume j: "lean_addr e - sa \<le> j \<and> j < lean_addr e - sa + lean_bytes e"
  then have lt: "j < len + 512" using e by (auto simp: in_work_def)
  have "mirrored (cpu m) sa pb j" "pending m (pb + j)" using dn j by (auto simp: entry_done_def)
  moreover have "\<not> H (pb + j)" using lay lt by (simp add: layout_def)
  ultimately show "mirrored (cpu m') sa pb j \<and> durable m' (pb + j)"
    using d syncs_mirrored [OF lay s lt] by blast
qed

lemma snap_begin:
  assumes ops: "pmem_ops_ok ops" and lay: "layout H sa pb len" and la: "log_area L \<noteq> 0"
    and H: "\<And>x. inr (log_area L) 24 x \<Longrightarrow> H x"
  shows "\<exists>m'. set_state ops L ACTIVE True (st64 (log_offset_at (log_area L)) 0 (flush_all ops L m)) = Inr m' \<and>
    syncs H sa pb len m m'"
proof -
  define m1 where "m1 = st64 (log_offset_at (log_area L)) 0 (flush_all ops L m)"
  have f1: "cpu m1 x = cpu m x" "pending m x \<Longrightarrow> pending m1 x" if "\<not> inr (log_area L) 24 x" for x
    using that flush_all_frame [OF ops] unfolding m1_def
    by (auto simp: wr_def inr_def log_offset_at_def intro!: st64_pending)
  obtain m' where m': "set_state ops L ACTIVE True m1 = Inr m'" using set_state_runs [OF la] by blast
  have "syncs H sa pb len m m'"
    by (rule syncs_header [OF _ _ H lay]) (use f1 set_state_frame [OF ops m'] in auto)
  then show ?thesis using m' m1_def by blast
qed

lemma snap_finish:
  assumes ops: "pmem_ops_ok (se_ops se)" and lay: "layout H sa pb len" and la: "log_area (tls_logs g ! t) \<noteq> 0"
    and H: "\<And>x. inr (log_area (tls_logs g ! t)) 24 x \<Longrightarrow> H x"
  shows "\<exists>m'. set_state (se_ops se) (tls_logs g ! t) EMPTY False (po_drain (se_ops se) (mch g)) = Inr m' \<and>
    syncs H sa pb len (mch g) (mch (clear_log t (g\<lparr>mch := m'\<rparr>))) \<and>
    (\<forall>x. \<not> H x \<and> pending (mch g) x \<longrightarrow> durable (mch (clear_log t (g\<lparr>mch := m'\<rparr>))) x)"
proof -
  let ?la = "log_area (tls_logs g ! t)"
  obtain m' where m': "set_state (se_ops se) (tls_logs g ! t) EMPTY False (po_drain (se_ops se) (mch g)) = Inr m'"
    using set_state_runs [OF la] by blast
  let ?g' = "g\<lparr>mch := m'\<rparr>" and ?m5 = "mch (clear_log t (g\<lparr>mch := m'\<rparr>))"
  have c: "cpu ?m5 x = cpu (mch g) x" if "\<not> inr ?la 24 x" for x
    using clear_log_frame(1) [of ?g' t x] set_state_frame(1) [OF ops m' that] that
    by (simp add: pmem_cpu [OF ops])
  have d: "durable ?m5 x" if "\<not> H x" "pending (mch g) x" for x
  proof -
    have nh: "\<not> inr ?la 24 x" using H that by blast
    have "pending (po_drain (se_ops se) (mch g)) x" by (intro durable_pending pending_drain ops that)
    then show ?thesis using clear_log_durable [of ?g' t x] set_state_durable [OF ops m' nh] nh by simp
  qed
  have "syncs H sa pb len (mch g) ?m5"
    unfolding syncs_def using c durable_pending [OF d] H lay by (auto simp: layout_def)
  then show ?thesis using m' d by blast
qed

lemma snapshot_log_syncs:
  assumes env: "snap_env_ok se H len g" and pre: "snap_pre se H len t g"
  shows "\<exists>m c. snapshot_log se a bytes flags t g =
       ret (g\<lparr>mch := m, ctrs := c, tls_logs := (tls_logs g)[t := cleared (tls_logs g ! t)]\<rparr>) \<and>
    syncs H (start_addr g) (backing_file_start g) len (mch g) m \<and>
    (\<forall>x. \<not> H x \<and> pending (mch g) x \<longrightarrow> durable m x) \<and>
    (\<forall>e\<in>set (entries (tls_logs g ! t)). in_snap a (usub64 (uadd64 a bytes) a) e \<longrightarrow>
       entry_safe (start_addr g) (backing_file_start g) e m)"
proof -
  let ?L = "tls_logs g ! t" and ?la = "log_area (tls_logs g ! t)" and ?ops = "se_ops se"
  let ?sa = "start_addr g" and ?pb = "backing_file_start g"
  have ops: "pmem_ops_ok ?ops" and srt: "sort_ok (se_sort se)" and lay: "layout H ?sa ?pb len"
    and fs: "\<not> firstSnapshot g" and si: "storeInstEnabled g" using env by (auto simp: snap_env_ok_def)
  have la: "?la \<noteq> 0" and H: "\<And>x. inr ?la 24 x \<Longrightarrow> H x"
    and work: "\<And>e. e \<in> set (entries ?L) \<Longrightarrow> in_work ?sa len e"
    using pre by (auto simp: snap_pre_def)
  obtain m2 where m2: "set_state ?ops ?L ACTIVE True (st64 (log_offset_at ?la) 0 (flush_all ?ops ?L (mch g))) = Inr m2"
    and s12: "syncs H ?sa ?pb len (mch g) m2" using snap_begin [OF ops lay la H] by blast
  define g1 where "g1 = g\<lparr>mch := m2\<rparr>"
  have g1: "start_addr g1 = ?sa" "backing_file_start g1 = ?pb" "tls_logs g1 = tls_logs g" "mch g1 = m2"
    by (simp_all add: g1_def)
  obtain k m3 c where cp: "snap_copy_log se a bytes t g1 = (k, k, g1\<lparr>mch := m3, ctrs := c\<rparr>)"
    and s23: "syncs H ?sa ?pb len m2 m3"
    and dn: "\<forall>e\<in>set (entries ?L). in_snap a (usub64 (uadd64 a bytes) a) e \<longrightarrow> entry_done ?sa ?pb e m3"
    using snap_copy_log_syncs [OF ops srt, of H g1 len t a bytes, unfolded g1, OF lay work] by blast
  define g3 where "g3 = g1\<lparr>mch := m3, ctrs := c\<rparr>"
  have g3: "tls_logs g3 = tls_logs g" "mch g3 = m3" by (simp_all add: g3_def g1_def)
  obtain m4 where m4: "set_state ?ops ?L EMPTY False (po_drain ?ops m3) = Inr m4"
    and s35: "syncs H ?sa ?pb len m3 (mch (clear_log t (g3\<lparr>mch := m4\<rparr>)))"
    and dr: "\<forall>x. \<not> H x \<and> pending m3 x \<longrightarrow> durable (mch (clear_log t (g3\<lparr>mch := m4\<rparr>))) x"
    using snap_finish [OF ops lay, of g3 t, unfolded g3, OF la H] by blast
  define m5 where "m5 = mch (clear_log t (g3\<lparr>mch := m4\<rparr>))"
  have run: "snapshot_log se a bytes flags t g =
      ret (g\<lparr>mch := m5, ctrs := c, tls_logs := (tls_logs g)[t := cleared ?L]\<rparr>)"
    using la si fs m2 cp m4
    by (simp add: snapshot_log_def Let_def first_snapshot_def g1_def [symmetric] upd_mch_def)
      (cases g, simp add: m5_def g3_def g1_def clear_log_def set_log_def cleared_def lean_zero_def Let_def)
  have s: "syncs H ?sa ?pb len (mch g) m5"
    unfolding m5_def by (rule syncs_trans [OF lay s12 syncs_trans [OF lay s23 s35]])
  have "entry_safe ?sa ?pb e m5" if e: "e \<in> set (entries ?L)" "in_snap a (usub64 (uadd64 a bytes) a) e" for e
    using entry_done_safe [OF lay s35 work [OF e(1)]] dn e dr unfolding m5_def by blast
  moreover have "durable m5 x" if "\<not> H x" "pending (mch g) x" for x
    using dr that s12 s23 by (auto simp: syncs_def m5_def)
  ultimately show ?thesis using run s by blast
qed

lemma entry_safe_syncs:
  assumes lay: "layout H sa pb len" and s: "syncs H sa pb len m m'" and e: "in_work sa len e"
    and d: "\<And>x. \<not> H x \<Longrightarrow> pending m x \<Longrightarrow> durable m' x" and safe: "entry_safe sa pb e m"
  shows "entry_safe sa pb e m'"
  by (rule entry_done_safe [OF lay s e])
    (use d safe in \<open>auto simp: entry_safe_def entry_done_def intro: durable_pending\<close>)

definition same_frame :: "'d cxl \<Rightarrow> 'd cxl \<Rightarrow> bool" where
  "same_frame g g' \<longleftrightarrow> g' = g\<lparr>mch := mch g', ctrs := ctrs g', tls_logs := tls_logs g'\<rparr>"

lemma same_frame_refl: "same_frame g g"
  by (simp add: same_frame_def)

lemma same_frame_upd: "same_frame g (g\<lparr>mch := m, ctrs := c, tls_logs := Ls\<rparr>)"
  by (simp add: same_frame_def)

lemma same_frame_trans: "same_frame g g1 \<Longrightarrow> same_frame g1 g2 \<Longrightarrow> same_frame g g2"
  by (cases g, cases g1, cases g2) (simp add: same_frame_def)

text \<open>What holds after the logs \<open>ts\<close> have been snapshot.\<close>

definition snap_post ::
  "(addr \<Rightarrow> bool) \<Rightarrow> nat \<Rightarrow> addr \<Rightarrow> nat \<Rightarrow> nat list \<Rightarrow> 'd cxl \<Rightarrow> 'd cxl \<Rightarrow> bool" where
  "snap_post H len a bytes ts g g' \<longleftrightarrow> same_frame g g' \<and>
     syncs H (start_addr g) (backing_file_start g) len (mch g) (mch g') \<and>
     (ts \<noteq> [] \<longrightarrow> (\<forall>x. \<not> H x \<and> pending (mch g) x \<longrightarrow> durable (mch g') x)) \<and>
     (\<forall>t\<in>set ts. \<forall>e\<in>set (entries (tls_logs g ! t)). in_snap a (snap_diff a bytes) e \<longrightarrow>
        entry_safe (start_addr g) (backing_file_start g) e (mch g')) \<and>
     length (tls_logs g') = length (tls_logs g) \<and>
     (\<forall>t. tls_logs g' ! t = (if t \<in> set ts then cleared (tls_logs g ! t) else tls_logs g ! t))"

lemma snapshot_logs_syncs:
  assumes "snap_env_ok se H len g" "\<And>t. t \<in> set ts \<Longrightarrow> snap_pre se H len t g" "distinct ts"
  shows "\<exists>g'. snapshot_logs se a bytes flags ts g = ret g' \<and> snap_post H len a bytes ts g g'"
  using assms
proof (induction ts arbitrary: g)
  case Nil
  show ?case by (intro exI [of _ g]) (simp add: snap_post_def syncs_refl same_frame_refl)
next
  case (Cons t ts)
  let ?sa = "start_addr g" and ?pb = "backing_file_start g" and ?d = "usub64 (uadd64 a bytes) a"
  have lay: "layout H ?sa ?pb len" using Cons.prems(1) by (simp add: snap_env_ok_def)
  have pre: "snap_pre se H len t g" using Cons.prems(2) by simp
  have t: "t < length (tls_logs g)" "t \<notin> set ts" using pre Cons.prems(3) by (auto simp: snap_pre_def)
  obtain m1 c1 where run1: "snapshot_log se a bytes flags t g =
       ret (g\<lparr>mch := m1, ctrs := c1, tls_logs := (tls_logs g)[t := cleared (tls_logs g ! t)]\<rparr>)"
    and s1: "syncs H ?sa ?pb len (mch g) m1" and d1: "\<forall>x. \<not> H x \<and> pending (mch g) x \<longrightarrow> durable m1 x"
    and e1: "\<forall>e\<in>set (entries (tls_logs g ! t)). in_snap a ?d e \<longrightarrow> entry_safe ?sa ?pb e m1"
    using snapshot_log_syncs [OF Cons.prems(1) pre] by blast
  define g1 where "g1 = g\<lparr>mch := m1, ctrs := c1, tls_logs := (tls_logs g)[t := cleared (tls_logs g ! t)]\<rparr>"
  have g1: "start_addr g1 = ?sa" "backing_file_start g1 = ?pb" "mch g1 = m1" "length (tls_logs g1) = length (tls_logs g)"
    "tls_logs g1 = (tls_logs g)[t := cleared (tls_logs g ! t)]" by (simp_all add: g1_def)
  have env1: "snap_env_ok se H len g1" using Cons.prems(1) by (simp add: snap_env_ok_def g1_def)
  have pre1: "snap_pre se H len u g1" if "u \<in> set ts" for u
    using Cons.prems(2) [of u] that t by (auto simp: snap_pre_def g1 nth_list_update)
  obtain g' where run': "snapshot_logs se a bytes flags ts g1 = ret g'" and post: "snap_post H len a bytes ts g1 g'"
    using Cons.IH [OF env1 pre1] Cons.prems(3) by auto
  have IH: "same_frame g1 g'"
    "syncs H ?sa ?pb len m1 (mch g')" "ts \<noteq> [] \<longrightarrow> (\<forall>x. \<not> H x \<and> pending m1 x \<longrightarrow> durable (mch g') x)"
    "\<forall>u\<in>set ts. \<forall>e\<in>set (entries (tls_logs g1 ! u)). in_snap a ?d e \<longrightarrow> entry_safe ?sa ?pb e (mch g')"
    "length (tls_logs g') = length (tls_logs g1)"
    "\<forall>u. tls_logs g' ! u = (if u \<in> set ts then cleared (tls_logs g1 ! u) else tls_logs g1 ! u)"
    using post unfolding snap_post_def g1 snap_diff_def by blast+
  have last: "\<forall>x. \<not> H x \<and> pending m1 x \<longrightarrow> durable (mch g') x" if "ts \<noteq> []" using IH(3) that by blast
  have nil: "mch g' = m1" if "ts = []" using run' that g1 by (simp add: ret_def)
  have "durable (mch g') x" if "\<not> H x" "pending (mch g) x" for x
    using that d1 last nil durable_pending by (cases "ts = []") auto
  moreover have "entry_safe ?sa ?pb e (mch g')" if "e \<in> set (entries (tls_logs g ! t))" "in_snap a ?d e" for e
    using e1 that nil entry_safe_syncs [OF lay IH(2)] last pre by (cases "ts = []") (auto simp: snap_pre_def)
  moreover have "snapshot_logs se a bytes flags (t # ts) g = ret g'" using run1 run' by (simp add: g1_def)
  moreover have "same_frame g g'" by (rule same_frame_trans [OF _ IH(1)]) (simp add: g1_def same_frame_upd)
  moreover have "tls_logs g' ! u = (if u \<in> set (t # ts) then cleared (tls_logs g ! u) else tls_logs g ! u)" for u
    using IH(6) [rule_format, of u] t by (auto simp: g1 nth_list_update)
  moreover have "entries (tls_logs g1 ! u) = entries (tls_logs g ! u)" if "u \<in> set ts" for u
    using that t by (auto simp: g1 nth_list_update)
  ultimately show ?case
    using syncs_trans [OF lay s1 IH(2)] IH(4,5) g1(4)
    by (intro exI [of _ g'] conjI) (auto simp: snap_post_def snap_diff_def)
qed

lemma snap_loop_none:
  assumes "\<forall>e\<in>set es. \<not> in_snap start diff e"
  shows "ss_mem (snap_loop ops pb sa start diff prev es s) = ss_mem s"
  using assms by (induction es arbitrary: prev s) (auto simp: Let_def)

lemma snapshot_log_outside:
  assumes env: "snap_env_ok se H len g" and pre: "snap_pre se H len t g"
    and none: "\<forall>e\<in>set (entries (tls_logs g ! t)). \<not> in_snap a (usub64 (uadd64 a bytes) a) e"
  shows "\<exists>m c. snapshot_log se a bytes flags t g =
       ret (g\<lparr>mch := m, ctrs := c, tls_logs := (tls_logs g)[t := cleared (tls_logs g ! t)]\<rparr>) \<and>
    (\<forall>x. \<not> inr (log_area (tls_logs g ! t)) 24 x \<longrightarrow> cpu m x = cpu (mch g) x)"
proof -
  let ?L = "tls_logs g ! t" and ?la = "log_area (tls_logs g ! t)" and ?ops = "se_ops se"
  have ops: "pmem_ops_ok ?ops" and srt: "sort_ok (se_sort se)" and fs: "\<not> firstSnapshot g" and si: "storeInstEnabled g"
    using env by (auto simp: snap_env_ok_def)
  have la: "?la \<noteq> 0" using pre by (auto simp: snap_pre_def)
  define m1 where "m1 = st64 (log_offset_at ?la) 0 (flush_all ?ops ?L (mch g))"
  have f1: "cpu m1 x = cpu (mch g) x" if "\<not> inr ?la 24 x" for x
    using that flush_all_frame [OF ops] unfolding m1_def by (auto simp: wr_def inr_def log_offset_at_def)
  obtain m2 where m2: "set_state ?ops ?L ACTIVE True m1 = Inr m2" using set_state_runs [OF la] by blast
  let ?es = "if length (entries ?L) > 10 then se_sort se (entries ?L) else entries ?L"
  have none': "\<forall>e\<in>set ?es. \<not> in_snap a (usub64 (uadd64 a bytes) a) e"
    using none sort_ok_set [OF srt] by auto
  obtain k c where cp: "snap_copy_log se a bytes t (g\<lparr>mch := m2\<rparr>) = (k, k, g\<lparr>mch := m2, ctrs := c\<rparr>)"
    by (auto simp: snap_copy_log_def Let_def snap_loop_none [OF none'] snap_loop_counts split: prod.splits)
  obtain m4 where m4: "set_state ?ops ?L EMPTY False (po_drain ?ops m2) = Inr m4" using set_state_runs [OF la] by blast
  define m5 where "m5 = mch (clear_log t (g\<lparr>mch := m4\<rparr>))"
  have run: "snapshot_log se a bytes flags t g =
      ret (g\<lparr>mch := m5, ctrs := c, tls_logs := (tls_logs g)[t := cleared ?L]\<rparr>)"
    using la si fs m2 cp m4
    by (simp add: snapshot_log_def Let_def first_snapshot_def upd_mch_def m1_def [symmetric])
      (cases g, simp add: m5_def clear_log_def set_log_def cleared_def lean_zero_def Let_def)
  have "cpu m5 x = cpu (mch g) x" if "\<not> inr ?la 24 x" for x
    using clear_log_frame(1) [of "g\<lparr>mch := m4\<rparr>" t x] that set_state_frame(1) [OF ops m2 that]
      set_state_frame(1) [OF ops m4 that] f1 [OF that]
    by (simp add: m5_def pmem_cpu [OF ops])
  then show ?thesis using run by blast
qed

subsection \<open>Correctness of snapshot\<close>

definition tracked :: "addr \<Rightarrow> nat \<Rightarrow> 'd cxl \<Rightarrow> nat \<Rightarrow> bool" where
  "tracked a bytes g k \<longleftrightarrow>
     (\<exists>L\<in>set (tls_logs g). \<exists>e\<in>set (entries L).
        in_snap a (snap_diff a bytes) e \<and> inr (lean_addr e) (lean_bytes e) (start_addr g + k))"

definition snap_ready :: "'d senv \<Rightarrow> (addr \<Rightarrow> bool) \<Rightarrow> nat \<Rightarrow> 'd cxl \<Rightarrow> bool" where
  "snap_ready se H len g \<longleftrightarrow> snap_env_ok se H len g \<and> \<not> nopMsync g \<and>
     (\<forall>t<length (tls_logs g). snap_pre se H len t g)"

lemma snapshot_run:
  assumes "snap_ready se H len g"
  shows "\<exists>g'. snapshot se a bytes flags g = ret (0, g') \<and> snap_post H len a bytes [0..<length (tls_logs g)] g g'"
proof -
  let ?g = "upd_ctrs (\<lambda>c. c\<lparr>n_snapshots := Suc (n_snapshots c)\<rparr>) g" and ?ts = "[0..<length (tls_logs g)]"
  have eq: "start_addr ?g = start_addr g" "backing_file_start ?g = backing_file_start g" "tls_logs ?g = tls_logs g"
    "mch ?g = mch g" "nopMsync ?g = nopMsync g" "storeInstEnabled ?g = storeInstEnabled g"
    by (simp_all add: upd_ctrs_def)
  have env: "snap_env_ok se H len ?g" using assms by (simp add: snap_ready_def snap_env_ok_def upd_ctrs_def)
  have pre: "snap_pre se H len t ?g" if "t \<in> set ?ts" for t
    using assms that by (simp add: snap_ready_def snap_pre_def eq)
  obtain g' where g': "snapshot_logs se a bytes flags ?ts ?g = ret g'" "snap_post H len a bytes ?ts ?g g'"
    using snapshot_logs_syncs [OF env pre, of ?ts a bytes flags] by auto
  have "same_frame ?g g' \<Longrightarrow> same_frame g g'" by (cases g) (simp add: same_frame_def upd_ctrs_def)
  then have "snap_post H len a bytes ?ts g g'" using g'(2) unfolding snap_post_def eq by blast
  moreover have "snapshot se a bytes flags g = ret (0, g')"
    using assms g'(1) by (simp add: snapshot_def Let_def eq snap_ready_def snap_env_ok_def)
  ultimately show ?thesis by blast
qed

lemma snap_post_mirrors:
  assumes ready: "snap_ready se H len g" and post: "snap_post H len a bytes [0..<length (tls_logs g)] g g'"
    and k: "k < len" and tr: "mirrored (cpu (mch g)) (start_addr g) (backing_file_start g) k \<or> tracked a bytes g k"
  shows "mirrored (cpu (mch g')) (start_addr g) (backing_file_start g) k"
proof -
  have lay: "layout H (start_addr g) (backing_file_start g) len"
    using ready by (simp add: snap_ready_def snap_env_ok_def)
  have sy: "syncs H (start_addr g) (backing_file_start g) len (mch g) (mch g')"
    using post by (simp add: snap_post_def)
  show ?thesis
  proof (cases "mirrored (cpu (mch g)) (start_addr g) (backing_file_start g) k")
    case True
    then show ?thesis using syncs_mirrored [OF lay sy] k by simp
  next
    case False
    then obtain L e where L: "L \<in> set (tls_logs g)" "e \<in> set (entries L)"
      and e: "in_snap a (snap_diff a bytes) e" "inr (lean_addr e) (lean_bytes e) (start_addr g + k)"
      using tr by (auto simp: tracked_def)
    then obtain t where t: "t < length (tls_logs g)" "e \<in> set (entries (tls_logs g ! t))"
      by (metis in_set_conv_nth)
    have safe: "entry_safe (start_addr g) (backing_file_start g) e (mch g')"
      using post t e(1) by (simp add: snap_post_def)
    have "in_work (start_addr g) len e"
      using ready t by (simp add: snap_ready_def snap_pre_def)
    then have "lean_addr e - start_addr g \<le> k" "k < lean_addr e - start_addr g + lean_bytes e"
      using e(2) by (auto simp: in_work_def inr_def)
    then show ?thesis using safe by (auto simp: entry_safe_def)
  qed
qed

lemma snap_post_work:
  assumes "snap_ready se H len g" "snap_post H len a bytes ts g g'" "k < len"
  shows "cpu (mch g') (start_addr g + k) = cpu (mch g) (start_addr g + k)"
proof -
  have "layout H (start_addr g) (backing_file_start g) len"
    using assms(1) by (simp add: snap_ready_def snap_env_ok_def)
  moreover have "syncs H (start_addr g) (backing_file_start g) len (mch g) (mch g')"
    using assms(2) by (simp add: snap_post_def)
  ultimately show ?thesis using syncs_work assms(3) by simp
qed

lemma snap_post_logs:
  assumes "snap_post H len a bytes [0..<length (tls_logs g)] g g'"
  shows "tls_logs g' = map cleared (tls_logs g)"
proof (rule nth_equalityI)
  have l: "length (tls_logs g') = length (tls_logs g)"
    and n: "\<forall>t. tls_logs g' ! t = (if t \<in> set [0..<length (tls_logs g)] then cleared (tls_logs g ! t) else tls_logs g ! t)"
    using assms unfolding snap_post_def by blast+
  show "length (tls_logs g') = length (map cleared (tls_logs g))" using l by simp
  fix i assume "i < length (tls_logs g')"
  then show "tls_logs g' ! i = map cleared (tls_logs g) ! i" using n [rule_format, of i] l by simp
qed

text \<open>
  C3: snapshot brings the two copies to parity.  When every byte on which the backing copy differs from
  the working copy is covered by a logged range inside the snapshot range, snapshot returns 0, leaves the working
  copy alone, makes the backing copy equal to it, and empties every thread's list of entries.
\<close>

theorem snapshot_syncs:
  assumes "snap_ready se H len g"
    and "\<forall>k<len. mirrored (cpu (mch g)) (start_addr g) (backing_file_start g) k \<or> tracked a bytes g k"
  shows "\<exists>g'. snapshot se a bytes flags g = ret (0, g') \<and>
    (\<forall>k<len. cpu (mch g') (backing_file_start g + k) = cpu (mch g) (start_addr g + k) \<and>
             cpu (mch g') (start_addr g + k) = cpu (mch g) (start_addr g + k)) \<and>
    tls_logs g' = map cleared (tls_logs g)"
proof -
  obtain g' where g': "snapshot se a bytes flags g = ret (0, g')" "snap_post H len a bytes [0..<length (tls_logs g)] g g'"
    using snapshot_run [OF assms(1)] by blast
  then show ?thesis
    using snap_post_mirrors [OF assms(1) g'(2)] snap_post_work [OF assms(1) g'(2)] snap_post_logs [OF g'(2)] assms(2)
    by (auto simp: mirrored_def)
qed

text \<open>
  C4: snapshot makes what it copies durable.  After it returns, every backing byte of an entry inside the
  range holds the working copy's value in the persistence domain, so it survives any crash.
\<close>

theorem snapshot_durable:
  assumes "snap_ready se H len g" and "L \<in> set (tls_logs g)" and "e \<in> set (entries L)"
    and "in_snap a (snap_diff a bytes) e" and "inr (lean_addr e) (lean_bytes e) (start_addr g + k)"
  shows "\<exists>g'. snapshot se a bytes flags g = ret (0, g') \<and>
    (\<forall>im. crash_image (mch g') im \<longrightarrow> im (backing_file_start g + k) = cpu (mch g) (start_addr g + k))"
proof -
  obtain g' where g': "snapshot se a bytes flags g = ret (0, g')" "snap_post H len a bytes [0..<length (tls_logs g)] g g'"
    using snapshot_run [OF assms(1)] by blast
  obtain t where t: "t < length (tls_logs g)" "L = tls_logs g ! t" using assms(2) by (auto simp: in_set_conv_nth)
  have safe: "entry_safe (start_addr g) (backing_file_start g) e (mch g')"
    using g'(2) t assms(3,4) by (simp add: snap_post_def)
  have w: "in_work (start_addr g) len e" using assms(1,3) t by (simp add: snap_ready_def snap_pre_def)
  have k: "lean_addr e - start_addr g \<le> k" "k < lean_addr e - start_addr g + lean_bytes e" "k < len"
    using w assms(5) by (auto simp: in_work_def inr_def)
  have "cpu (mch g') (backing_file_start g + k) = cpu (mch g) (start_addr g + k)"
    "durable (mch g') (backing_file_start g + k)"
    using safe k snap_post_work [OF assms(1) g'(2) k(3)] by (auto simp: entry_safe_def mirrored_def)
  then show ?thesis using g'(1) crash_image_durable by auto
qed

text \<open>
  The two counters that snapshot compares before it marks a log empty always agree, so the branch that
  reports a mismatch and exits cannot be taken, whatever the entries, the range and the state.
\<close>

theorem snapshot_counts_agree:
  "\<exists>k g'. snap_copy_log se a bytes t g = (k, k, g')"
  by (auto simp: snap_copy_log_def Let_def snap_loop_counts split: prod.splits)

text \<open>
  C35: the widened block that is streamed to the backing copy covers the logged range, starts at most 511
  bytes before it and never below the start of the backing mapping, and ends at most 512 bytes after it.
\<close>

theorem snap_block_covers:
  assumes "snap_block dst n = (d, k)"
  shows "d \<le> dst \<and> dst + n \<le> d + k \<and> dst < d + 512 \<and> d + k \<le> dst + n + 512 \<and>
    (pb mod 512 = 0 \<and> pb \<le> dst \<longrightarrow> pb \<le> d)"
  using snap_block_spec [OF assms] snap_block_base [OF assms] by simp

theorem snap_block_covers_witness:
  "snap_block 1000 24 = (992, 32) \<and> (992 :: nat) \<le> 1000 \<and> (1000 + 24 :: nat) \<le> 992 + 32"
proof -
  have "popcount 24 = 2" "flog2 24 = 4" by (simp_all add: popcount.simps flog2.simps)
  then have s: "snap_block 1000 24 = (992, 32)"
    by (simp add: snap_block_def snap_align_to_def previousPowerOfTwo_def Let_def)
  then show ?thesis using snap_block_covers [OF s, of 512] by simp
qed

text \<open>
  The unsigned comparison that selects the entries is the closed interval test: an entry is copied when
  its address is between the start of the range and its end, the end included.
\<close>

theorem in_snap_interval:
  assumes "a + bytes < 2 ^ 64" and "lean_addr e < 2 ^ 64"
  shows "in_snap a (snap_diff a bytes) e \<longleftrightarrow> a \<le> lean_addr e \<and> lean_addr e \<le> a + bytes"
proof -
  have "snap_diff a bytes = bytes" using assms(1) by (simp add: snap_diff_def uadd64_small usub64_ge)
  then show ?thesis using usub64_interval [OF assms(2,1)] by (simp add: in_snap_def)
qed

theorem in_snap_interval_witness:
  "in_snap 4096 (snap_diff 4096 64) \<lparr>lean_addr = 4160, lean_bytes = 8\<rparr>"
  using in_snap_interval [of 4096 64 "\<lparr>lean_addr = 4160, lean_bytes = 8\<rparr>"] by simp

text \<open>
  A snapshot of a range forgets the modifications outside it.  When no entry of a log is inside the
  range, snapshot copies nothing for that log, and still clears its entries: no later snapshot copies those bytes.
\<close>

theorem snapshot_drops_outside:
  assumes "snap_env_ok se H len g" and "snap_pre se H len t g"
    and "\<forall>e\<in>set (entries (tls_logs g ! t)). \<not> in_snap a (snap_diff a bytes) e"
  shows "\<exists>g'. snapshot_log se a bytes flags t g = ret g' \<and> entries (tls_logs g' ! t) = [] \<and>
    (\<forall>k<len. cpu (mch g') (backing_file_start g + k) = cpu (mch g) (backing_file_start g + k))"
proof -
  obtain m c where r: "snapshot_log se a bytes flags t g =
       ret (g\<lparr>mch := m, ctrs := c, tls_logs := (tls_logs g)[t := cleared (tls_logs g ! t)]\<rparr>)"
    and same: "\<forall>x. \<not> inr (log_area (tls_logs g ! t)) 24 x \<longrightarrow> cpu m x = cpu (mch g) x"
    using snapshot_log_outside [OF assms [unfolded snap_diff_def]] by blast
  have "\<not> inr (log_area (tls_logs g ! t)) 24 (backing_file_start g + k)" if "k < len" for k
    using assms(1,2) that by (auto simp: snap_env_ok_def snap_pre_def layout_def)
  then show ?thesis using r same assms(2) by (auto simp: snap_pre_def cleared_def)
qed

subsection \<open>A concrete state\<close>

definition demo_senv :: "ram senv" where
  "demo_senv = \<lparr>se_ops = clwb_ops, se_sort = sort_key lean_addr, se_file_size = (\<lambda>f. None), se_msync = (\<lambda>a n fl. 0),
     se_spdk = ram_spdk, se_cenv = demo_cenv\<rparr>"

definition demo_entry :: log_entry_lean_t where
  "demo_entry = \<lparr>lean_addr = 2 ^ 40 + 16, lean_bytes = 16\<rparr>"

definition demo_cxl :: "ram cxl" where
  "demo_cxl = glob.extend
     (demo_glob\<lparr>mch := store (2 ^ 40 + 16) (replicate 16 9) \<lparr>cpu = (\<lambda>x. 0), media = (\<lambda>x. {0}), inflight = (\<lambda>x. False)\<rparr>,
                tls_logs := [demo_log\<lparr>entries := [demo_entry]\<rparr>]\<rparr>)
     \<lparr>ctrlr = None, bump_off = 0\<rparr>"

lemma demo_cxl_fields [simp]:
  "start_addr demo_cxl = 2 ^ 40" "backing_file_start demo_cxl = 2 ^ 41" "firstSnapshot demo_cxl = False"
  "storeInstEnabled demo_cxl" "nopMsync demo_cxl = False" "tls_logs demo_cxl = [demo_log\<lparr>entries := [demo_entry]\<rparr>]"
  "cpu (mch demo_cxl) = wr (\<lambda>x. 0) (2 ^ 40 + 16) (replicate 16 9)"
  by (simp_all add: demo_cxl_def demo_glob_def glob.defs store_def)

lemma demo_cxl_ready: "snap_ready demo_senv (inr 4096 24) 4096 demo_cxl"
proof -
  have "sort_ok (sort_key lean_addr)" by (simp add: sort_ok_def)
  then show ?thesis using clwb_ops_ok
    by (simp add: snap_ready_def snap_env_ok_def snap_pre_def layout_def in_work_def inr_def demo_senv_def demo_log_def demo_entry_def)
qed

lemma demo_in_snap: "in_snap (2 ^ 40) (snap_diff (2 ^ 40) 4096) demo_entry"
  by (simp add: in_snap_def snap_diff_def uadd64_small usub64_ge demo_entry_def)

theorem snapshot_syncs_witness:
  "\<exists>g'. snapshot demo_senv (2 ^ 40) 4096 4 demo_cxl = ret (0, g') \<and>
    (\<forall>k<4096. cpu (mch g') (backing_file_start demo_cxl + k) = cpu (mch demo_cxl) (start_addr demo_cxl + k) \<and>
             cpu (mch g') (start_addr demo_cxl + k) = cpu (mch demo_cxl) (start_addr demo_cxl + k)) \<and>
    tls_logs g' = map cleared (tls_logs demo_cxl)"
proof (rule snapshot_syncs [OF demo_cxl_ready], intro allI impI)
  fix k :: nat assume "k < 4096"
  then show "mirrored (cpu (mch demo_cxl)) (start_addr demo_cxl) (backing_file_start demo_cxl) k \<or>
      tracked (2 ^ 40) 4096 demo_cxl k"
    using demo_in_snap
    by (cases "16 \<le> k \<and> k < 32") (auto simp: tracked_def mirrored_def inr_def demo_entry_def wr_def)
qed

theorem snapshot_durable_witness:
  "\<exists>g'. snapshot demo_senv (2 ^ 40) 4096 4 demo_cxl = ret (0, g') \<and>
    (\<forall>im. crash_image (mch g') im \<longrightarrow> im (backing_file_start demo_cxl + 20) = cpu (mch demo_cxl) (start_addr demo_cxl + 20))"
  by (rule snapshot_durable [where L = "demo_log\<lparr>entries := [demo_entry]\<rparr>", OF demo_cxl_ready _ _ demo_in_snap]) (simp_all add: demo_entry_def demo_log_def inr_def)

theorem snapshot_drops_outside_witness:
  "\<exists>g'. snapshot_log demo_senv (2 ^ 40 + 2048) 512 4 0 demo_cxl = ret g' \<and> entries (tls_logs g' ! 0) = [] \<and>
    (\<forall>k<4096. cpu (mch g') (backing_file_start demo_cxl + k) = cpu (mch demo_cxl) (backing_file_start demo_cxl + k))"
  by (rule snapshot_drops_outside [where H = "inr 4096 24"])
    (use demo_cxl_ready in \<open>simp_all add: snap_ready_def in_snap_def snap_diff_def uadd64_small usub64_ge usub64_less demo_entry_def\<close>)

end
