(* ===== verification/Vram.thy ===== *)
theory Vram
  imports Prelude
begin

text \<open>
  libvram: memory of the graphics card through Vulkan (libvram.cc).  The Vulkan calls are parameters, the record
  \<open>vk\<close> over an abstract driver state; a failed call is \<open>None\<close>, which the source turns into an exception.
  The selection loops over devices, queue families and memory types are the library's own and are
  modelled and specified.
\<close>

unbundle bit_operations_syntax

subsection \<open>Names of results\<close>

text \<open>\<^verbatim>\<open>getVulkanResultString\<close> with the values of \<^verbatim>\<open>VkResult\<close>.\<close>

definition vk_result_names :: "(int \<times> string) list" where
  "vk_result_names =
     [(0, ''VK_SUCCESS''), (1, ''VK_NOT_READY''), (2, ''VK_TIMEOUT''), (3, ''VK_EVENT_SET''), (4, ''VK_EVENT_RESET''),
      (5, ''VK_INCOMPLETE''), (-1, ''VK_ERROR_OUT_OF_HOST_MEMORY''), (-2, ''VK_ERROR_OUT_OF_DEVICE_MEMORY''),
      (-3, ''VK_ERROR_INITIALIZATION_FAILED''), (-4, ''VK_ERROR_DEVICE_LOST''), (-5, ''VK_ERROR_MEMORY_MAP_FAILED''),
      (-6, ''VK_ERROR_LAYER_NOT_PRESENT''), (-7, ''VK_ERROR_EXTENSION_NOT_PRESENT''),
      (-8, ''VK_ERROR_FEATURE_NOT_PRESENT''), (-9, ''VK_ERROR_INCOMPATIBLE_DRIVER''), (-10, ''VK_ERROR_TOO_MANY_OBJECTS''),
      (-11, ''VK_ERROR_FORMAT_NOT_SUPPORTED''), (-12, ''VK_ERROR_FRAGMENTED_POOL''), (-1000000000, ''VK_ERROR_SURFACE_LOST_KHR''),
      (-1000000001, ''VK_ERROR_NATIVE_WINDOW_IN_USE_KHR''), (1000001003, ''VK_SUBOPTIMAL_KHR''),
      (-1000001004, ''VK_ERROR_OUT_OF_DATE_KHR''), (-1000003001, ''VK_ERROR_INCOMPATIBLE_DISPLAY_KHR''),
      (-1000011001, ''VK_ERROR_VALIDATION_FAILED_EXT''), (-1000069000, ''VK_ERROR_OUT_OF_POOL_MEMORY_KHR''),
      (-1000012000, ''VK_ERROR_INVALID_SHADER_NV'')]"

definition getVulkanResultString :: "int \<Rightarrow> string" where
  "getVulkanResultString r =
     (case map_of vk_result_names r of
        Some s \<Rightarrow> s
      | None \<Rightarrow> if r < 0 then ''VK_ERROR_<Unknown>'' else ''VK_<Unknown>'')"

subsection \<open>State and driver\<close>

record 'v vk =
  vk_create_instance :: "'v \<Rightarrow> 'v option"
  vk_physical_devices :: "'v \<Rightarrow> nat list"
  vk_queue_flags :: "nat \<Rightarrow> 'v \<Rightarrow> 32 word list"
  vk_extensions :: "nat \<Rightarrow> 'v \<Rightarrow> string list"
  vk_create_device :: "nat \<Rightarrow> nat \<Rightarrow> string list \<Rightarrow> 'v \<Rightarrow> (nat \<times> 'v) option"
  vk_create_buffer :: "nat \<Rightarrow> nat \<Rightarrow> 'v \<Rightarrow> (nat \<times> 'v) option"
  vk_requirements :: "nat \<Rightarrow> nat \<Rightarrow> 'v \<Rightarrow> nat \<times> 32 word"
  vk_memory_types :: "nat \<Rightarrow> 'v \<Rightarrow> 32 word list"
  vk_allocate :: "nat \<Rightarrow> nat \<Rightarrow> nat \<Rightarrow> 'v \<Rightarrow> (nat \<times> 'v) option"
  vk_bind :: "nat \<Rightarrow> nat \<Rightarrow> nat \<Rightarrow> 'v \<Rightarrow> 'v"
  vk_map :: "nat \<Rightarrow> nat \<Rightarrow> nat \<Rightarrow> 'v \<Rightarrow> (addr \<times> 'v) option"
  vk_destroy_buffer :: "nat \<Rightarrow> nat \<Rightarrow> 'v \<Rightarrow> 'v"
  vk_free_memory :: "nat \<Rightarrow> nat \<Rightarrow> 'v \<Rightarrow> 'v"
  vk_destroy_device :: "nat \<Rightarrow> 'v \<Rightarrow> 'v"
  vk_destroy_instance :: "'v \<Rightarrow> 'v"

record 'v VRamWrapper =
  vr_drv :: 'v
  physicalDevice :: "nat option"
  vr_device :: nat
  graphicsQueue :: nat
  buffers :: "nat list"
  bufferMemories :: "nat list"

definition deviceExtensions :: "string list" where
  "deviceExtensions = [''VK_KHR_swapchain'']"

definition VK_QUEUE_GRAPHICS_BIT :: "32 word" where
  "VK_QUEUE_GRAPHICS_BIT = 1"

definition MEM_PROPERTIES :: "32 word" where
  "MEM_PROPERTIES = 2 OR 4 OR 1"

subsection \<open>Selection\<close>

fun find_family :: "nat \<Rightarrow> 32 word list \<Rightarrow> nat option" where
  "find_family i [] = None"
| "find_family i (f # fs) = (if f AND VK_QUEUE_GRAPHICS_BIT \<noteq> 0 then Some i else find_family (Suc i) fs)"

definition findQueueFamilies :: "'v vk \<Rightarrow> nat \<Rightarrow> 'v \<Rightarrow> nat option" where
  "findQueueFamilies vk d v = find_family 0 (vk_queue_flags vk d v)"

definition checkDeviceExtensionSupport :: "'v vk \<Rightarrow> nat \<Rightarrow> 'v \<Rightarrow> bool" where
  "checkDeviceExtensionSupport vk d v =
     (foldl (\<lambda>req e. removeAll e req) deviceExtensions (vk_extensions vk d v) = [])"

definition isDeviceSuitable :: "'v vk \<Rightarrow> nat \<Rightarrow> 'v \<Rightarrow> bool" where
  "isDeviceSuitable vk d v \<longleftrightarrow> findQueueFamilies vk d v \<noteq> None \<and> checkDeviceExtensionSupport vk d v"

fun pick_device :: "'v vk \<Rightarrow> 'v \<Rightarrow> nat list \<Rightarrow> nat option" where
  "pick_device vk v [] = None"
| "pick_device vk v (d # ds) = (if isDeviceSuitable vk d v then Some d else pick_device vk v ds)"

fun find_type :: "32 word \<Rightarrow> 32 word \<Rightarrow> nat \<Rightarrow> 32 word list \<Rightarrow> nat res" where
  "find_type typeFilter properties i [] = Inl Uncaught"
| "find_type typeFilter properties i (f # fs) =
     (if typeFilter AND push_bit i 1 \<noteq> 0 \<and> f AND properties = properties then Inr i
      else find_type typeFilter properties (Suc i) fs)"

definition findMemoryType :: "'v vk \<Rightarrow> nat \<Rightarrow> 32 word \<Rightarrow> 32 word \<Rightarrow> 'v \<Rightarrow> nat res" where
  "findMemoryType vk pd typeFilter properties v = find_type typeFilter properties 0 (vk_memory_types vk pd v)"

subsection \<open>Initialisation\<close>

definition createInstance :: "'v vk \<Rightarrow> 'v VRamWrapper \<Rightarrow> 'v VRamWrapper res" where
  "createInstance vk w =
     (case vk_create_instance vk (vr_drv w) of None \<Rightarrow> Inl Uncaught | Some v \<Rightarrow> Inr (w\<lparr>vr_drv := v\<rparr>))"

definition pickPhysicalDevice :: "'v vk \<Rightarrow> 'v VRamWrapper \<Rightarrow> 'v VRamWrapper res" where
  "pickPhysicalDevice vk w =
     (let devices = vk_physical_devices vk (vr_drv w)
      in guardR (devices \<noteq> []) Uncaught
        (let pd = (case pick_device vk (vr_drv w) devices of None \<Rightarrow> physicalDevice w | Some d \<Rightarrow> Some d)
         in guardR (pd \<noteq> None) Uncaught (Inr (w\<lparr>physicalDevice := pd\<rparr>))))"

definition createLogicalDevice :: "'v vk \<Rightarrow> 'v VRamWrapper \<Rightarrow> 'v VRamWrapper res" where
  "createLogicalDevice vk w =
     (case physicalDevice w of None \<Rightarrow> Inl NullDeref | Some pd \<Rightarrow>
      (case findQueueFamilies vk pd (vr_drv w) of None \<Rightarrow> Inl Uncaught | Some fam \<Rightarrow>
       (case vk_create_device vk pd fam deviceExtensions (vr_drv w) of None \<Rightarrow> Inl Uncaught
        | Some (dev, v) \<Rightarrow> Inr (w\<lparr>vr_drv := v, vr_device := dev, graphicsQueue := fam\<rparr>))))"

definition initVulkan :: "'v vk \<Rightarrow> 'v VRamWrapper \<Rightarrow> 'v VRamWrapper res" where
  "initVulkan vk w = bindR (bindR (createInstance vk w) (pickPhysicalDevice vk)) (createLogicalDevice vk)"

definition ctor_libvram :: "'v vk \<Rightarrow> 'v \<Rightarrow> 'v VRamWrapper res" where
  "ctor_libvram vk v =
     initVulkan vk \<lparr>vr_drv = v, physicalDevice = None, vr_device = 0, graphicsQueue = 0, buffers = [], bufferMemories = []\<rparr>"

subsection \<open>Allocation\<close>

definition createVertexBuffer :: "'v vk \<Rightarrow> nat \<Rightarrow> 'v VRamWrapper \<Rightarrow> (addr \<times> 'v VRamWrapper) res" where
  "createVertexBuffer vk bytes w =
     (case vk_create_buffer vk (vr_device w) bytes (vr_drv w) of None \<Rightarrow> Inl Uncaught | Some (buffer, v1) \<Rightarrow>
      let (req_size, req_bits) = vk_requirements vk (vr_device w) buffer v1
      in guardR (req_size = bytes) AssertFailed
        (case physicalDevice w of None \<Rightarrow> Inl NullDeref | Some pd \<Rightarrow>
         bindR (findMemoryType vk pd req_bits MEM_PROPERTIES v1) (\<lambda>ty.
         case vk_allocate vk (vr_device w) req_size ty v1 of None \<Rightarrow> Inl Uncaught | Some (mem, v2) \<Rightarrow>
         let v3 = vk_bind vk (vr_device w) buffer mem v2
         in case vk_map vk (vr_device w) mem bytes v3 of None \<Rightarrow> Inl Uncaught | Some (data, v4) \<Rightarrow>
            Inr (data, w\<lparr>vr_drv := v4, buffers := buffers w @ [buffer], bufferMemories := bufferMemories w @ [mem]\<rparr>))))"

text \<open>The exported calls go through the pointer \<^verbatim>\<open>vrw_obj\<close>, null until \<^verbatim>\<open>ctor_libvram\<close> has run.\<close>

definition vram_malloc :: "'v vk \<Rightarrow> nat \<Rightarrow> 'v VRamWrapper option \<Rightarrow> (addr \<times> 'v VRamWrapper option) res" where
  "vram_malloc vk bytes vrw_obj =
     (case vrw_obj of None \<Rightarrow> Inl NullDeref
      | Some w \<Rightarrow> bindR (createVertexBuffer vk bytes w) (\<lambda>(p, w'). Inr (p, Some w')))"

definition vram_free :: "'v VRamWrapper option \<Rightarrow> 'v VRamWrapper option res" where
  "vram_free vrw_obj = Inl AssertFailed"

definition vram_cleanup :: "'v vk \<Rightarrow> 'v VRamWrapper \<Rightarrow> 'v VRamWrapper" where
  "vram_cleanup vk w =
     (let v1 = fold (vk_destroy_buffer vk (vr_device w)) (buffers w) (vr_drv w);
          v2 = fold (vk_free_memory vk (vr_device w)) (bufferMemories w) v1
      in w\<lparr>vr_drv := vk_destroy_instance vk (vk_destroy_device vk (vr_device w) v2)\<rparr>)"

subsection \<open>Correctness of the selection loops\<close>

lemma find_type_Inr:
  "find_type tf ps i fs = Inr k \<Longrightarrow>
     i \<le> k \<and> k < i + length fs \<and> bit tf k \<and> fs ! (k - i) AND ps = ps \<and>
     (\<forall>j. i \<le> j \<and> j < k \<longrightarrow> \<not> (bit tf j \<and> fs ! (j - i) AND ps = ps))"
proof (induction fs arbitrary: i)
  case Nil
  then show ?case by simp
next
  case (Cons f fs)
  show ?case
  proof (cases "bit tf i \<and> f AND ps = ps")
    case True
    then show ?thesis using Cons.prems by (auto simp: bit_iff_and_push_bit_not_eq_0)
  next
    case False
    then have "find_type tf ps (Suc i) fs = Inr k" using Cons.prems by (auto simp: bit_iff_and_push_bit_not_eq_0)
    note ih = Cons.IH [OF this]
    have shift: "(f # fs) ! (j - i) = fs ! (j - Suc i)" if "Suc i \<le> j" for j
      using that by (metis Suc_diff_le diff_Suc_Suc nth_Cons_Suc)
    have "\<not> (bit tf j \<and> (f # fs) ! (j - i) AND ps = ps)" if "i \<le> j" "j < k" for j
      using that ih False shift by (cases "j = i") auto
    then show ?thesis using ih shift by auto
  qed
qed

lemma find_type_Inl:
  "find_type tf ps i fs = Inl e \<Longrightarrow> e = Uncaught \<and> (\<forall>j<length fs. \<not> (bit tf (i + j) \<and> fs ! j AND ps = ps))"
proof (induction fs arbitrary: i)
  case Nil
  then show ?case by simp
next
  case (Cons f fs)
  then have "\<not> (bit tf i \<and> f AND ps = ps)" "find_type tf ps (Suc i) fs = Inl e"
    by (auto simp: bit_iff_and_push_bit_not_eq_0 split: if_splits)
  then show ?case using Cons.IH [of "Suc i"] by (auto simp: nth_Cons split: nat.split)
qed

lemma find_family_Some:
  "find_family i fs = Some k \<Longrightarrow> i \<le> k \<and> k < i + length fs \<and> fs ! (k - i) AND VK_QUEUE_GRAPHICS_BIT \<noteq> 0"
proof (induction fs arbitrary: i)
  case (Cons f fs)
  show ?case
  proof (cases "f AND VK_QUEUE_GRAPHICS_BIT \<noteq> 0")
    case False
    then have ih: "Suc i \<le> k \<and> k < Suc i + length fs \<and> fs ! (k - Suc i) AND VK_QUEUE_GRAPHICS_BIT \<noteq> 0"
      using Cons.IH [of "Suc i"] Cons.prems by simp
    then have "(f # fs) ! (k - i) = fs ! (k - Suc i)" by (metis Suc_diff_le diff_Suc_Suc nth_Cons_Suc)
    then show ?thesis using ih by auto
  qed (use Cons.prems in auto)
qed simp

lemma pick_device_Some: "pick_device vk v ds = Some d \<Longrightarrow> d \<in> set ds \<and> isDeviceSuitable vk d v"
  by (induction ds) (auto split: if_splits)

lemma removeAll_fold: "set (foldl (\<lambda>req e. removeAll e req) xs es) = set xs - set es"
  by (induction es arbitrary: xs) auto

text \<open>
  The memory type an allocation uses is the first one that the buffer's requirements allow and that has
  all the requested properties; the search fails exactly when there is none.
\<close>

theorem findMemoryType_first:
  assumes "vk_memory_types vk pd v = fs"
  shows "(\<forall>k. findMemoryType vk pd tf ps v = Inr k \<longrightarrow>
      k < length fs \<and> bit tf k \<and> fs ! k AND ps = ps \<and> (\<forall>j<k. \<not> (bit tf j \<and> fs ! j AND ps = ps))) \<and>
    (\<forall>e. findMemoryType vk pd tf ps v = Inl e \<longrightarrow> (\<forall>j<length fs. \<not> (bit tf j \<and> fs ! j AND ps = ps)))"
  using find_type_Inr [of tf ps 0 fs] find_type_Inl [of tf ps 0 fs] assms
  by (auto simp: findMemoryType_def)

text \<open>
  Initialisation either throws or leaves a device that offers the swapchain extension and a graphics
  queue family, and that family is the one the queue was created for.
\<close>

theorem initVulkan_suitable:
  assumes "ctor_libvram vk v = Inr w"
  shows "\<exists>v1 pd. vk_create_instance vk v = Some v1 \<and> physicalDevice w = Some pd \<and> pd \<in> set (vk_physical_devices vk v1) \<and>
    ''VK_KHR_swapchain'' \<in> set (vk_extensions vk pd v1) \<and> graphicsQueue w < length (vk_queue_flags vk pd v1) \<and>
    vk_queue_flags vk pd v1 ! graphicsQueue w AND VK_QUEUE_GRAPHICS_BIT \<noteq> 0 \<and> buffers w = []"
proof -
  obtain v1 where v1: "vk_create_instance vk v = Some v1"
    using assms by (auto simp: ctor_libvram_def initVulkan_def createInstance_def split: option.splits)
  obtain pd where pd: "pick_device vk v1 (vk_physical_devices vk v1) = Some pd"
    using assms v1 by (auto simp: ctor_libvram_def initVulkan_def createInstance_def pickPhysicalDevice_def
        Let_def bindR_eq_Inr guardR_eq_Inr split: option.split_asm)
  obtain fam dev v2 where f: "findQueueFamilies vk pd v1 = Some fam"
    "w = \<lparr>vr_drv = v2, physicalDevice = Some pd, vr_device = dev, graphicsQueue = fam, buffers = [], bufferMemories = []\<rparr>"
    using assms v1 pd by (auto simp: ctor_libvram_def initVulkan_def createInstance_def pickPhysicalDevice_def
        createLogicalDevice_def Let_def bindR_eq_Inr guardR_eq_Inr split: option.split_asm)
  have "set (foldl (\<lambda>req e. removeAll e req) deviceExtensions (vk_extensions vk pd v1)) = {}"
    using pick_device_Some [OF pd] by (simp add: isDeviceSuitable_def checkDeviceExtensionSupport_def)
  then have "''VK_KHR_swapchain'' \<in> set (vk_extensions vk pd v1)"
    unfolding removeAll_fold by (simp add: deviceExtensions_def)
  then show ?thesis
    using v1 pick_device_Some [OF pd] find_family_Some [OF f(1) [unfolded findQueueFamilies_def]] f(2) by auto
qed

definition demo_vk :: "nat vk" where
  "demo_vk = \<lparr>vk_create_instance = Some, vk_physical_devices = (\<lambda>v. [3, 7]), vk_queue_flags = (\<lambda>d v. [2, 5]),
     vk_extensions = (\<lambda>d v. if d = 7 then [''VK_EXT_robustness2'', ''VK_KHR_swapchain''] else []),
     vk_create_device = (\<lambda>d fam es v. Some (1, v)), vk_create_buffer = (\<lambda>d n v. Some (v, Suc v)),
     vk_requirements = (\<lambda>d b v. (4096, 6)), vk_memory_types = (\<lambda>d v. [7, 1, 15]), vk_allocate = (\<lambda>d n ty v. Some (v, Suc v)),
     vk_bind = (\<lambda>d b mm v. v), vk_map = (\<lambda>d mm n v. Some (2 ^ 32, v)), vk_destroy_buffer = (\<lambda>d b v. v),
     vk_free_memory = (\<lambda>d b v. v), vk_destroy_device = (\<lambda>d v. v), vk_destroy_instance = id\<rparr>"

theorem findMemoryType_first_witness:
  "findMemoryType demo_vk 7 6 MEM_PROPERTIES 0 = Inr 2 \<and> \<not> (bit (6 :: 32 word) 1 \<and> 1 AND MEM_PROPERTIES = MEM_PROPERTIES)"
proof -
  have r: "findMemoryType demo_vk 7 6 MEM_PROPERTIES 0 = Inr 2"
    by (simp add: findMemoryType_def demo_vk_def MEM_PROPERTIES_def)
  have "vk_memory_types demo_vk 7 0 = [7, 1, 15]" by (simp add: demo_vk_def)
  from findMemoryType_first [OF this, of 6 MEM_PROPERTIES] r
  have "\<forall>j<2. \<not> (bit (6 :: 32 word) j \<and> [7, 1, 15] ! j AND MEM_PROPERTIES = MEM_PROPERTIES)" by blast
  from this [rule_format, of 1] show ?thesis using r by simp
qed

theorem initVulkan_suitable_witness:
  "\<exists>v1 pd. vk_create_instance demo_vk 0 = Some v1 \<and> Some (7 :: nat) = Some pd \<and> pd \<in> set (vk_physical_devices demo_vk v1) \<and>
    ''VK_KHR_swapchain'' \<in> set (vk_extensions demo_vk pd v1)"
proof -
  have "ctor_libvram demo_vk 0 =
      Inr \<lparr>vr_drv = 0, physicalDevice = Some 7, vr_device = 1, graphicsQueue = 1, buffers = [], bufferMemories = []\<rparr>"
    by (simp add: ctor_libvram_def initVulkan_def createInstance_def pickPhysicalDevice_def createLogicalDevice_def
        isDeviceSuitable_def checkDeviceExtensionSupport_def findQueueFamilies_def deviceExtensions_def
        VK_QUEUE_GRAPHICS_BIT_def demo_vk_def)
  from initVulkan_suitable [OF this] show ?thesis by auto
qed

end
