(* ===== verification/VramFs.thy ===== *)
theory VramFs
  imports Vram FdTable
begin

text \<open>
  libvramfs.cc: the file calls of \<open>FdTable\<close> over the allocator of libvram.  What the file system needs of the Vulkan
  driver is \<open>vk_ok\<close>: a memory mapping returns addresses that no earlier mapping returned.
\<close>

definition vramfs_get_free_fd :: "fs_tab \<Rightarrow> int" where
  "vramfs_get_free_fd t = free_from (fd_to_path t) 1"

definition vramfs_create_fd :: "string \<Rightarrow> fs_tab \<Rightarrow> int \<times> fs_tab" where
  "vramfs_create_fd pathname_str t =
     (let fd = vramfs_get_free_fd t
      in (fd, t\<lparr>fd_to_path := AList.update fd pathname_str (fd_to_path t),
                path_to_fd := AList.update pathname_str fd (path_to_fd t),
                fd_desc := AList.update fd \<lparr>fdd_fd = fd, fdd_region = 0, fdd_len = 0, fdd_va_alloc_off = 0, fdd_seek = 0\<rparr>
                             (fd_desc t)\<rparr>))"

definition vramfs_lseek ::
  "'v vk \<Rightarrow> int \<Rightarrow> int \<Rightarrow> int \<Rightarrow> fs_tab \<times> 'v VRamWrapper option \<Rightarrow> (int \<times> fs_tab \<times> 'v VRamWrapper option) res" where
  "vramfs_lseek vk = fs_lseek (vram_malloc vk)"

definition vramfs_open :: "string \<Rightarrow> fs_tab \<Rightarrow> int \<times> fs_tab" where
  "vramfs_open pathname t =
     (case map_of (path_to_fd t) pathname of Some fd \<Rightarrow> (fd, t) | None \<Rightarrow> vramfs_create_fd pathname t)"

definition vramfs_mmap :: "nat \<Rightarrow> 32 word \<Rightarrow> int \<Rightarrow> int \<Rightarrow> fs_tab \<Rightarrow> addr \<times> fs_tab" where
  "vramfs_mmap n flags fd off t = fs_mmap n flags fd off t"

fun vramfs_run :: "'v vk \<Rightarrow> fs_call list \<Rightarrow> fs_tab \<times> 'v VRamWrapper option \<Rightarrow> (fs_tab \<times> 'v VRamWrapper option) res" where
  "vramfs_run vk [] ts = Inr ts"
| "vramfs_run vk (Open p # cs) (t, s) = vramfs_run vk cs (snd (vramfs_open p t), s)"
| "vramfs_run vk (Seek fd off w # cs) (t, s) = bindR (vramfs_lseek vk fd off w (t, s)) (\<lambda>(r, ts). vramfs_run vk cs ts)"
| "vramfs_run vk (Map n fl fd off # cs) (t, s) = vramfs_run vk cs (snd (vramfs_mmap n fl fd off t), s)"

text \<open>The calls of the two libraries are the same function of the allocator.\<close>

lemma vramfs_open_eq: "vramfs_open p t = fs_open p t"
  by (simp add: vramfs_open_def fs_open_def vramfs_create_fd_def create_fd_def vramfs_get_free_fd_def get_free_fd_def
      split: option.split)

lemma vramfs_run_eq: "vramfs_run vk cs ts = fs_run (vram_malloc vk) cs ts"
  by (induction vk cs ts rule: vramfs_run.induct)
    (auto simp: vramfs_open_eq vramfs_lseek_def vramfs_mmap_def bindR_def split: sum.split)

subsection \<open>The driver as an allocator\<close>

definition vk_ok :: "'v vk \<Rightarrow> ('v \<Rightarrow> addr \<Rightarrow> bool) \<Rightarrow> bool" where
  "vk_ok vk own \<longleftrightarrow>
     (\<forall>d n v b v'. vk_create_buffer vk d n v = Some (b, v') \<longrightarrow> own v' = own v) \<and>
     (\<forall>d n ty v mm v'. vk_allocate vk d n ty v = Some (mm, v') \<longrightarrow> own v' = own v) \<and>
     (\<forall>d b mm v. own (vk_bind vk d b mm v) = own v) \<and>
     (\<forall>d mm n v p v'. vk_map vk d mm n v = Some (p, v') \<longrightarrow>
        (\<forall>x. inr p n x \<longrightarrow> \<not> own v x \<and> own v' x) \<and> (\<forall>x. own v x \<longrightarrow> own v' x))"

definition vram_owned :: "('v \<Rightarrow> addr \<Rightarrow> bool) \<Rightarrow> 'v VRamWrapper option \<Rightarrow> addr \<Rightarrow> bool" where
  "vram_owned own w x \<longleftrightarrow> (\<exists>w'. w = Some w' \<and> own (vr_drv w') x)"

lemma vram_malloc_fresh:
  assumes "vk_ok vk own" "vram_malloc vk n s = Inr (p, s')"
  shows "(\<forall>x. inr p n x \<longrightarrow> \<not> vram_owned own s x \<and> vram_owned own s' x) \<and> (\<forall>x. vram_owned own s x \<longrightarrow> vram_owned own s' x)"
proof -
  obtain w where w: "s = Some w" using assms(2) by (auto simp: vram_malloc_def split: option.split_asm)
  obtain w' where w': "createVertexBuffer vk n w = Inr (p, w')" "s' = Some w'"
    using assms(2) w by (auto simp: vram_malloc_def bindR_eq_Inr)
  obtain b v1 where c1: "vk_create_buffer vk (vr_device w) n (vr_drv w) = Some (b, v1)"
    using w'(1) by (auto simp: createVertexBuffer_def split: option.split_asm)
  obtain r bits where rq: "vk_requirements vk (vr_device w) b v1 = (r, bits)" by fastforce
  have r: "r = n" using w'(1) c1 rq by (simp add: createVertexBuffer_def guardR_eq_Inr)
  obtain pd where pd: "physicalDevice w = Some pd"
    using w'(1) c1 rq r by (auto simp: createVertexBuffer_def split: option.split_asm)
  obtain ty where ty: "findMemoryType vk pd bits MEM_PROPERTIES v1 = Inr ty"
    using w'(1) c1 rq r pd by (auto simp: createVertexBuffer_def bindR_eq_Inr)
  obtain mm v2 where c2: "vk_allocate vk (vr_device w) n ty v1 = Some (mm, v2)"
    using w'(1) c1 rq r pd ty by (auto simp: createVertexBuffer_def split: option.split_asm)
  obtain v4 where c3: "vk_map vk (vr_device w) mm n (vk_bind vk (vr_device w) b mm v2) = Some (p, v4)" "vr_drv w' = v4"
    using w'(1) c1 rq r pd ty c2 by (auto simp: createVertexBuffer_def Let_def split: option.split_asm)
  have "own (vk_bind vk (vr_device w) b mm v2) = own (vr_drv w)"
    using assms(1) c1 c2 unfolding vk_ok_def by metis
  moreover have "(\<forall>x. inr p n x \<longrightarrow> \<not> own (vk_bind vk (vr_device w) b mm v2) x \<and> own v4 x) \<and>
      (\<forall>x. own (vk_bind vk (vr_device w) b mm v2) x \<longrightarrow> own v4 x)"
    using assms(1) c3(1) unfolding vk_ok_def by blast
  ultimately show ?thesis using w w'(2) c3(2) by (simp add: vram_owned_def)
qed

interpretation vf: region_alloc "vram_malloc vk" "vram_owned own" "\<lambda>n s. vk_ok vk own" for vk :: "'v vk" and own
  by unfold_locales (use vram_malloc_fresh in blast)+

text \<open>
  Files of libvramfs do not overlap, for every driver whose mappings are fresh.
\<close>

theorem vramfs_files_disjoint:
  assumes "vk_ok vk own" and "vramfs_run vk cs (empty_tab, w) = Inr (t', w')"
    and "file_byte t' fd x" and "file_byte t' fd' x"
  shows "fd = fd'"
proof -
  have "vf.separate own (t', w')"
    using vf.run_separate [of "(empty_tab, w)" own vk cs "(t', w')"] assms(1,2) [unfolded vramfs_run_eq] tab_ok_empty vf.separate_empty [of own w] by simp
  then show ?thesis using assms(3,4) unfolding vf.separate_def fst_conv by blast
qed

definition fresh_vk :: "nat vk" where
  "fresh_vk = demo_vk\<lparr>vk_requirements := (\<lambda>d b v. (64, 6)), vk_create_buffer := (\<lambda>d n v. Some (1, v)),
     vk_allocate := (\<lambda>d n ty v. Some (2, v)), vk_map := (\<lambda>d mm n v. Some (v, v + n))\<rparr>"

definition demo_vram :: "nat VRamWrapper" where
  "demo_vram = \<lparr>vr_drv = 4096, physicalDevice = Some 7, vr_device = 1, graphicsQueue = 1, buffers = [], bufferMemories = []\<rparr>"

definition demo_vram_calls :: "fs_call list" where
  "demo_vram_calls = [Open ''a'', Seek 1 64 0, Open ''b'', Seek 2 64 0]"

lemma fresh_vk_ok: "vk_ok fresh_vk (\<lambda>v x. x < v)"
  by (simp add: vk_ok_def fresh_vk_def demo_vk_def inr_def)

lemma demo_vram_run:
  "fs_run (vram_malloc fresh_vk) demo_vram_calls (empty_tab, Some demo_vram) =
     Inr (\<lparr>path_to_fd = [(''a'', 1), (''b'', 2)], fd_to_path = [(1, ''a''), (2, ''b'')],
       fd_desc = [(1, \<lparr>fdd_fd = 1, fdd_region = 4096, fdd_len = 64, fdd_va_alloc_off = 0, fdd_seek = 64\<rparr>),
                  (2, \<lparr>fdd_fd = 2, fdd_region = 4160, fdd_len = 64, fdd_va_alloc_off = 0, fdd_seek = 64\<rparr>)], fs_errno = 0\<rparr>,
       Some (demo_vram\<lparr>vr_drv := 4224, buffers := [1, 1], bufferMemories := [2, 2]\<rparr>))"
  by (simp add: demo_vram_calls_def fs_open_def create_fd_def get_free_fd_def free_from.simps empty_tab_def fs_lseek_def
      to_size_def SEEK_SET_def vram_malloc_def createVertexBuffer_def fresh_vk_def demo_vk_def demo_vram_def
      findMemoryType_def MEM_PROPERTIES_def Let_def)

theorem vramfs_files_disjoint_witness:
  "\<exists>t' w'. vramfs_run fresh_vk demo_vram_calls (empty_tab, Some demo_vram) = Inr (t', w') \<and>
    file_byte t' 1 4100 \<and> \<not> file_byte t' 2 4100"
proof -
  obtain t' w' where r: "vramfs_run fresh_vk demo_vram_calls (empty_tab, Some demo_vram) = Inr (t', w')"
    "file_byte t' 1 4100"
    using demo_vram_run by (auto simp: vramfs_run_eq file_byte_def inr_def)
  then show ?thesis using vramfs_files_disjoint [OF fresh_vk_ok r(1,2), of 2] by auto
qed

end
