(* ===== verification/Recovery.thy ===== *)
theory Recovery
  imports Snapshot VramFs Intercept OsEnv
begin

text \<open>
  recovery.cc, the class \<^verbatim>\<open>PmemFile\<close>, and the parts of log.cc that create and open log files.  The state of the process, \<open>sys\<close>, is the
  state of the libraries with the memory of the machine, the graphics memory and the kernel.  \<open>env\<close> collects the parameters.

  Recovery reads the log that was active when the process died, collects the entries of the file and writes their contents back, the
  last entry first.  The lemmas show that this is \<open>undo_all\<close> on the entries of the file, and that every byte written is durable.
\<close>

subsection \<open>State\<close>

record ('d, 'v, 'k) sys =
  lib :: "'d cxl"
  vram :: "'v VRamWrapper option"
  kern :: 'k

record ('d, 'v, 'k) env =
  en_os :: "'k os"
  en_se :: "'d senv"
  en_fe :: "'d fenv"
  en_vk :: "'v vk"

record PmemFile =
  pf_path :: string
  pf_addr :: addr
  pf_len :: nat

definition sys_mach :: "('d, 'v, 'k) sys \<Rightarrow> mach \<times> 'k" where
  "sys_mach s = (mch (lib s), kern s)"

definition put_mach :: "mach \<times> 'k \<Rightarrow> ('d, 'v, 'k) sys \<Rightarrow> ('d, 'v, 'k) sys" where
  "put_mach mk s = s\<lparr>lib := (lib s)\<lparr>mch := fst mk\<rparr>, kern := snd mk\<rparr>"

subsection \<open>Log files\<close>

definition get_log_by_id ::
  "'k os \<Rightarrow> string \<Rightarrow> string \<Rightarrow> addr \<Rightarrow> mach \<times> 'k \<Rightarrow> ((addr \<times> string) \<times> mach \<times> 'k) res" where
  "get_log_by_id os loc name a = (\<lambda>(m, k).
     let log_fname = path_join loc (name @ ''.log'');
         (fd, k1) = os_open os log_fname O_RDWR k
     in guardR (fd \<noteq> -1) ExitFailure
       (case os_file_size os log_fname k1 of
          None \<Rightarrow> Inl Uncaught
        | Some fsize \<Rightarrow>
            let (log_ptr, mk) = os_mmap os a fsize PROT_RW MAP_SHARED fd 0 (m, k1)
            in guardR (log_ptr \<noteq> MAP_FAILED) ExitFailure (Inr ((log_ptr, log_fname), mk))))"

definition init_dirs :: "'k os \<Rightarrow> string \<Rightarrow> 'k \<Rightarrow> 'k res" where
  "init_dirs os loc k =
     (if os_is_directory os loc k then Inr k
      else case os_create_directory os loc k of None \<Rightarrow> Inl Uncaught | Some k' \<Rightarrow> Inr k')"

definition reg_tls_log :: "addr \<Rightarrow> 'z glob_scheme \<Rightarrow> 'z glob_scheme" where
  "reg_tls_log la g =
     g\<lparr>tls_logs := tls_logs g @ [\<lparr>last_log = \<lparr>lean_addr = 0, lean_bytes = 0\<rparr>, last_flush_offset = 0, entries = [], log_area = la\<rparr>]\<rparr>"

definition alloc_log_area :: "('d, 'v, 'k) env \<Rightarrow> int \<Rightarrow> ('d, 'v, 'k) sys \<Rightarrow> (addr \<times> ('d, 'v, 'k) sys) res" where
  "alloc_log_area e fd s =
     (let os = en_os e; loc = log_loc (lib s)
      in if nv_is_prefix os ''/mnt/mss0/'' loc
         then bindR (cxl_malloc (en_fe e) BUF_SIZE (lib s)) (\<lambda>(p, g). Inr (p, s\<lparr>lib := g\<rparr>))
         else if nv_is_prefix os ''/mnt/cxl0/'' loc
         then bindR (vram_malloc (en_vk e) BUF_SIZE (vram s)) (\<lambda>(p, w). Inr (p, s\<lparr>vram := w\<rparr>))
         else let (p, mk) = os_mmap os 0 BUF_SIZE PROT_RW (MAP_SYNC OR MAP_SHARED_VALIDATE) fd 0 (sys_mach s)
              in Inr (p, put_mach mk s))"

definition init_thread_buf :: "('d, 'v, 'k) env \<Rightarrow> ('d, 'v, 'k) sys \<Rightarrow> ('d, 'v, 'k) sys res" where
  "init_thread_buf e s =
     (let os = en_os e;
          fname = nv_S os (int (os_getpid os)) @ ''.'' @ nv_S os (int (os_pthread_self os)) @ ''.log'';
          fpath = log_loc (lib s) @ ''/'' @ fname;
          k1 = (if os_is_regular_file os fpath (kern s) then os_remove_all os fpath (kern s) else kern s);
          (fd, k2) = os_open os fpath (O_CREAT OR O_RDWR) k1
      in guardR (fd \<noteq> -1) ExitFailure
        (let (r, k3) = os_fallocate os fd 0 BUF_SZ k2
         in guardR (r \<noteq> -1) ExitFailure
           (bindR (alloc_log_area e fd (s\<lparr>kern := k3\<rparr>)) (\<lambda>(la, s1).
              guardR (la \<noteq> MAP_FAILED) ExitFailure
                (let m1 = st64 (log_offset_at la) 0 (mch (lib s1));
                     m2 = st64 (tail_ptr_at la) (content_at la) m1;
                     g = reg_tls_log la ((lib s1)\<lparr>mch := m2\<rparr>)
                 in Inr (s1\<lparr>lib := g, kern := os_close os fd (kern s1)\<rparr>))))))"

definition Log_ctor :: "('d, 'v, 'k) env \<Rightarrow> ('d, 'v, 'k) sys \<Rightarrow> ('d, 'v, 'k) sys res" where
  "Log_ctor e s = bindR (init_dirs (en_os e) (log_loc (lib s)) (kern s)) (\<lambda>k. init_thread_buf e (s\<lparr>kern := k\<rparr>))"

subsection \<open>Finding the logs that need recovery\<close>

definition get_backing_fname :: "PmemFile \<Rightarrow> string" where
  "get_backing_fname f = pf_path f @ ''.cxlbuf_backing''"

definition get_dependency_fname :: "PmemFile \<Rightarrow> string" where
  "get_dependency_fname f = pf_path f @ ''-dependencies.txt''"

definition get_map_dimensions :: "PmemFile \<Rightarrow> addr \<times> nat" where
  "get_map_dimensions f = (pf_addr f, pf_len f)"

definition has_backing_file :: "'k os \<Rightarrow> PmemFile \<Rightarrow> 'k \<Rightarrow> bool" where
  "has_backing_file os f k = os_is_regular_file os (get_backing_fname f) k"

fun scan_logs :: "'k os \<Rightarrow> string \<Rightarrow> string list \<Rightarrow> mach \<times> 'k \<Rightarrow> (string list \<times> mach \<times> 'k) res" where
  "scan_logs os loc [] mk = Inr ([], mk)"
| "scan_logs os loc (log # logs) mk =
     (let toks = nv_split os log '','' (Some 3)
      in guardR (1 < length toks) OutOfBounds
        (let name = toks ! 0 @ ''.'' @ toks ! 1;
             lfname = loc @ ''/'' @ name @ ''.log''
         in if os_is_regular_file os lfname (snd mk)
            then bindR (get_log_by_id os loc name 0 mk) (\<lambda>((log_ptr, ln), mk1).
                   if ld64 (fst mk1) (log_state_at log_ptr) = state_val ACTIVE then Inr ([log], mk1)
                   else case os_file_size os lfname (snd mk1) of
                          None \<Rightarrow> Inl Uncaught
                        | Some sz \<Rightarrow>
                            let (mu_ret, mk2) = os_munmap os log_ptr sz mk1
                            in guardR (mu_ret \<noteq> -1) ExitFailure (scan_logs os loc logs mk2))
            else scan_logs os loc logs mk))"

definition needs_recovery :: "'k os \<Rightarrow> string \<Rightarrow> PmemFile \<Rightarrow> mach \<times> 'k \<Rightarrow> (string list \<times> mach \<times> 'k) res" where
  "needs_recovery os loc f mk =
     (let dfname = get_dependency_fname f
      in if os_is_regular_file os dfname (snd mk)
         then scan_logs os loc (nv_split os (os_read_file os dfname (snd mk)) newline None) mk
         else Inr ([], mk))"

subsection \<open>Replaying a log\<close>

function rec_collect :: "mem \<Rightarrow> addr \<Rightarrow> nat \<Rightarrow> addr \<Rightarrow> nat \<Rightarrow> nat \<Rightarrow> nat list" where
  "rec_collect m c log_offset a len cur_off =
     (if cur_off < log_offset
      then let entry = c + cur_off;
               rest = rec_collect m c log_offset a len (cur_off + ent_bytes m entry + log_entry_sz)
           in if a \<le> ent_addr m entry \<and> ent_addr m entry < a + len then cur_off # rest else rest
      else [])"
  by pat_completeness auto
termination
  by (relation "measure (\<lambda>(m, c, off, a, len, cur). off - cur)") (auto simp: log_entry_sz_def)

declare rec_collect.simps [simp del]

definition rec_apply_entry :: "pmem_ops \<Rightarrow> addr \<Rightarrow> nat \<Rightarrow> mach \<Rightarrow> mach" where
  "rec_apply_entry ops c off m =
     (let entry = c + off; dst_addr = ent_addr (cpu m) entry; n = ent_bytes (cpu m) entry
      in po_drain ops (po_flush ops dst_addr n (c_memmove dst_addr (entry + log_entry_sz) n m)))"

definition rec_replay :: "pmem_ops \<Rightarrow> addr \<Rightarrow> addr \<Rightarrow> nat \<Rightarrow> mach \<Rightarrow> mach" where
  "rec_replay ops la a len m =
     foldl (\<lambda>m off. rec_apply_entry ops (content_at la) off m) m
       (rev (rec_collect (cpu m) (content_at la) (ld64 m (log_offset_at la)) a len 0))"

definition recover_one :: "'k os \<Rightarrow> pmem_ops \<Rightarrow> string \<Rightarrow> PmemFile \<Rightarrow> string \<Rightarrow> mach \<times> 'k \<Rightarrow> (mach \<times> 'k) res" where
  "recover_one os ops loc f log mk =
     (let toks = nv_split os log '','' (Some 3)
      in guardR (2 < length toks) OutOfBounds
        (bindR (stoi (toks ! 0)) (\<lambda>pid.
         bindR (stoull 10 (toks ! 1)) (\<lambda>tid.
         bindR (stoull 10 (toks ! 2)) (\<lambda>a.
         bindR (get_log_by_id os loc (nv_S os pid @ ''.'' @ nv_S os (int tid)) 0 mk) (\<lambda>((log_ptr, lfname), m1, k1).
         let (fd, k2) = os_open os (get_backing_fname f) O_RDWR k1
         in guardR (fd \<noteq> -1) ExitFailure
           (let (maddr, m2, k3) = os_mmap os a (pf_len f) PROT_RW (MAP_SHARED_VALIDATE OR MAP_SYNC) fd 0 (m1, k2)
            in guardR (maddr \<noteq> MAP_FAILED) ExitFailure
              (let m3 = rec_replay ops log_ptr a (pf_len f) m2;
                   k4 = os_close os fd k3
               in case os_file_size os lfname k4 of
                    None \<Rightarrow> Inl Uncaught
                  | Some sz \<Rightarrow>
                      let (r1, mk5) = os_munmap os log_ptr sz (m3, k4)
                      in guardR (r1 \<noteq> -1) ExitFailure
                        (let (r2, mk6) = os_munmap os a (pf_len f) mk5
                         in guardR (r2 \<noteq> -1) ExitFailure (Inr mk6))))))))))"

fun recover :: "'k os \<Rightarrow> pmem_ops \<Rightarrow> string \<Rightarrow> PmemFile \<Rightarrow> string list \<Rightarrow> mach \<times> 'k \<Rightarrow> (mach \<times> 'k) res" where
  "recover os ops loc f [] mk = Inr mk"
| "recover os ops loc f (log # logs) mk = bindR (recover_one os ops loc f log mk) (recover os ops loc f logs)"

subsection \<open>Backing files\<close>

definition create_backing_file_internal :: "'k os \<Rightarrow> PmemFile \<Rightarrow> 'k \<Rightarrow> 'k res" where
  "create_backing_file_internal os f k =
     (let bfname = get_backing_fname f
      in case os_file_size os (pf_path f) k of
           None \<Rightarrow> Inl Uncaught
         | Some sz \<Rightarrow>
             if sz = 0
             then let (fd, k1) = os_open os bfname (O_CREAT OR O_RDWR) k
                  in guardR (fd \<noteq> -1) ExitFailure
                    (let (l, k2) = os_lseek os fd (pf_len f + 1) k1
                     in guardR (l = int (pf_len f + 1)) AssertFailed
                       (let (w, k3) = os_write os fd [CHR 0x00] k2
                        in guardR (w = 1) AssertFailed (Inr (os_close os fd k3))))
             else case os_copy_file os (pf_path f) bfname k of
                    None \<Rightarrow> Inl Uncaught
                  | Some (ok, k1) \<Rightarrow> guardR ok ExitFailure (Inr k1))"

definition create_backing_file :: "'k os \<Rightarrow> PmemFile \<Rightarrow> 'k \<Rightarrow> 'k res" where
  "create_backing_file os f k =
     (if \<not> has_backing_file os f k then create_backing_file_internal os f k
      else let (src_fd, k1) = os_open os (get_backing_fname f) O_RDONLY k
           in guardR (src_fd \<noteq> -1) ExitFailure
             (let (dst_fd, k2) = os_open os (pf_path f) O_WRONLY k1
              in guardR (dst_fd \<noteq> -1) ExitFailure
                (let (sf_ret, k3) = os_sendfile os dst_fd src_fd (pf_len f) k2
                 in guardR (sf_ret \<noteq> -1) ExitFailure (Inr (os_close os dst_fd (os_close os src_fd k3))))))"

definition lift_lib :: "'d cxl run \<Rightarrow> ('d, 'v, 'k) sys \<Rightarrow> ('d, 'v, 'k) sys run" where
  "lift_lib r s = bindX r (\<lambda>g. ret (s\<lparr>lib := g\<rparr>))"

definition map_device_backing ::
  "('d, 'v, 'k) env \<Rightarrow> nat \<Rightarrow> PmemFile \<Rightarrow> bool \<Rightarrow> int \<Rightarrow> ('d, 'v, 'k) sys \<Rightarrow> (addr \<times> ('d, 'v, 'k) sys) run" where
  "map_device_backing e t f oncxl bck_fd s =
     (let os = en_os e; (tmp_addr, mk) = os_mmap os 0 (pf_len f) PROT_RW MAP_PRIVATE bck_fd 0 (sys_mach s)
      in guardX (tmp_addr \<noteq> MAP_FAILED) ExitFailure
        (bindX (Some (if oncxl
                then bindR (vram_malloc (en_vk e) (pf_len f) (vram s)) (\<lambda>(p, w). Inr (p, (put_mach mk s)\<lparr>vram := w\<rparr>))
                else bindR (cxl_malloc (en_fe e) (pf_len f) (lib (put_mach mk s))) (\<lambda>(p, g). Inr (p, (put_mach mk s)\<lparr>lib := g\<rparr>))))
           (\<lambda>(mbck_addr, s1).
         guardX (backing_file_start (lib s1) = 0) AssertFailed
         (bindX (Some (memcpy (se_ops (en_se e)) t mbck_addr tmp_addr (pf_len f) ((lib s1)\<lparr>backing_file_start := mbck_addr\<rparr>))) (\<lambda>g2.
          bindX (if oncxl then ret g2
                 else case ctrlr g2 of None \<Rightarrow> Some (Inl NullDeref)
                      | Some c \<Rightarrow> flush_caches (se_spdk (en_se e)) (se_cenv (en_se e)) g2) (\<lambda>g3.
          let (r, mk') = os_munmap os tmp_addr (pf_len f) (mch g3, kern s1)
          in ret (mbck_addr, put_mach mk' (s1\<lparr>lib := g3\<rparr>))))))))"

definition map_backing_file :: "('d, 'v, 'k) env \<Rightarrow> nat \<Rightarrow> PmemFile \<Rightarrow> ('d, 'v, 'k) sys \<Rightarrow> ('d, 'v, 'k) sys run" where
  "map_backing_file e t f s =
     (let os = en_os e; bfname = get_backing_fname f;
          bck_addr = uadd64 (pf_addr f) 0x10000000000;
          (bck_fd, k1) = os_open os bfname O_RDWR (kern s);
          s1 = s\<lparr>kern := k1\<rparr>;
          oncxl = nv_is_prefix os ''/mnt/cxl0'' bfname;
          onmss = nv_is_prefix os ''/mnt/mss0'' bfname
      in guardX (bck_fd \<noteq> -1) ExitFailure
        (bindX (if oncxl \<or> onmss then map_device_backing e t f oncxl bck_fd s1
                else if nv_is_prefix os ''/mnt/pmem0/'' bfname
                then let (p, mk) = os_mmap os bck_addr (pf_len f) PROT_RW (MAP_SHARED_VALIDATE OR MAP_SYNC) bck_fd 0 (sys_mach s1);
                         s2 = put_mach mk s1
                     in ret (p, s2\<lparr>lib := (lib s2)\<lparr>backing_file_start := 0x20000000000\<rparr>\<rparr>)
                else ret (MAP_FAILED, s1))
           (\<lambda>(mbck_addr, s2).
         guardX (mbck_addr \<noteq> MAP_FAILED) ExitFailure
         (guardX (os_madvise os mbck_addr (pf_len f) MADV_HUGEPAGE (kern s2) \<noteq> -1) ExitFailure
          (ret (s2\<lparr>lib := upd_mch (store mbck_addr [1]) (lib s2)\<rparr>))))))"

definition PmemFile_ctor ::
  "('d, 'v, 'k) env \<Rightarrow> string \<Rightarrow> addr \<Rightarrow> nat \<Rightarrow> ('d, 'v, 'k) sys \<Rightarrow> (PmemFile \<times> ('d, 'v, 'k) sys) res" where
  "PmemFile_ctor e path a len s =
     (let f = \<lparr>pf_path = path, pf_addr = a, pf_len = len\<rparr>; loc = log_loc (lib s); os = en_os e
      in if path \<noteq> []
         then bindR (needs_recovery os loc f (sys_mach s)) (\<lambda>(recovery_files, mk).
              bindR (if recovery_files \<noteq> [] then recover os (se_ops (en_se e)) loc f recovery_files mk else Inr mk) (\<lambda>mk'.
              Inr (f, put_mach mk' s)))
         else Inr (f, s))"

definition set_addr :: "addr \<Rightarrow> PmemFile \<Rightarrow> PmemFile" where
  "set_addr a f = f\<lparr>pf_addr := a\<rparr>"

definition write_dependency_internal :: "'k os \<Rightarrow> PmemFile \<Rightarrow> 'k \<Rightarrow> 'k res" where
  "write_dependency_internal os f k =
     (let (fd, k1) = os_open os (get_dependency_fname f) (O_CREAT OR O_APPEND OR O_RDWR) k
      in guardR (fd \<noteq> -1) ExitFailure
        (let entry = nv_S os (int (os_getpid os)) @ '','' @ nv_S os (int (os_pthread_self os)) @ '','' @
                       nv_S os (int (pf_addr f)) @ newline;
             (bytes, k2) = os_write os fd entry k1
         in guardR (bytes = int (length entry)) ExitFailure (Inr (os_close os fd k2))))"

definition write_dependency :: "'k os \<Rightarrow> PmemFile \<Rightarrow> 'k \<Rightarrow> 'k res" where
  "write_dependency os f k =
     (if get_dependency_fname f \<noteq> ''-dependencies.txt'' then write_dependency_internal os f k else Inr k)"

subsection \<open>Mapping the working copy\<close>

definition page_cache_flags :: "bool \<Rightarrow> addr \<Rightarrow> 32 word \<Rightarrow> 32 word" where
  "page_cache_flags cxl_mode a flags =
     (let f1 = flags AND NOT MAP_SYNC AND NOT MAP_SHARED AND NOT MAP_SHARED_VALIDATE;
          f2 = (if a \<noteq> 0 then f1 OR MAP_FIXED_NOREPLACE else f1)
      in if cxl_mode then f2 OR MAP_PRIVATE else f2 OR MAP_SHARED)"

definition record_mapping :: "('d, 'v, 'k) env \<Rightarrow> PmemFile \<Rightarrow> int \<Rightarrow> addr \<Rightarrow> ('d, 'v, 'k) sys \<Rightarrow> ('d, 'v, 'k) sys res" where
  "record_mapping e f fd result s =
     (let os = en_os e;
          range = \<lparr>range_start = pf_addr f, range_end = uadd64 (pf_addr f) (pf_len f)\<rparr>;
          md = \<lparr>md_fd = fd, md_range = range, md_fpath = pf_path f\<rparr>;
          g = (lib s)\<lparr>mapped_addr := AList.update fd md (mapped_addr (lib s))\<rparr>;
          huge = nv_env_val os ''CXLBUF_USE_HUGEPAGE''
      in guardR (addr_in_range g result \<or> pf_addr f = 0) ExitFailure
        (guardR (\<not> (cxlModeEnabled g \<or> huge) \<or> os_madvise os result (pf_len f) MADV_HUGEPAGE (kern s) \<noteq> -1) ExitFailure
         (guardR (huge \<or> os_madvise os result (pf_len f) MADV_NOHUGEPAGE (kern s) \<noteq> -1) ExitFailure
          (Inr (s\<lparr>lib := g\<rparr>)))))"

definition map_to_page_cache ::
  "('d, 'v, 'k) env \<Rightarrow> PmemFile \<Rightarrow> 32 word \<Rightarrow> 32 word \<Rightarrow> int \<Rightarrow> nat \<Rightarrow> ('d, 'v, 'k) sys \<Rightarrow>
     (addr \<times> ('d, 'v, 'k) sys) res" where
  "map_to_page_cache e f flags prot fd off s =
     (let os = en_os e; fpath = nv_fd_to_fname os fd (kern s)
      in guardR (\<not> (cxlModeEnabled (lib s) \<and> fpath \<noteq> [] \<and> \<not> nv_is_prefix os ''/mnt/pmem0/'' fpath \<and>
                     \<not> nv_is_prefix os ''/mnt/mss0/'' fpath)) ExitFailure
        (let (result, mk) = os_mmap os (pf_addr f) (pf_len f) prot (page_cache_flags (cxlModeEnabled (lib s)) (pf_addr f) flags)
                              fd off (sys_mach s);
             s1 = put_mach mk s
         in bindR (if result = MAP_FAILED then Inr s1 else if fd \<noteq> -1 then record_mapping e f fd result s1 else Inr s1) (\<lambda>s2.
            if fd \<noteq> -1
            then bindR (write_dependency os f (kern s2)) (\<lambda>k. Inr (result, s2\<lparr>kern := k\<rparr>))
            else Inr (result, s2))))"

subsection \<open>Replay undoes the file's entries\<close>

definition file_entries :: "mach \<Rightarrow> addr \<Rightarrow> addr \<Rightarrow> nat \<Rightarrow> (addr \<times> byte list) list" where
  "file_entries m la a len = filter (\<lambda>e. a \<le> fst e \<and> fst e < a + len) (log_list m la)"

definition replay_safe :: "mach \<Rightarrow> addr \<Rightarrow> nat \<Rightarrow> addr \<Rightarrow> nat \<Rightarrow> bool" where
  "replay_safe m la cap a len \<longleftrightarrow> log_wf m la \<and> ld64 m (log_offset_at la) \<le> cap \<and>
     (\<forall>e\<in>set (file_entries m la a len). \<forall>x. inr (fst e) (length (snd e)) x \<longrightarrow> outside_log la cap x)"

lemma rec_collect_walk:
  "rec_collect m c off a len cur = filter (\<lambda>k. a \<le> ent_addr m (c + k) \<and> ent_addr m (c + k) < a + len) (log_walk m c off cur)"
proof (induction m c off a len cur rule: rec_collect.induct)
  case (1 m c off a len cur)
  show ?case
  proof (cases "cur < off")
    case True
    then show ?thesis using "1.IH" [OF True refl]
      by (simp add: rec_collect.simps [of m c off a len cur] log_walk.simps [of m c off cur] Let_def)
  qed (simp add: rec_collect.simps [of m c off a len cur] log_walk.simps [of m c off cur])
qed

lemma fst_log_entry_of: "fst (log_entry_of m p) = ent_addr m p" and
  len_log_entry_of: "length (snd (log_entry_of m p)) = ent_bytes m p"
  by (simp_all add: log_entry_of_def ent_content_def)

lemma collect_entries:
  "map (\<lambda>k. log_entry_of (cpu m) (content_at la + k)) (rec_collect (cpu m) (content_at la) (ld64 m (log_offset_at la)) a len 0) =
   file_entries m la a len"
  by (simp add: rec_collect_walk file_entries_def log_list_def filter_map o_def fst_log_entry_of)

lemma apply_entry:
  assumes "pmem_ops_ok ops" "log_entry_of (cpu m) (c + k) = (d, bs)"
  shows "cpu (rec_apply_entry ops c k m) = wr (cpu m) d bs"
    and "durable m x \<or> inr d (length bs) x \<Longrightarrow> durable (rec_apply_entry ops c k m) x"
proof -
  have e: "ent_addr (cpu m) (c + k) = d" "rd (cpu m) (c + k + log_entry_sz) (ent_bytes (cpu m) (c + k)) = bs"
    using assms(2) by (auto simp: log_entry_of_def ent_content_def)
  have n: "ent_bytes (cpu m) (c + k) = length bs" using e(2) by (metis length_rd)
  show "cpu (rec_apply_entry ops c k m) = wr (cpu m) d bs"
    using e assms(1) by (simp add: rec_apply_entry_def Let_def pmem_cpu)
  have "pending (po_flush ops d (length bs) (store d bs m)) x" if "durable m x \<or> inr d (length bs) x"
    using that inr_in_lines [of d "length bs" x] durable_store [of d bs x m] durable_pending
    by (intro pending_flush [OF assms(1)]) (cases "inr d (length bs) x"; auto)
  then show "durable m x \<or> inr d (length bs) x \<Longrightarrow> durable (rec_apply_entry ops c k m) x"
    using e n pending_drain [OF assms(1)] by (simp add: rec_apply_entry_def Let_def c_memmove_def)
qed

lemma replay_foldr:
  assumes ops: "pmem_ops_ok ops" and log: "\<And>x. inr la (log_hdr_sz + cap) x \<Longrightarrow> cpu m x = cpu m0 x"
    and ks: "\<forall>k\<in>set ks. k + ent_bytes (cpu m0) (content_at la + k) + log_entry_sz \<le> cap \<and>
      (\<forall>x. inr (ent_addr (cpu m0) (content_at la + k)) (ent_bytes (cpu m0) (content_at la + k)) x \<longrightarrow> outside_log la cap x)"
  defines "es \<equiv> map (\<lambda>k. log_entry_of (cpu m0) (content_at la + k)) ks"
  defines "m' \<equiv> foldr (\<lambda>k m. rec_apply_entry ops (content_at la) k m) ks m"
  shows "cpu m' = undo_all es (cpu m) \<and> (\<forall>x. inr la (log_hdr_sz + cap) x \<longrightarrow> cpu m' x = cpu m0 x) \<and>
    (\<forall>x. durable m x \<or> covered es x \<longrightarrow> durable m' x)"
  unfolding es_def m'_def using ks
proof (induction ks)
  case Nil
  then show ?case using log by simp
next
  case (Cons k ks)
  let ?c = "content_at la"
  let ?m1 = "foldr (\<lambda>k m. rec_apply_entry ops ?c k m) ks m"
  obtain d bs where e: "log_entry_of (cpu m0) (?c + k) = (d, bs)" by fastforce
  have ih: "cpu ?m1 = undo_all (map (\<lambda>k. log_entry_of (cpu m0) (?c + k)) ks) (cpu m)"
    "\<forall>x. inr la (log_hdr_sz + cap) x \<longrightarrow> cpu ?m1 x = cpu m0 x"
    "\<forall>x. durable m x \<or> covered (map (\<lambda>k. log_entry_of (cpu m0) (?c + k)) ks) x \<longrightarrow> durable ?m1 x"
    using Cons.IH Cons.prems unfolding set_simps by blast+
  have k: "k + ent_bytes (cpu m0) (?c + k) + log_entry_sz \<le> cap" using Cons.prems by simp
  have e1: "log_entry_of (cpu ?m1) (?c + k) = (d, bs)"
    unfolding e [symmetric]
    by (rule log_entry_of_cong, rule ih(2) [rule_format]) (use k in \<open>auto simp: inr_def log_layout_defs\<close>)
  have d: "d = ent_addr (cpu m0) (?c + k)" "length bs = ent_bytes (cpu m0) (?c + k)"
    using e fst_log_entry_of len_log_entry_of by (metis fst_conv, metis snd_conv)
  note ap = apply_entry [OF ops e1]
  have "cpu (rec_apply_entry ops ?c k ?m1) x = cpu m0 x" if "inr la (log_hdr_sz + cap) x" for x
  proof -
    have "\<not> inr d (length bs) x" using Cons.prems that d by (auto simp: outside_log_def)
    then show ?thesis using ap(1) ih(2) that by (simp add: wr_apply_out)
  qed
  then show ?case using ih ap e by (auto simp: o_def)
qed

lemma rec_replay_undo:
  assumes ops: "pmem_ops_ok ops" and safe: "replay_safe m la cap a len"
  shows "cpu (rec_replay ops la a len m) = undo_all (file_entries m la a len) (cpu m)"
    and "durable m x \<or> covered (file_entries m la a len) x \<Longrightarrow> durable (rec_replay ops la a len m) x"
proof -
  let ?c = "content_at la" and ?off = "ld64 m (log_offset_at la)"
  let ?ks = "rec_collect (cpu m) ?c ?off a len 0"
  have ex: "log_exact (cpu m) ?c ?off 0" and cap: "?off \<le> cap" using safe by (auto simp: replay_safe_def log_wf_def)
  have sub: "k \<in> set (log_walk (cpu m) ?c ?off 0)" if "k \<in> set ?ks" for k using that by (simp add: rec_collect_walk)
  have k1: "k + ent_bytes (cpu m) (?c + k) + log_entry_sz \<le> cap" if "k \<in> set ?ks" for k
    using log_walk_in [OF ex sub [OF that]] cap by simp
  have k2: "outside_log la cap x" if "k \<in> set ?ks" "inr (ent_addr (cpu m) (?c + k)) (ent_bytes (cpu m) (?c + k)) x" for k x
  proof -
    have "log_entry_of (cpu m) (?c + k) \<in> set (file_entries m la a len)"
      using that(1) collect_entries [of m la a len] by (metis (no_types, lifting) imageI list.set_map)
    then show ?thesis using safe that(2) by (auto simp: replay_safe_def fst_log_entry_of len_log_entry_of)
  qed
  note r = replay_foldr [OF ops refl, of ?ks m la cap, unfolded collect_entries]
  have eq: "rec_replay ops la a len m = foldr (\<lambda>k m. rec_apply_entry ops ?c k m) ?ks m"
    by (simp add: rec_replay_def foldl_conv_foldr)
  show "cpu (rec_replay ops la a len m) = undo_all (file_entries m la a len) (cpu m)" unfolding eq using r k1 k2 by blast
  show "durable m x \<or> covered (file_entries m la a len) x \<Longrightarrow> durable (rec_replay ops la a len m) x" unfolding eq using r k1 k2 by blast
qed

subsection \<open>A crash while a snapshot copies\<close>

text \<open>The copy loop writes the backing range only, so a header that was durable when the loop began stays durable.\<close>

lemma snap_copy_far:
  assumes ops: "pmem_ops_ok ops" and lay: "layout H sa pb len" and e: "in_work sa len e"
    and x: "x < pb \<or> pb + len + 512 \<le> x"
  shows "cpu (fst (snap_copy ops pb sa e mc)) x = cpu (fst mc) x \<and> media (fst (snap_copy ops pb sa e mc)) x = media (fst mc) x"
proof -
  let ?a = "lean_addr e" and ?n = "lean_bytes e"
  let ?dst = "pb + (?a - sa)"
  have L: "sa + len + 512 < 2 ^ 64" "pb + len + 512 < 2 ^ 64" "pb mod 512 = 0" using lay by (auto simp: layout_def)
  have E: "sa \<le> ?a" "?a + ?n \<le> sa + len" using e by (auto simp: in_work_def)
  have off: "usub64 ?a sa = ?a - sa" using E L by (simp add: usub64_ge)
  have dst: "uadd64 pb (usub64 ?a sa) = ?dst" unfolding off using E L by (simp add: uadd64_small)
  obtain d k where dk: "snap_block ?dst ?n = (d, k)" by fastforce
  note sp = snap_block_spec [OF dk] and base = snap_block_base [OF dk L(3)]
  have "pb \<le> d" using base by simp
  then have o: "\<not> inr d k x" "\<not> inr ?dst ?n x" using sp(1-3) E x unfolding inr_def by linarith+
  show ?thesis
    using o dst dk by (cases mc) (auto simp: snap_copy_def Let_def pmem_cpu [OF ops] pmem_media [OF ops] wr_apply_out
        c_memmove_def media_store)
qed

lemma snap_loop_far:
  assumes ops: "pmem_ops_ok ops" and lay: "layout H sa pb len" and x: "x < pb \<or> pb + len + 512 \<le> x"
    and "\<forall>e\<in>set es. in_work sa len e"
  shows "cpu (fst (ss_mem (snap_loop ops pb sa start diff prev es s))) x = cpu (fst (ss_mem s)) x \<and>
    media (fst (ss_mem (snap_loop ops pb sa start diff prev es s))) x = media (fst (ss_mem s)) x"
  using assms(4)
proof (induction es arbitrary: prev s)
  case (Cons e es)
  have e: "in_work sa len e" using Cons.prems by simp
  show ?case
    using Cons.IH Cons.prems snap_copy_far [OF ops lay e x]
    by (simp add: Let_def case_prod_unfold)
qed simp

lemma active_header:
  assumes ops: "pmem_ops_ok ops" and m2: "set_state ops L ACTIVE True (st64 (log_offset_at (log_area L)) 0 m) = Inr m2"
  shows "ld64 m2 (log_state_at (log_area L)) = state_val ACTIVE" and "ld64 m2 (log_offset_at (log_area L)) = 0"
    and "inr (log_area L) 24 x \<Longrightarrow> durable m2 x"
proof -
  let ?la = "log_area L"
  let ?f = "po_flush ops ?la log_hdr_sz (st64 (log_state_at ?la) (state_val ACTIVE) (st64 (log_offset_at ?la) 0 m))"
  have m2': "m2 = po_drain ops ?f" using m2 by (simp add: set_state_def Let_def guardR_eq_Inr)
  have c: "cpu m2 = cpu (st64 (log_state_at ?la) (state_val ACTIVE) (st64 (log_offset_at ?la) 0 m))"
    by (simp add: m2' pmem_cpu [OF ops])
  show "ld64 m2 (log_state_at ?la) = state_val ACTIVE"
    using ld64_st64_same [of "state_val ACTIVE" "log_state_at ?la"] c by (simp add: ld64_def)
  show "ld64 m2 (log_offset_at ?la) = 0"
    using ld64_st64_same [of 0 "log_offset_at ?la" m] c
      ld64_st64_disj [of "log_offset_at ?la" "log_state_at ?la"] by (simp add: ld64_def log_layout_defs ldn_wr_disj)
  show "durable m2 x" if "inr ?la 24 x"
    unfolding m2' by (rule durable_drain [OF ops], rule pmem_inflight(1) [OF ops])
      (use that inr_in_lines in \<open>auto simp: log_hdr_sz_def\<close>)
qed

text \<open>
  C13: snapshot empties the log before it marks it active, so a crash in the middle of the copy finds an active log with no
  entries: whatever prefix of the entries was copied, every image that the crash can leave is one on which replay does nothing, and
  the backing copy stays as far as it had reached the media.
\<close>

theorem mid_snapshot_crash_not_undone:
  assumes "pmem_ops_ok ops" and "layout (inr (log_area L) 24) sa pb len" and "\<forall>e\<in>set es. in_work sa len e"
    and "\<forall>x. inr (log_area L) 24 x \<longrightarrow> x < pb \<or> pb + len + 512 \<le> x"
    and "set_state ops L ACTIVE True (st64 (log_offset_at (log_area L)) 0 (flush_all ops L m)) = Inr m2"
    and "fst (ss_mem s) = m2"
    and "crash_image (fst (ss_mem (snap_loop ops pb sa start diff None (take n es) s))) im" and "cpu mm = im"
  shows "ld64 mm (log_state_at (log_area L)) = state_val ACTIVE \<and> rec_replay ops (log_area L) a flen mm = mm"
proof -
  let ?la = "log_area L" and ?m3 = "fst (ss_mem (snap_loop ops pb sa start diff None (take n es) s))"
  have es: "\<forall>e\<in>set (take n es). in_work sa len e" using assms(3) by (meson in_set_takeD)
  note h = active_header [OF assms(1,5)]
  have far: "cpu ?m3 x = cpu m2 x \<and> media ?m3 x = media m2 x" if "inr ?la 24 x" for x
    using snap_loop_far [OF assms(1,2) _ es, of x start diff None s] assms(4,6) that by blast
  have im: "im x = cpu m2 x" if "inr ?la 24 x" for x
    using crash_image_durable [OF assms(7), of x] far [OF that] h(3) [OF that] by (simp add: durable_def)
  have st: "ld64 mm (log_state_at ?la) = ld64 m2 (log_state_at ?la)"
    by (rule ld64_cong) (use im assms(8) in \<open>auto simp: inr_def log_layout_defs\<close>)
  have off: "ld64 mm (log_offset_at ?la) = ld64 m2 (log_offset_at ?la)"
    by (rule ld64_cong) (use im assms(8) in \<open>auto simp: inr_def log_layout_defs\<close>)
  show ?thesis using h(1,2) by (simp add: st off rec_replay_def rec_collect.simps)
qed

text \<open>The demonstration crashes after the copy of an entry that the media may or may not have received.\<close>

definition crash_start :: mach where
  "crash_start = po_drain clwb_ops (po_flush clwb_ops 4096 log_hdr_sz (st64 4096 (state_val ACTIVE)
     (st64 4104 0 (flush_all clwb_ops demo_log (mch demo_cxl)))))"

definition crash_point :: snap_st where
  "crash_point = snap_loop clwb_ops (2 ^ 41) (2 ^ 40) (2 ^ 40) 4096 None [demo_entry]
     \<lparr>ss_mem = (crash_start, demo_ctrs), applied_cnt = 0, entry_cnt = 0, total_proc = 0\<rparr>"

text \<open>Without an intervening write every byte may be the one the processor sees.\<close>

definition coherent :: "mach \<Rightarrow> bool" where
  "coherent m \<longleftrightarrow> (\<forall>x. cpu m x \<in> media m x)"

lemma coherent_store: "coherent m \<Longrightarrow> coherent (store a bs m)"
  unfolding coherent_def media_store cpu_store by (auto simp: wr_def)

lemma coherent_pmem:
  assumes "pmem_ops_ok ops" "coherent m"
  shows "coherent (po_flush ops a n m)" "coherent (po_drain ops m)" "coherent (po_streaming_wr ops a bs m)"
  using assms unfolding coherent_def pmem_cpu [OF assms(1)] pmem_media [OF assms(1)] by (auto simp: wr_def)

lemma coherent_snap_copy:
  assumes "pmem_ops_ok ops" "coherent (fst mc)"
  shows "coherent (fst (snap_copy ops pb sa e mc))"
  using assms by (cases mc) (auto simp: snap_copy_def Let_def c_memmove_def case_prod_unfold intro: coherent_pmem coherent_store)

lemma coherent_snap_loop:
  assumes "pmem_ops_ok ops" "coherent (fst (ss_mem s))"
  shows "coherent (fst (ss_mem (snap_loop ops pb sa start diff prev es s)))"
  using assms(2)
proof (induction es arbitrary: prev s)
  case (Cons e es)
  show ?case using Cons.IH Cons.prems coherent_snap_copy [OF assms(1) Cons.prems] by (simp add: Let_def case_prod_unfold)
qed simp

lemma crash_start_facts:
  "coherent crash_start" "cpu crash_start (2 ^ 40 + 16) = 9"
  "set_state clwb_ops demo_log ACTIVE True (st64 (log_offset_at (log_area demo_log)) 0 (flush_all clwb_ops demo_log (mch demo_cxl))) = Inr crash_start"
proof -
  have c: "coherent (mch demo_cxl)"
    unfolding demo_cxl_def by (simp add: glob.defs) (rule coherent_store, simp add: coherent_def)
  show "coherent crash_start"
    unfolding crash_start_def st64_def flush_all_def Let_def
    using c by (auto intro!: coherent_pmem [OF clwb_ops_ok] coherent_store)
  show "cpu crash_start (2 ^ 40 + 16) = 9"
    by (simp add: crash_start_def pmem_cpu [OF clwb_ops_ok] flush_all_frame [OF clwb_ops_ok] wr_apply_out inr_def wr_def)
  show "set_state clwb_ops demo_log ACTIVE True (st64 (log_offset_at (log_area demo_log)) 0 (flush_all clwb_ops demo_log (mch demo_cxl))) = Inr crash_start"
    by (simp add: crash_start_def set_state_def demo_log_def log_layout_defs Let_def)
qed

theorem mid_snapshot_crash_not_undone_witness:
  "\<exists>im. crash_image (fst (ss_mem crash_point)) im \<and> im (2 ^ 41 + 16) = 9 \<and>
     rec_replay clwb_ops 4096 (2 ^ 40) 4096 \<lparr>cpu = im, media = (\<lambda>x. {im x}), inflight = (\<lambda>x. False)\<rparr> =
       \<lparr>cpu = im, media = (\<lambda>x. {im x}), inflight = (\<lambda>x. False)\<rparr>"
proof -
  let ?im = "cpu (fst (ss_mem crash_point))"
  let ?s = "\<lparr>ss_mem = (crash_start, demo_ctrs), applied_cnt = 0, entry_cnt = 0, total_proc = 0\<rparr>"
  have lay: "layout (inr 4096 24) (2 ^ 40) (2 ^ 41) 4096" by (simp add: layout_def inr_def)
  have e: "in_work (2 ^ 40) 4096 demo_entry" by (simp add: in_work_def demo_entry_def)
  have in_s: "in_snap (2 ^ 40) 4096 demo_entry" by (simp add: in_snap_def usub64_ge demo_entry_def)
  have "coherent (fst (ss_mem crash_point))"
    unfolding crash_point_def by (rule coherent_snap_loop [OF clwb_ops_ok]) (simp add: crash_start_facts(1))
  then have ci: "crash_image (fst (ss_mem crash_point)) ?im" by (simp add: crash_image_def coherent_def)
  have sd: "syncs (inr 4096 24) (2 ^ 40) (2 ^ 41) 4096 crash_start (fst (ss_mem crash_point))"
    "entry_done (2 ^ 40) (2 ^ 41) demo_entry (fst (ss_mem crash_point))"
    using snap_loop_syncs [OF clwb_ops_ok lay, of "[demo_entry]" None "2 ^ 40" 4096 ?s] e in_s by (auto simp: crash_point_def)
  have "?im (2 ^ 41 + 16) = ?im (2 ^ 40 + 16)" using sd(2) [unfolded entry_done_def, rule_format, of 16] by (simp add: mirrored_def demo_entry_def)
  also have "\<dots> = 9" using syncs_work [OF lay sd(1), of 16] crash_start_facts(2) by simp
  finally have "?im (2 ^ 41 + 16) = 9" .
  moreover have "crash_image (fst (ss_mem (snap_loop clwb_ops (2 ^ 41) (2 ^ 40) (2 ^ 40) 4096 None (take 1 [demo_entry]) ?s))) ?im"
    using ci unfolding crash_point_def by (simp only: take_Cons_numeral One_nat_def take_Suc_Cons take_0)
  ultimately show ?thesis
    using ci mid_snapshot_crash_not_undone [where es = "[demo_entry]" and n = 1 and s = ?s and len = 4096 and
        mm = "\<lparr>cpu = ?im, media = (\<lambda>x. {?im x}), inflight = (\<lambda>x. False)\<rparr>", OF clwb_ops_ok _ _ _ crash_start_facts(3)]
      lay e by (auto simp: demo_log_def inr_def)
qed

subsection \<open>The dependency file\<close>

text \<open>
  What the code relies on of the helpers of nvsl: \<open>S\<close> formats a number in decimal and \<open>split\<close> cuts at every separator.
\<close>

definition nv_text_ok :: "'k os \<Rightarrow> bool" where
  "nv_text_ok os \<longleftrightarrow> (\<forall>n. nv_S os (int n) = dec_str n) \<and>
     (\<forall>a b c. CHR '','' \<notin> set (a @ b @ c) \<longrightarrow> nv_split os (a @ '','' @ b @ '','' @ c) '','' (Some 3) = [a, b, c])"

definition dep_line :: "nat \<Rightarrow> nat \<Rightarrow> addr \<Rightarrow> string" where
  "dep_line pid tid a = dec_str pid @ '','' @ dec_str tid @ '','' @ dec_str a"

lemma dec_str_no_comma: "CHR '','' \<notin> set (dec_str n)"
proof
  assume "CHR '','' \<in> set (dec_str n)"
  from dec_str_digits [OF this] show False using digit_char_props(4) by metis
qed

lemma split_dep_line: "nv_text_ok os \<Longrightarrow> nv_split os (dep_line pid tid a) '','' (Some 3) = [dec_str pid, dec_str tid, dec_str a]"
  by (simp add: nv_text_ok_def dep_line_def dec_str_no_comma)

lemma write_dependency_line:
  assumes "nv_text_ok os" and "os_open os (get_dependency_fname f) (O_CREAT OR O_APPEND OR O_RDWR) k = (fd, k1)" and "fd \<noteq> -1"
    and "os_write os fd (dep_line (os_getpid os) (os_pthread_self os) (pf_addr f) @ newline) k1 =
      (int (length (dep_line (os_getpid os) (os_pthread_self os) (pf_addr f) @ newline)), k2)"
  shows "write_dependency_internal os f k = Inr (os_close os fd k2)"
  using assms by (simp add: write_dependency_internal_def nv_text_ok_def dep_line_def Let_def)

lemma recover_one_run:
  assumes "nv_text_ok os" and "pid < 2 ^ 31" and "tid < 2 ^ 64" and "a < 2 ^ 64"
    and "get_log_by_id os loc (dec_str pid @ ''.'' @ dec_str tid) 0 mk = Inr ((la, lf), m1, k1)"
    and "os_open os (get_backing_fname f) O_RDWR k1 = (fd, k2)" and "fd \<noteq> -1"
    and "os_mmap os a (pf_len f) PROT_RW (MAP_SHARED_VALIDATE OR MAP_SYNC) fd 0 (m1, k2) = (ma, m2, k3)" and "ma \<noteq> MAP_FAILED"
    and "os_file_size os lf (os_close os fd k3) = Some sz"
    and "os_munmap os la sz (rec_replay ops la a (pf_len f) m2, os_close os fd k3) = (0, mk5)"
    and "os_munmap os a (pf_len f) mk5 = (0, mk6)"
  shows "recover_one os ops loc f (dep_line pid tid a) mk = Inr mk6"
proof -
  have "nv_S os (int n) = dec_str n" for n using assms(1) by (simp add: nv_text_ok_def)
  then show ?thesis
    using assms(5-) unfolding recover_one_def Let_def split_dep_line [OF assms(1)]
    by (simp add: stoi_dec_str [OF assms(2)] stoull_dec_str [OF assms(3)] stoull_dec_str [OF assms(4)])
qed

text \<open>
  C5: recovering a file.  \<open>recover\<close> is given the line that \<open>write_dependency\<close> wrote for a process, a thread and an address.  It opens
  the log of that thread, maps the backing file at that address and writes the logged contents of the file back, newest first: when
  it lets go of the mapping, memory is the memory before with all entries of the file undone, and every byte it wrote is on the media.
\<close>

theorem recover_rolls_back:
  assumes "pmem_ops_ok ops" and "nv_text_ok os" and "pid < 2 ^ 31" and "tid < 2 ^ 64" and "a < 2 ^ 64"
    and "get_log_by_id os loc (dec_str pid @ ''.'' @ dec_str tid) 0 mk = Inr ((la, lf), m1, k1)"
    and "os_open os (get_backing_fname f) O_RDWR k1 = (fd, k2)" and "fd \<noteq> -1"
    and "os_mmap os a (pf_len f) PROT_RW (MAP_SHARED_VALIDATE OR MAP_SYNC) fd 0 (m1, k2) = (ma, m2, k3)" and "ma \<noteq> MAP_FAILED"
    and "replay_safe m2 la cap a (pf_len f)" and "os_file_size os lf (os_close os fd k3) = Some sz"
    and "\<forall>m. \<exists>mk5 mk6. os_munmap os la sz (m, os_close os fd k3) = (0, mk5) \<and> os_munmap os a (pf_len f) mk5 = (0, mk6)"
  shows "\<exists>m3 mk5 mk6. recover os ops loc f [dep_line pid tid a] mk = Inr mk6 \<and>
    os_munmap os la sz (m3, os_close os fd k3) = (0, mk5) \<and> os_munmap os a (pf_len f) mk5 = (0, mk6) \<and>
    cpu m3 = undo_all (file_entries m2 la a (pf_len f)) (cpu m2) \<and>
    (\<forall>x. covered (file_entries m2 la a (pf_len f)) x \<longrightarrow> durable m3 x)"
proof -
  let ?m3 = "rec_replay ops la a (pf_len f) m2"
  obtain mk5 mk6 where u: "os_munmap os la sz (?m3, os_close os fd k3) = (0, mk5)" "os_munmap os a (pf_len f) mk5 = (0, mk6)"
    using assms(13) by blast
  show ?thesis
    using recover_one_run [OF assms(2-10,12) u] u rec_replay_undo [OF assms(1,11)] by (intro exI [of _ ?m3] exI [of _ mk5] exI [of _ mk6]) auto
qed

lemma scan_logs_one:
  assumes "scan_logs os loc logs mk = Inr (ls, mk')"
  shows "ls = [] \<or> (\<exists>pre l post la. logs = pre @ l # post \<and> ls = [l] \<and> ld64 (fst mk') (log_state_at la) = state_val ACTIVE)"
  using assms
proof (induction logs arbitrary: mk)
  case (Cons log logs)
  have "(ls = [log] \<and> (\<exists>la. ld64 (fst mk') (log_state_at la) = state_val ACTIVE)) \<or> (\<exists>mk. scan_logs os loc logs mk = Inr (ls, mk'))"
    using Cons.prems by (cases mk) (auto simp: Let_def bindR_eq_Inr guardR_eq_Inr split: if_split_asm option.split_asm prod.split_asm)
  then show ?case using Cons.IH by (metis append_Cons append_Nil)
qed simp

text \<open>
  The scan reports at most one log, an active one whose line is in the dependency file, however many lines name active
  logs: it ends at the first.
\<close>

theorem needs_recovery_one:
  assumes "needs_recovery os loc f mk = Inr (ls, mk')"
  shows "ls = [] \<or> (\<exists>pre l post la. nv_split os (os_read_file os (get_dependency_fname f) (snd mk)) newline None = pre @ l # post \<and>
    ls = [l] \<and> ld64 (fst mk') (log_state_at la) = state_val ACTIVE)"
proof (cases "os_is_regular_file os (get_dependency_fname f) (snd mk)")
  case True
  then show ?thesis using assms scan_logs_one by (simp add: needs_recovery_def Let_def) blast
next
  case False
  then show ?thesis using assms by (simp add: needs_recovery_def Let_def)
qed

subsection \<open>A small system\<close>

text \<open>A kernel on which every call succeeds, with two lines in every dependency file; mappings without a hint are at 4096.\<close>

fun split_on :: "char \<Rightarrow> string \<Rightarrow> string list" where
  "split_on c [] = [[]]"
| "split_on c (x # xs) = (if x = c then [] # split_on c xs else (x # hd (split_on c xs)) # tl (split_on c xs))"

definition demo_os :: "unit os" where
  "demo_os = \<lparr>os_is_regular_file = (\<lambda>p k. True), os_is_directory = (\<lambda>p k. True), os_create_directory = (\<lambda>p k. Some k),
     os_remove_all = (\<lambda>p k. k), os_read_file = (\<lambda>p k. dep_line 7 1 (2 ^ 40) @ newline @ dep_line 7 2 (2 ^ 40)),
     os_file_size = (\<lambda>p k. Some 65560), os_open = (\<lambda>p fl k. (3, k)), os_close = (\<lambda>fd k. k), os_fallocate = (\<lambda>fd off n k. (0, k)),
     os_lseek = (\<lambda>fd n k. (int n, k)), os_write = (\<lambda>fd s k. (int (length s), k)), os_copy_file = (\<lambda>a b k. Some (True, k)),
     os_sendfile = (\<lambda>a b n k. (int n, k)), os_mmap = (\<lambda>a n p fl fd off mk. (if a = 0 then 4096 else a, mk)),
     os_munmap = (\<lambda>a n mk. (0, mk)), os_madvise = (\<lambda>a n adv k. 0), os_fsync = (\<lambda>fd k. (0, k)), os_fdatasync = (\<lambda>fd k. (0, k)),
     os_getpid = 7, os_pthread_self = 1, nv_S = (\<lambda>i. dec_str (nat i)), nv_split = (\<lambda>s sep n. split_on (hd sep) s),
     nv_is_prefix = (\<lambda>p s. take (length p) s = p), nv_fd_to_fname = (\<lambda>fd k. ''/mnt/pmem0/data''), nv_env_val = (\<lambda>v. False),
     nv_env_str = (\<lambda>v. None)\<rparr>"

lemma split_on_append: "c \<notin> set a \<Longrightarrow> split_on c (a @ c # s) = a # split_on c s"
  by (induction a) auto

lemma split_on_none: "c \<notin> set a \<Longrightarrow> split_on c a = [a]"
  by (induction a) auto

lemma demo_text_ok: "nv_text_ok demo_os"
  by (simp add: nv_text_ok_def demo_os_def split_on_append split_on_none)

definition demo_file :: PmemFile where
  "demo_file = \<lparr>pf_path = ''/mnt/pmem0/data'', pf_addr = 2 ^ 40, pf_len = 4096\<rparr>"

definition demo_active :: mach where
  "demo_active = st64 4096 1 demo_mach"

definition demo_crashed :: mach where
  "demo_crashed = store (2 ^ 40) (replicate 8 5) (log_range_mach 4096 (2 ^ 40) 8 demo_active)"

lemma demo_active_wf: "ld64 demo_active 4104 = 0" "log_wf demo_active 4096" "log_list demo_active 4096 = []"
proof -
  show o: "ld64 demo_active 4104 = 0" by (simp add: demo_active_def ld64_st64_disj)
  have "ld64 demo_active 4112 = 4120" by (simp add: demo_active_def demo_mach_def ld64_st64_disj ld64_st64_same)
  then show "log_wf demo_active 4096" "log_list demo_active 4096 = []"
    using o by (simp_all add: log_wf_def log_list_def log_layout_defs log_exact.simps log_walk.simps)
qed

lemma demo_crashed_log:
  "log_wf demo_crashed 4096" "log_list demo_crashed 4096 = [(2 ^ 40, replicate 8 0)]" "ld64 demo_crashed 4104 \<le> 65536"
proof -
  let ?m = "log_range_mach 4096 (2 ^ 40) 8 demo_active"
  have o: "ld64 demo_active (log_offset_at 4096) = 0" using demo_active_wf(1) by (simp add: log_layout_defs)
  note a = log_range_mach_appends [OF demo_active_wf(2), of 8 "2 ^ 40", unfolded o demo_active_wf(3)]
  have r: "rd (cpu demo_active) (2 ^ 40) 8 = replicate 8 0"
    by (rule nth_equalityI) (simp_all add: rd_def demo_active_def demo_mach_def wr_apply_out inr_def)
  have m: "log_list ?m 4096 = [(2 ^ 40, replicate 8 0)]" "log_wf ?m 4096" "ld64 ?m (log_offset_at 4096) \<le> 65536"
    using a r by (simp_all add: log_layout_defs)
  have far: "\<And>x. inr (2 ^ 40) (length (replicate 8 (5 :: byte))) x \<Longrightarrow> outside_log 4096 65536 x"
    by (auto simp: outside_log_def inr_def log_layout_defs)
  note st = log_wf_store [where a = "2 ^ 40" and bs = "replicate 8 5", OF m(2,3) far]
  show "log_wf demo_crashed 4096" "log_list demo_crashed 4096 = [(2 ^ 40, replicate 8 0)]" "ld64 demo_crashed 4104 \<le> 65536"
    using st m unfolding demo_crashed_def by (simp_all add: log_layout_defs)
qed

lemma demo_replay_safe: "replay_safe demo_crashed 4096 65536 (2 ^ 40) 4096"
  using demo_crashed_log by (auto simp: replay_safe_def file_entries_def log_layout_defs outside_log_def inr_def)

lemma demo_get_log: "get_log_by_id demo_os loc n 0 mk = Inr ((4096, path_join loc (n @ ''.log'')), mk)"
  by (cases mk) (simp add: get_log_by_id_def demo_os_def MAP_FAILED_def)

lemma demo_calls:
  "os_open demo_os p fl k = (3, k)" "os_mmap demo_os a n pr fl fd off mk = (if a = 0 then 4096 else a, mk)" "os_file_size demo_os p k = Some 65560"
  "os_munmap demo_os a n mk = (0, mk)"
  by (simp_all add: demo_os_def)

theorem recover_rolls_back_witness:
  "\<exists>m3. recover demo_os clwb_ops ''/logs'' demo_file [dep_line 7 1 (2 ^ 40)] (demo_crashed, ()) = Inr (m3, ()) \<and>
     cpu m3 (2 ^ 40) = 0 \<and> durable m3 (2 ^ 40)"
proof -
  have fe: "file_entries demo_crashed 4096 (2 ^ 40) (pf_len demo_file) = [(2 ^ 40, replicate 8 0)]"
    using demo_crashed_log(2) by (simp add: file_entries_def demo_file_def)
  obtain m3 mk5 mk6 where r: "recover demo_os clwb_ops ''/logs'' demo_file [dep_line 7 1 (2 ^ 40)] (demo_crashed, ()) = Inr mk6"
    "os_munmap demo_os 4096 65560 (m3, os_close demo_os 3 ()) = (0, mk5)" "os_munmap demo_os (2 ^ 40) (pf_len demo_file) mk5 = (0, mk6)"
    "cpu m3 = undo_all (file_entries demo_crashed 4096 (2 ^ 40) (pf_len demo_file)) (cpu demo_crashed)"
    "\<forall>x. covered (file_entries demo_crashed 4096 (2 ^ 40) (pf_len demo_file)) x \<longrightarrow> durable m3 x"
    using recover_rolls_back [where os = demo_os and ops = clwb_ops and pid = 7 and tid = 1 and a = "2 ^ 40" and f = demo_file and fd = 3 and
        sz = 65560 and cap = 65536 and ma = "2 ^ 40" and loc = "''/logs''" and mk = "(demo_crashed, ())" and la = 4096 and ?m2.0 = demo_crashed,
        OF clwb_ops_ok demo_text_ok _ _ _ demo_get_log] demo_replay_safe
    by (auto simp: demo_file_def MAP_FAILED_def demo_calls)
  have "mk6 = (m3, ())" using r(2,3) by (simp add: demo_calls)
  moreover have "cpu m3 (2 ^ 40) = 0" using r(4) unfolding fe by (simp add: wr_def inr_def)
  moreover have "durable m3 (2 ^ 40)" using r(5) unfolding fe by (simp add: covered_def inr_def)
  ultimately show ?thesis using r(1) by blast
qed

lemma dep_line_no_newline: "CHR 0x0A \<notin> set (dep_line pid tid a)"
proof
  assume "CHR 0x0A \<in> set (dep_line pid tid a)"
  then obtain n where "CHR 0x0A \<in> set (dec_str n)" by (auto simp: dep_line_def)
  from dec_str_digits [OF this] show False using digit_char_props(5) by metis
qed

lemma demo_needs_recovery: "needs_recovery demo_os ''/logs'' demo_file (demo_active, ()) = Inr ([dep_line 7 1 (2 ^ 40)], (demo_active, ()))"
proof -
  have st: "ld64 demo_active (log_state_at 4096) = state_val ACTIVE" by (simp add: demo_active_def ld64_st64_same log_layout_defs)
  have lines: "nv_split demo_os (os_read_file demo_os (get_dependency_fname demo_file) ()) newline None = [dep_line 7 1 (2 ^ 40), dep_line 7 2 (2 ^ 40)]"
    by (simp add: demo_os_def newline_def split_on_append split_on_none dep_line_no_newline)
  have reg: "os_is_regular_file demo_os p k" for p k by (simp add: demo_os_def)
  show ?thesis unfolding needs_recovery_def Let_def snd_conv lines
    by (simp add: reg split_dep_line [OF demo_text_ok] demo_get_log st)
qed

theorem needs_recovery_one_witness:
  "needs_recovery demo_os ''/logs'' demo_file (demo_active, ()) = Inr ([dep_line 7 1 (2 ^ 40)], (demo_active, ())) \<and>
   (\<exists>pre l post la. nv_split demo_os (os_read_file demo_os (get_dependency_fname demo_file) ()) newline None = pre @ l # post \<and>
    [dep_line 7 1 (2 ^ 40)] = [l] \<and> ld64 demo_active (log_state_at la) = state_val ACTIVE)"
  using demo_needs_recovery needs_recovery_one [OF demo_needs_recovery] by simp

subsection \<open>New logs\<close>

lemma fresh_log:
  assumes "content_at la < 2 ^ 64"
  shows "log_wf (st64 (tail_ptr_at la) (content_at la) (st64 (log_offset_at la) 0 m)) la"
    and "log_list (st64 (tail_ptr_at la) (content_at la) (st64 (log_offset_at la) 0 m)) la = []"
    and "ld64 (st64 (tail_ptr_at la) (content_at la) (st64 (log_offset_at la) 0 m)) (log_offset_at la) = 0"
proof -
  let ?m = "st64 (tail_ptr_at la) (content_at la) (st64 (log_offset_at la) 0 m)"
  show o: "ld64 ?m (log_offset_at la) = 0" by (simp add: ld64_st64_disj ld64_st64_same log_layout_defs)
  have "ld64 ?m (tail_ptr_at la) = content_at la" using assms by (simp add: ld64_st64_same)
  then show "log_wf ?m la" "log_list ?m la = []"
    using o by (simp_all add: log_wf_def log_list_def log_exact.simps log_walk.simps)
qed

lemma alloc_log_area_logs:
  assumes "alloc_log_area e fd s = Inr (la, s1)"
  shows "tls_logs (lib s1) = tls_logs (lib s)"
  using assms by (auto simp: alloc_log_area_def Let_def bindR_eq_Inr cxl_malloc_def new_ctrlr_def put_mach_def
      split: if_split_asm option.split_asm prod.split_asm)

lemma init_thread_buf_shape:
  assumes "init_thread_buf e s = Inr s'"
  obtains la m L where "log_area L = la" "last_log L = lean_zero" "entries L = []"
    "tls_logs (lib s') = tls_logs (lib s) @ [L]"
    "mch (lib s') = st64 (tail_ptr_at la) (content_at la) (st64 (log_offset_at la) 0 m)"
proof -
  obtain fd k la s1 where a: "alloc_log_area e fd (s\<lparr>kern := k\<rparr>) = Inr (la, s1)"
    and s': "s' = s1\<lparr>lib := reg_tls_log la ((lib s1)\<lparr>mch := st64 (tail_ptr_at la) (content_at la) (st64 (log_offset_at la) 0 (mch (lib s1)))\<rparr>),
      kern := os_close (en_os e) fd (kern s1)\<rparr>"
    using assms by (auto simp: init_thread_buf_def Let_def bindR_eq_Inr guardR_eq_Inr case_prod_unfold)
  show thesis
    by (rule that [of "\<lparr>last_log = \<lparr>lean_addr = 0, lean_bytes = 0\<rparr>, last_flush_offset = 0, entries = [], log_area = la\<rparr>" la "mch (lib s1)"])
      (use alloc_log_area_logs [OF a] in \<open>simp_all add: s' reg_tls_log_def lean_zero_def\<close>)
qed

text \<open>
  C12: the constructor of a thread's log.  When it returns, one log was added, it is empty and satisfies the invariant of the log
  operations, so that the thread may log at once, and the logs of the other threads are as they were.
\<close>

theorem Log_ctor_ready:
  assumes "Log_ctor e s = Inr s'" and "pmem_ops_ok ops" and "cxlModeEnabled (lib s')"
    and "log_area (last (tls_logs (lib s'))) \<noteq> 0" and "content_at (log_area (last (tls_logs (lib s')))) + cap < 2 ^ 64"
  shows "\<exists>L n. tls_logs (lib s') = tls_logs (lib s) @ [L] \<and> n = length (tls_logs (lib s)) \<and>
    log_ok ops n (log_area L) cap (lib s') \<and> log_list (mch (lib s')) (log_area L) = [] \<and> entries L = []"
proof -
  obtain k where "init_thread_buf e (s\<lparr>kern := k\<rparr>) = Inr s'" using assms(1) by (auto simp: Log_ctor_def bindR_eq_Inr)
  then obtain la m L where i: "log_area L = la" "last_log L = lean_zero" "entries L = []"
    "tls_logs (lib s') = tls_logs (lib s) @ [L]"
    "mch (lib s') = st64 (tail_ptr_at la) (content_at la) (st64 (log_offset_at la) 0 m)"
    by (rule init_thread_buf_shape) simp
  have "content_at la < 2 ^ 64" using assms(5) i(1,4) by simp
  then show ?thesis using fresh_log [of la m] i assms(2-5) by (auto simp: log_ok_def last_log_ok_def nth_append)
qed

definition demo_env :: "(ram, nat, unit) env" where
  "demo_env = \<lparr>en_os = demo_os, en_se = demo_senv, en_fe = demo_fenv, en_vk = fresh_vk\<rparr>"

definition demo_sys :: "(ram, nat, unit) sys" where
  "demo_sys = \<lparr>lib = demo_cxl\<lparr>tls_logs := []\<rparr>, vram = None, kern = ()\<rparr>"

theorem Log_ctor_ready_witness:
  "\<exists>s' L. Log_ctor demo_env demo_sys = Inr s' \<and> tls_logs (lib s') = [L] \<and> log_ok clwb_ops 0 (log_area L) 65536 (lib s')"
proof -
  let ?la = "4096 :: addr"
  let ?m = "st64 (tail_ptr_at ?la) (content_at ?la) (st64 (log_offset_at ?la) 0 (mch demo_cxl))"
  let ?s = "demo_sys\<lparr>lib := reg_tls_log ?la ((lib demo_sys)\<lparr>mch := ?m\<rparr>)\<rparr>"
  have loc: "log_loc demo_cxl = ''/mnt/pmem0/cxlbuf_logs/''" "cxlModeEnabled demo_cxl" by (simp_all add: demo_cxl_def demo_glob_def glob.defs)
  have r: "Log_ctor demo_env demo_sys = Inr ?s"
    by (simp add: Log_ctor_def init_dirs_def init_thread_buf_def alloc_log_area_def demo_env_def demo_os_def demo_sys_def loc
        sys_mach_def put_mach_def MAP_FAILED_def Let_def)
  have "log_area (last (tls_logs (lib ?s))) = ?la" "cxlModeEnabled (lib ?s)" "tls_logs (lib demo_sys) = []"
    by (simp_all add: demo_sys_def reg_tls_log_def loc)
  then have "\<exists>L n. tls_logs (lib ?s) = tls_logs (lib demo_sys) @ [L] \<and> n = length (tls_logs (lib demo_sys)) \<and>
      log_ok clwb_ops n (log_area L) 65536 (lib ?s) \<and> log_list (mch (lib ?s)) (log_area L) = [] \<and> entries L = []"
    by (intro Log_ctor_ready [OF r clwb_ops_ok]) (simp_all add: log_layout_defs)
  then show ?thesis using r \<open>tls_logs (lib demo_sys) = []\<close> by auto
qed

subsection \<open>Mapping\<close>

text \<open>
  Mapping a backing file on persistent memory writes one to its first byte and changes no other byte of memory.  The file the
  next run copies from the backing file therefore begins with a one, whatever the program stored there.
\<close>

theorem map_backing_file_clobbers:
  assumes "os_open (en_os e) (get_backing_fname f) O_RDWR (kern s) = (fd, k1)" and "fd \<noteq> -1"
    and "\<not> nv_is_prefix (en_os e) ''/mnt/cxl0'' (get_backing_fname f)" and "\<not> nv_is_prefix (en_os e) ''/mnt/mss0'' (get_backing_fname f)"
    and "nv_is_prefix (en_os e) ''/mnt/pmem0/'' (get_backing_fname f)"
    and "os_mmap (en_os e) (uadd64 (pf_addr f) 0x10000000000) (pf_len f) PROT_RW (MAP_SHARED_VALIDATE OR MAP_SYNC) fd 0 (mch (lib s), k1) = (p, m1, k2)"
    and "p \<noteq> MAP_FAILED" and "os_madvise (en_os e) p (pf_len f) MADV_HUGEPAGE k2 \<noteq> -1"
  shows "\<exists>s'. map_backing_file e t f s = ret s' \<and> cpu (mch (lib s')) p = 1 \<and> (\<forall>x. x \<noteq> p \<longrightarrow> cpu (mch (lib s')) x = cpu m1 x)"
proof -
  let ?s = "put_mach (m1, k2) (s\<lparr>kern := k1\<rparr>)"
  let ?g = "(lib ?s)\<lparr>backing_file_start := 0x20000000000\<rparr>"
  have "map_backing_file e t f s = ret (?s\<lparr>lib := upd_mch (store p [1]) ?g\<rparr>)"
    using assms unfolding map_backing_file_def Let_def by (simp add: sys_mach_def put_mach_def)
  moreover have "mch (lib (?s\<lparr>lib := upd_mch (store p [1]) ?g\<rparr>)) = store p [1] m1" by (simp add: put_mach_def upd_mch_def)
  ultimately show ?thesis by (intro exI conjI allI impI) (assumption, auto simp: wr_def inr_def)
qed

theorem map_backing_file_clobbers_witness:
  "\<exists>s'. map_backing_file demo_env 0 demo_file demo_sys = ret s' \<and> cpu (mch (lib s')) (2 ^ 41) = 1"
proof -
  have bf: "get_backing_fname demo_file = ''/mnt/pmem0/data.cxlbuf_backing''" by (simp add: get_backing_fname_def demo_file_def)
  have "\<exists>s'. map_backing_file demo_env 0 demo_file demo_sys = ret s' \<and> cpu (mch (lib s')) (2 ^ 41) = 1 \<and>
      (\<forall>x. x \<noteq> 2 ^ 41 \<longrightarrow> cpu (mch (lib s')) x = cpu (mch (lib demo_sys)) x)"
    by (rule map_backing_file_clobbers [where fd = 3])
      (simp_all add: bf, simp_all add: demo_env_def demo_os_def demo_file_def uadd64_small MAP_FAILED_def)
  then show ?thesis by blast
qed

lemma cleared_flags:
  "(fl AND NOT MAP_SYNC AND NOT MAP_SHARED AND NOT MAP_SHARED_VALIDATE) AND MAP_SHARED_VALIDATE = 0"
  "(fl AND NOT MAP_SYNC AND NOT MAP_SHARED AND NOT MAP_SHARED_VALIDATE) AND MAP_SYNC = 0"
  by (rule bit_word_eqI, auto simp: bit_simps)+

text \<open>
  The flags of the working mapping.  With the CXL mode on, the mapping is private, so that stores stay in the page cache until a
  snapshot; otherwise it is shared; it is never a synchronous one, and an address is never taken from another mapping.
\<close>

theorem page_cache_flags_kind:
  "page_cache_flags True a fl AND MAP_SHARED_VALIDATE = MAP_PRIVATE \<and> page_cache_flags False a fl AND MAP_SHARED_VALIDATE = MAP_SHARED \<and>
   page_cache_flags c a fl AND MAP_SYNC = 0 \<and> (a = 0 \<or> page_cache_flags c a fl AND MAP_FIXED_NOREPLACE = MAP_FIXED_NOREPLACE)"
  unfolding page_cache_flags_def Let_def
  by (simp add: bit.conj_disj_distrib2 cleared_flags) (simp add: map_flag_defs bit.conj_disj_distrib2)

end
