(* ===== verification/Wrappers.thy ===== *)
theory Wrappers
  imports Recovery
begin

text \<open>
  The rest of libc\_wrappers.cc and libstoreinst.cc: the intercepted system calls, the lookup of the real ones, and the
  constructor of the library.  \<^verbatim>\<open>dlsym\<close> is a parameter.  The map \<^verbatim>\<open>mapped_addr\<close> is an association list; \<open>munmap\<close> walks it in
  list order, and the lemmas show that for disjoint ranges any order gives the same answer.

  The lemmas show that tracked mappings get disjoint ranges of the tracked space, what \<open>munmap\<close> and \<open>fsync\<close> do with the recorded ranges,
  and that a constructor that returns leaves a state with a non-empty tracked space.
\<close>

subsection \<open>The real functions\<close>

record dlsyms =
  init_dlsyms_done :: bool
  real_syms :: "(string \<times> addr) list"

definition dlsym_names :: "string list" where
  "dlsym_names = [''memcpy'', ''memmove'', ''memset'', ''mmap'', ''sync'', ''fsync'', ''fdatasync'', ''mremap'', ''msync'', ''munmap'']"

fun resolve :: "(string \<Rightarrow> addr) \<Rightarrow> string list \<Rightarrow> dlsyms \<Rightarrow> dlsyms res" where
  "resolve dlsym [] d = Inr d"
| "resolve dlsym (n # ns) d =
     (let p = dlsym n; d1 = d\<lparr>real_syms := AList.update n p (real_syms d)\<rparr>
      in guardR (p \<noteq> 0) ExitFailure (resolve dlsym ns d1))"

definition init_dlsyms :: "(string \<Rightarrow> addr) \<Rightarrow> dlsyms \<Rightarrow> dlsyms res" where
  "init_dlsyms dlsym d =
     (if init_dlsyms_done d then Inr d else resolve dlsym dlsym_names (d\<lparr>init_dlsyms_done := True\<rparr>))"

subsection \<open>Constructor\<close>

definition init_counters :: "'z glob_scheme \<Rightarrow> 'z glob_scheme" where
  "init_counters = upd_ctrs (\<lambda>c. c\<lparr>total_bytes_wr := 0, total_bytes_wr_strm := 0, back_to_back_dup_log := 0,
     total_pers_log_entries := 0, total_log_entries := 0, skip_check_count := 0, dup_log_entries := 0, logged_check_count := 0,
     tx_log_count_dist := [], mergeable_entries := 0\<rparr>)"

definition get_env_str :: "'k os \<Rightarrow> string \<Rightarrow> string \<Rightarrow> string" where
  "get_env_str os v dflt = (case nv_env_str os v of None \<Rightarrow> dflt | Some s \<Rightarrow> s)"

definition init_addrs :: "'k os \<Rightarrow> 'z glob_scheme \<Rightarrow> 'z glob_scheme res" where
  "init_addrs os g =
     (let start_addr_str = get_env_str os ''PMEM_START_ADDR'' [];
          end_addr_str = get_env_str os ''PMEM_END_ADDR'' []
      in guardR (start_addr_str \<noteq> []) ExitFailure
        (guardR (end_addr_str \<noteq> []) ExitFailure
         (bindR (stoull 16 start_addr_str) (\<lambda>sa.
          bindR (stoull 16 end_addr_str) (\<lambda>ea.
          guardR (sa \<noteq> 0 \<and> ea \<noteq> 0 \<and> sa < ea) AssertFailed (Inr (g\<lparr>start_addr := sa, end_addr := ea\<rparr>)))))))"

definition init_envvars :: "'k os \<Rightarrow> 'z glob_scheme \<Rightarrow> 'z glob_scheme" where
  "init_envvars os g =
     g\<lparr>nopMsync := nv_env_val os ''CXLBUF_MSYNC_IS_NOP'',
       log_loc := get_env_str os ''CXLBUF_LOG_LOC'' ''/mnt/pmem0/cxlbuf_logs/''\<rparr>"

definition libstoreinst_ctor :: "'k os \<Rightarrow> (string \<Rightarrow> addr) \<Rightarrow> dlsyms \<times> 'z glob_scheme \<Rightarrow> (dlsyms \<times> 'z glob_scheme) res" where
  "libstoreinst_ctor os dlsym = (\<lambda>(d, g).
     bindR (init_dlsyms dlsym d) (\<lambda>d1.
     bindR (init_addrs os (init_counters (g\<lparr>constructor_init_done := True\<rparr>))) (\<lambda>g1.
     Inr (d1, (init_envvars os g1)\<lparr>cxlModeEnabled := nv_env_val os ''CXL_MODE_ENABLED''\<rparr>))))"

subsection \<open>mmap\<close>

definition on_tracked :: "'k os \<Rightarrow> string \<Rightarrow> bool" where
  "on_tracked os fname \<longleftrightarrow>
     nv_is_prefix os ''/mnt/pmem0/'' fname \<or> nv_is_prefix os ''/mnt/cxl0'' fname \<or> nv_is_prefix os ''/mnt/mss0'' fname"

definition bump_mmap :: "nat \<Rightarrow> 'z glob_scheme \<Rightarrow> addr \<times> 'z glob_scheme" where
  "bump_mmap len g =
     (let a = (if mmap_start g = 0 then start_addr g else mmap_start g)
      in (a, g\<lparr>mmap_start := uadd64 a (uadd64 len 4095 div 4096 * 4096)\<rparr>))"

definition mmap ::
  "('d, 'v, 'k) env \<Rightarrow> nat \<Rightarrow> addr \<Rightarrow> nat \<Rightarrow> 32 word \<Rightarrow> 32 word \<Rightarrow> int \<Rightarrow> nat \<Rightarrow> ('d, 'v, 'k) sys \<Rightarrow>
     (addr \<times> ('d, 'v, 'k) sys) run" where
  "mmap e t a len prot flags fd off s =
     (let os = en_os e; fd_fname = nv_fd_to_fname os fd (kern s)
      in bindX (Some (PmemFile_ctor e fd_fname a len s)) (\<lambda>(pmemf, s1).
         bindX (if cxlModeEnabled (lib s1) \<and> on_tracked os fd_fname
                then let (a', g) = bump_mmap len (lib s1); pmemf' = set_addr a' pmemf
                     in bindX (Some (create_backing_file os pmemf' (kern s1))) (\<lambda>k.
                        bindX (map_backing_file e t pmemf' (s1\<lparr>lib := g, kern := k\<rparr>)) (\<lambda>s2. ret (pmemf', s2)))
                else ret (pmemf, s1)) (\<lambda>(pmemf', s2).
         Some (map_to_page_cache e pmemf' flags prot fd off s2))))"

definition mmap64 ::
  "('d, 'v, 'k) env \<Rightarrow> nat \<Rightarrow> addr \<Rightarrow> nat \<Rightarrow> 32 word \<Rightarrow> 32 word \<Rightarrow> int \<Rightarrow> nat \<Rightarrow> ('d, 'v, 'k) sys \<Rightarrow>
     (addr \<times> ('d, 'v, 'k) sys) run" where
  "mmap64 e t a len prot flags fd off s = mmap e t a len prot flags fd off s"

subsection \<open>Synchronisation\<close>

definition sync :: "('d, 'v, 'k) sys \<Rightarrow> ('d, 'v, 'k) sys res" where
  "sync s = Inl ExitFailure"

definition mremap :: "addr \<Rightarrow> nat \<Rightarrow> nat \<Rightarrow> 32 word \<Rightarrow> ('d, 'v, 'k) sys \<Rightarrow> (addr \<times> ('d, 'v, 'k) sys) res" where
  "mremap a old_len new_len flags s = Inl ExitFailure"

definition msync :: "('d, 'v, 'k) env \<Rightarrow> addr \<Rightarrow> nat \<Rightarrow> nat \<Rightarrow> ('d, 'v, 'k) sys \<Rightarrow> (int \<times> ('d, 'v, 'k) sys) run" where
  "msync e a len flags s = bindX (snapshot (en_se e) a len flags (lib s)) (\<lambda>(r, g). ret (r, s\<lparr>lib := g\<rparr>))"

definition snapshot_range :: "('d, 'v, 'k) env \<Rightarrow> addr_range_t \<Rightarrow> ('d, 'v, 'k) sys \<Rightarrow> (int \<times> ('d, 'v, 'k) sys) run" where
  "snapshot_range e r s = msync e (range_start r) (usub64 (range_end r) (range_start r)) MS_SYNC s"

definition fsync :: "('d, 'v, 'k) env \<Rightarrow> int \<Rightarrow> ('d, 'v, 'k) sys \<Rightarrow> (int \<times> ('d, 'v, 'k) sys) run" where
  "fsync e fd s =
     (case map_of (mapped_addr (lib s)) fd of
        None \<Rightarrow> Some (Inl ExitFailure)
      | Some fd_metadata \<Rightarrow>
          if storeInstEnabled (lib s) then snapshot_range e (md_range fd_metadata) s
          else let (r, k) = os_fsync (en_os e) fd (kern s) in ret (r, s\<lparr>kern := k\<rparr>))"

definition fdatasync :: "('d, 'v, 'k) env \<Rightarrow> int \<Rightarrow> ('d, 'v, 'k) sys \<Rightarrow> (int \<times> ('d, 'v, 'k) sys) run" where
  "fdatasync e fd s =
     (let real = (let (r, k) = os_fdatasync (en_os e) fd (kern s) in ret (r, s\<lparr>kern := k\<rparr>))
      in case map_of (mapped_addr (lib s)) fd of
           None \<Rightarrow> real
         | Some md \<Rightarrow> if addr_in_range (lib s) (uadd64 (range_start (md_range md)) 1) then snapshot_range e (md_range md) s else real)"

subsection \<open>munmap\<close>

fun find_range :: "addr \<Rightarrow> (int \<times> fd_metadata_t) list \<Rightarrow> int option res" where
  "find_range a [] = Inr None"
| "find_range a ((fd, md) # rs) =
     (if range_start (md_range md) \<le> a \<and> a < range_end (md_range md)
      then if a \<noteq> range_start (md_range md) then Inl ExitFailure else Inr (Some fd)
      else find_range a rs)"

definition munmap :: "'k os \<Rightarrow> addr \<Rightarrow> nat \<Rightarrow> ('d, 'v, 'k) sys \<Rightarrow> (int \<times> ('d, 'v, 'k) sys) res" where
  "munmap os a len s =
     bindR (find_range a (mapped_addr (lib s))) (\<lambda>found.
       let g = (case found of None \<Rightarrow> lib s | Some fd \<Rightarrow> (lib s)\<lparr>mapped_addr := AList.delete fd (mapped_addr (lib s))\<rparr>);
           (r, m, k) = os_munmap os a len (mch g, kern s)
       in Inr (r, s\<lparr>lib := g\<lparr>mch := m\<rparr>, kern := k\<rparr>))"

subsection \<open>What the steps of mmap leave alone\<close>

definition same_maps :: "'z glob_scheme \<Rightarrow> 'z glob_scheme \<Rightarrow> bool" where
  "same_maps g g' \<longleftrightarrow> start_addr g' = start_addr g \<and> end_addr g' = end_addr g \<and> mapped_addr g' = mapped_addr g \<and>
     mmap_start g' = mmap_start g \<and> cxlModeEnabled g' = cxlModeEnabled g"

lemma same_maps_refl [simp]: "same_maps g g"
  by (simp add: same_maps_def)

lemma same_maps_trans: "same_maps g g' \<Longrightarrow> same_maps g' g'' \<Longrightarrow> same_maps g g''"
  by (simp add: same_maps_def)

lemma same_maps_upd [simp]:
  "same_maps g (upd_ctrs f h) = same_maps g h" "same_maps g (upd_mch f' h) = same_maps g h" "same_maps g (set_log t L h) = same_maps g h"
  "same_maps g (h\<lparr>mch := m\<rparr>) = same_maps g h" "same_maps g (h\<lparr>storeInstEnabled := b\<rparr>) = same_maps g h"
  "same_maps g (h\<lparr>backing_file_start := p\<rparr>) = same_maps g h"
  by (simp_all add: same_maps_def upd_ctrs_def upd_mch_def set_log_def)

lemma log_range_maps: "log_range ops t a n g = Inr g' \<Longrightarrow> same_maps g g'"
  by (auto simp: log_range_def Let_def guardR_eq_Inr case_prod_unfold split: if_split_asm)

lemma memcpy_maps: "memcpy ops t d a n g = Inr g' \<Longrightarrow> same_maps g g'"
  by (auto simp: memcpy_def bindR_eq_Inr split: if_split_asm dest: log_range_maps)

lemma with_ctrlr_maps: "with_ctrlr f g = Some (Inr g') \<Longrightarrow> same_maps g g'"
  by (auto simp: with_ctrlr_def same_maps_def bindX_eq_ret ret_def split: option.split_asm)

lemma cxl_malloc_maps: "cxl_malloc fe n g = Inr (p, g') \<Longrightarrow> same_maps g g'"
  by (auto simp: cxl_malloc_def new_ctrlr_def same_maps_def bindR_eq_Inr split: option.split_asm)

lemma put_mach_maps [simp]: "same_maps g (lib (put_mach mk s)) = same_maps g (lib s)"
  by (simp add: put_mach_def)

lemma PmemFile_ctor_maps: "PmemFile_ctor e p a len s = Inr (f, s') \<Longrightarrow>
    f = \<lparr>pf_path = p, pf_addr = a, pf_len = len\<rparr> \<and> same_maps (lib s) (lib s')"
  by (auto simp: PmemFile_ctor_def Let_def bindR_eq_Inr split: if_split_asm)

lemma same_maps_upd_left [simp]:
  "same_maps (h\<lparr>mch := m\<rparr>) g = same_maps h g" "same_maps (h\<lparr>backing_file_start := p\<rparr>) g = same_maps h g"
  "same_maps (lib (put_mach mk s)) g = same_maps (lib s) g"
  by (simp_all add: same_maps_def put_mach_def)

lemma flush_caches_maps: "flush_caches sp ce g = Some (Inr g') \<Longrightarrow> same_maps g g'"
  by (auto simp: flush_caches_def dest: with_ctrlr_maps)

lemma map_device_backing_maps:
  assumes "map_device_backing e t f c fd s = Some (Inr (p, s'))"
  shows "same_maps (lib s) (lib s')"
  using assms
  by (auto simp: map_device_backing_def Let_def bindX_eq_ret guardX_eq_ret bindR_eq_Inr ret_def case_prod_unfold
      split: if_split_asm option.split_asm dest!: cxl_malloc_maps memcpy_maps flush_caches_maps) (meson same_maps_trans)+

lemma map_backing_file_maps:
  assumes "map_backing_file e t f s = Some (Inr s')"
  shows "same_maps (lib s) (lib s')"
  using assms
  by (auto simp: map_backing_file_def Let_def bindX_eq_ret guardX_eq_ret ret_def case_prod_unfold split: if_split_asm
      dest!: map_device_backing_maps)

subsection \<open>The ranges of the tracked mappings\<close>

text \<open>\<open>maps_ok\<close>: every recorded range lies between the start of the tracked space and the bump pointer, and no two overlap.\<close>

definition next_map :: "'z glob_scheme \<Rightarrow> addr" where
  "next_map g = (if mmap_start g = 0 then start_addr g else mmap_start g)"

definition md_disjoint :: "fd_metadata_t \<Rightarrow> fd_metadata_t \<Rightarrow> bool" where
  "md_disjoint a b \<longleftrightarrow> range_end (md_range a) \<le> range_start (md_range b) \<or> range_end (md_range b) \<le> range_start (md_range a)"

definition maps_ok :: "'z glob_scheme \<Rightarrow> bool" where
  "maps_ok g \<longleftrightarrow> start_addr g \<noteq> 0 \<and> start_addr g \<le> next_map g \<and> distinct (map fst (mapped_addr g)) \<and>
     (\<forall>p\<in>set (mapped_addr g). start_addr g \<le> range_start (md_range (snd p)) \<and> range_end (md_range (snd p)) \<le> next_map g) \<and>
     (\<forall>p\<in>set (mapped_addr g). \<forall>q\<in>set (mapped_addr g). fst p \<noteq> fst q \<longrightarrow> md_disjoint (snd p) (snd q))"

lemma map_to_page_cache_maps:
  assumes "map_to_page_cache e f fl pr fd off s = Inr (r, s')" and "fd \<noteq> -1"
  shows "if r = MAP_FAILED then same_maps (lib s) (lib s')
    else same_maps ((lib s)\<lparr>mapped_addr := AList.update fd
      \<lparr>md_fd = fd, md_range = \<lparr>range_start = pf_addr f, range_end = uadd64 (pf_addr f) (pf_len f)\<rparr>, md_fpath = pf_path f\<rparr> (mapped_addr (lib s))\<rparr>) (lib s')"
  using assms
  by (auto simp: map_to_page_cache_def record_mapping_def Let_def bindR_eq_Inr guardR_eq_Inr case_prod_unfold put_mach_def
      same_maps_def split: if_split_asm)

lemma mmap_tracked:
  assumes "mmap e t a len prot flags fd off s = ret (r, s')" and "fd \<noteq> -1" and "cxlModeEnabled (lib s)"
    and "on_tracked (en_os e) (nv_fd_to_fname (en_os e) fd (kern s))"
  obtains md where "range_start (md_range md) = next_map (lib s)" "range_end (md_range md) = uadd64 (next_map (lib s)) len"
    "start_addr (lib s') = start_addr (lib s)" "mmap_start (lib s') = uadd64 (next_map (lib s)) (uadd64 len 4095 div 4096 * 4096)"
    "mapped_addr (lib s') = (if r = MAP_FAILED then mapped_addr (lib s) else AList.update fd md (mapped_addr (lib s)))"
proof -
  let ?fn = "nv_fd_to_fname (en_os e) fd (kern s)" and ?a = "next_map (lib s)"
  let ?f = "\<lparr>pf_path = ?fn, pf_addr = ?a, pf_len = len\<rparr>"
  obtain f1 s1 where c: "PmemFile_ctor e ?fn a len s = Inr (f1, s1)"
    using assms(1) by (auto simp: mmap_def Let_def bindX_eq_ret ret_def)
  note f1 = PmemFile_ctor_maps [OF c]
  have nm: "bump_mmap len (lib s1) = (?a, (lib s1)\<lparr>mmap_start := uadd64 ?a (uadd64 len 4095 div 4096 * 4096)\<rparr>)"
    using f1 by (simp add: bump_mmap_def next_map_def same_maps_def Let_def)
  have cm: "cxlModeEnabled (lib s1)" using f1 assms(3) by (simp add: same_maps_def)
  obtain k s2 where k: "map_backing_file e t ?f (s1\<lparr>lib := (lib s1)\<lparr>mmap_start := uadd64 ?a (uadd64 len 4095 div 4096 * 4096)\<rparr>, kern := k\<rparr>) = Some (Inr s2)"
    "map_to_page_cache e ?f flags prot fd off s2 = Inr (r, s')"
    using assms(1,4) c f1 cm nm by (auto simp: mmap_def Let_def bindX_eq_ret ret_def set_addr_def)
  show thesis
    by (rule that [of "\<lparr>md_fd = fd, md_range = \<lparr>range_start = ?a, range_end = uadd64 ?a len\<rparr>, md_fpath = ?fn\<rparr>"])
      (use map_backing_file_maps [OF k(1)] map_to_page_cache_maps [OF k(2) assms(2)] f1 in \<open>auto simp: same_maps_def split: if_split_asm\<close>)
qed

lemma in_update: "distinct (map fst al) \<Longrightarrow> p \<in> set (AList.update k v al) \<longleftrightarrow> p = (k, v) \<or> p \<in> set al \<and> fst p \<noteq> k"
  by (induction al) (auto simp: image_iff)

lemma page_round: "len \<le> (len + 4095) div 4096 * 4096 \<and> (len + 4095) div 4096 * 4096 \<le> len + 4095" for len :: nat
proof -
  define q r where "q = (len + 4095) div 4096" and "r = (len + 4095) mod 4096"
  have "len + 4095 = q * 4096 + r" "r < 4096" by (simp_all add: q_def r_def)
  then show ?thesis unfolding q_def [symmetric] by linarith
qed

lemma maps_ok_insert:
  assumes "maps_ok g" and "mapped_addr g' = AList.update fd md (mapped_addr g) \<or> mapped_addr g' = mapped_addr g"
    and "start_addr g' = start_addr g" and "next_map g \<le> range_start (md_range md)" and "range_end (md_range md) \<le> next_map g'"
    and "next_map g \<le> next_map g'"
  shows "maps_ok g'"
proof -
  have d: "distinct (map fst (mapped_addr g))" using assms(1) by (simp add: maps_ok_def)
  have new: "p = (fd, md) \<or> p \<in> set (mapped_addr g)" if "p \<in> set (mapped_addr g')" for p
    using assms(2) that by (auto simp: in_update [OF d])
  have dj: "md_disjoint (snd p) md \<and> md_disjoint md (snd p)" if "p \<in> set (mapped_addr g)" for p
    using assms(1,4) that by (fastforce simp: maps_ok_def md_disjoint_def)
  have "distinct (map fst (mapped_addr g'))" using assms(2) d by (auto simp: distinct_update)
  moreover have "start_addr g \<le> range_start (md_range md)" using assms(1,4) by (simp add: maps_ok_def)
  ultimately show ?thesis
    using assms(1,3,5,6) new dj unfolding maps_ok_def by (smt (verit) le_trans snd_conv fst_conv)
qed

text \<open>
  C11: mapping a tracked file.  With the CXL mode on, a call that returns took the next free pages of the tracked space.  The ranges
  recorded for descriptors stay disjoint and below the bump pointer, which stays page aligned.
\<close>

theorem mmap_keeps_ranges:
  assumes "mmap e t a len prot flags fd off s = ret (r, s')" and "fd \<noteq> -1" and "cxlModeEnabled (lib s)"
    and "on_tracked (en_os e) (nv_fd_to_fname (en_os e) fd (kern s))"
    and "maps_ok (lib s)" and "next_map (lib s) + len + 4096 < 2 ^ 64"
  shows "maps_ok (lib s') \<and> next_map (lib s) + len \<le> next_map (lib s') \<and>
    (next_map (lib s) mod 4096 = 0 \<longrightarrow> next_map (lib s') mod 4096 = 0) \<and>
    (r \<noteq> MAP_FAILED \<longrightarrow> (\<exists>md. map_of (mapped_addr (lib s')) fd = Some md \<and>
       md_range md = \<lparr>range_start = next_map (lib s), range_end = next_map (lib s) + len\<rparr>))"
proof -
  obtain md where md: "range_start (md_range md) = next_map (lib s)" "range_end (md_range md) = uadd64 (next_map (lib s)) len"
    "start_addr (lib s') = start_addr (lib s)" "mmap_start (lib s') = uadd64 (next_map (lib s)) (uadd64 len 4095 div 4096 * 4096)"
    "mapped_addr (lib s') = (if r = MAP_FAILED then mapped_addr (lib s) else AList.update fd md (mapped_addr (lib s)))"
    by (rule mmap_tracked [OF assms(1-4)])
  let ?n = "(len + 4095) div 4096 * 4096"
  have n: "uadd64 len 4095 div 4096 * 4096 = ?n" using assms(6) by (simp add: uadd64_small)
  have ms: "mmap_start (lib s') = next_map (lib s) + ?n" using md(4) page_round [of len] assms(6) unfolding n by (simp add: uadd64_small)
  have "0 < next_map (lib s)" using assms(5) by (simp add: maps_ok_def)
  then have nx: "next_map (lib s') = next_map (lib s) + ?n" using ms by (simp add: next_map_def)
  have e: "range_end (md_range md) = next_map (lib s) + len" using md(2) assms(6) by (simp add: uadd64_small)
  have "maps_ok (lib s')"
    by (rule maps_ok_insert [OF assms(5), of _ fd md]) (use md e nx page_round [of len] in auto)
  moreover have "md_range md = \<lparr>range_start = next_map (lib s), range_end = next_map (lib s) + len\<rparr>"
    using md(1) e by simp
  moreover have "next_map (lib s) mod 4096 = 0 \<longrightarrow> next_map (lib s') mod 4096 = 0" unfolding nx by (metis add_0 mod_add_left_eq mod_mult_self2_is_0)
  ultimately show ?thesis using nx page_round [of len] md(5) by (auto simp: update_conv')
qed

lemma find_range_hit:
  assumes "(fd, md) \<in> set ms" and "distinct (map fst ms)" and "\<forall>p\<in>set ms. \<forall>q\<in>set ms. fst p \<noteq> fst q \<longrightarrow> md_disjoint (snd p) (snd q)"
    and "range_start (md_range md) \<le> a" "a < range_end (md_range md)"
  shows "find_range a ms = (if a = range_start (md_range md) then Inr (Some fd) else Inl ExitFailure)"
  using assms
proof (induction ms)
  case (Cons p ms)
  obtain fd' md' where p: "p = (fd', md')" by (cases p)
  show ?case
  proof (cases "p = (fd, md)")
    case True
    then show ?thesis using Cons.prems(4,5) by simp
  next
    case False
    then have "(fd, md) \<in> set ms" using Cons.prems(1) by simp
    then have "fd \<noteq> fd'" using Cons.prems(2) p by (auto simp: image_iff)
    then have "md_disjoint md md'" using Cons.prems(1,3) p by fastforce
    then have "\<not> (range_start (md_range md') \<le> a \<and> a < range_end (md_range md'))"
      using Cons.prems(4,5) by (auto simp: md_disjoint_def)
    then have "find_range a (p # ms) = find_range a ms" unfolding p find_range.simps by (rule if_not_P)
    then show ?thesis using Cons.IH [OF \<open>(fd, md) \<in> set ms\<close> _ _ Cons.prems(4,5)] Cons.prems(2,3) by simp
  qed
qed simp

text \<open>
  Unmapping.  An address inside a recorded range but past its start ends the process.  The start of a range removes exactly
  that record, whatever the order of the map, keeps the ranges disjoint and unmaps the memory, however long the range given.
\<close>

theorem munmap_recorded:
  assumes "maps_ok (lib s)" and "map_of (mapped_addr (lib s)) fd = Some md"
    and "range_start (md_range md) \<le> a" and "a < range_end (md_range md)"
  shows "if a = range_start (md_range md)
    then \<exists>r s'. munmap os a n s = Inr (r, s') \<and> map_of (mapped_addr (lib s')) = (map_of (mapped_addr (lib s)))(fd := None) \<and>
      maps_ok (lib s') \<and> (r, mch (lib s'), kern s') = os_munmap os a n (mch (lib s), kern s)
    else munmap os a n s = Inl ExitFailure"
proof -
  have f: "find_range a (mapped_addr (lib s)) = (if a = range_start (md_range md) then Inr (Some fd) else Inl ExitFailure)"
    by (rule find_range_hit [OF map_of_SomeD [OF assms(2)]]) (use assms in \<open>auto simp: maps_ok_def\<close>)
  have ok: "maps_ok ((lib s)\<lparr>mapped_addr := AList.delete fd (mapped_addr (lib s)), mch := m\<rparr>)" for m
    using assms(1) by (auto simp: maps_ok_def next_map_def distinct_map_filter AList.delete_eq)
  show ?thesis
    using f ok by (auto simp: munmap_def case_prod_unfold Let_def delete_conv')
qed

subsection \<open>A tracked mapping\<close>

lemma demo_sys_fields [simp]:
  "lib demo_sys = demo_cxl\<lparr>tls_logs := []\<rparr>" "vram demo_sys = None" "kern demo_sys = ()"
  "en_os demo_env = demo_os" "mapped_addr demo_cxl = []" "mmap_start demo_cxl = 2 ^ 40" "cxlModeEnabled demo_cxl" "end_addr demo_cxl = 2 ^ 41"
  "log_loc demo_cxl = ''/mnt/pmem0/cxlbuf_logs/''"
  by (simp_all add: demo_sys_def demo_env_def demo_cxl_def demo_glob_def glob.defs)

lemma demo_no_recovery: "needs_recovery demo_os loc f (mch demo_cxl, ()) = Inr ([], mch demo_cxl, ())"
proof -
  have st: "ld64 (mch demo_cxl) (log_state_at 4096) = 0"
    by (simp add: ld64_def log_layout_defs ldn_wr_disj) (simp add: ldn_def rd_def numeral_eq_Suc)
  have lines: "nv_split demo_os (os_read_file demo_os (get_dependency_fname f) ()) newline None = [dep_line 7 1 (2 ^ 40), dep_line 7 2 (2 ^ 40)]"
    by (simp add: demo_os_def newline_def split_on_append split_on_none dep_line_no_newline)
  have reg: "os_is_regular_file demo_os p k" for p k by (simp add: demo_os_def)
  show ?thesis unfolding needs_recovery_def Let_def snd_conv lines
    by (simp add: reg split_dep_line [OF demo_text_ok] demo_get_log st demo_calls)
qed

lemma demo_mmap: "\<exists>s'. mmap demo_env 0 0 4096 PROT_RW MAP_SHARED 5 0 demo_sys = ret (2 ^ 40, s')"
proof -
  let ?f = "\<lparr>pf_path = ''/mnt/pmem0/data'', pf_addr = 2 ^ 40, pf_len = 4096\<rparr>"
  have fn: "nv_fd_to_fname demo_os 5 () = ''/mnt/pmem0/data''" "on_tracked demo_os ''/mnt/pmem0/data''"
    by (simp_all add: demo_os_def on_tracked_def)
  have c: "PmemFile_ctor demo_env ''/mnt/pmem0/data'' 0 4096 demo_sys = Inr (\<lparr>pf_path = ''/mnt/pmem0/data'', pf_addr = 0, pf_len = 4096\<rparr>, demo_sys)"
    by (simp add: PmemFile_ctor_def sys_mach_def demo_no_recovery put_mach_def)
  have b: "create_backing_file demo_os ?f () = Inr ()"
    by (simp add: create_backing_file_def has_backing_file_def demo_os_def)
  have g: "get_backing_fname ?f = ''/mnt/pmem0/data.cxlbuf_backing''" by (simp add: get_backing_fname_def)
  have mb: "\<exists>s2. map_backing_file demo_env 0 ?f s1 = ret s2 \<and> same_maps (lib s1) (lib s2)" for s1
  proof -
    have "\<exists>s2. map_backing_file demo_env 0 ?f s1 = ret s2"
      unfolding map_backing_file_def Let_def g by (simp add: demo_os_def uadd64_small MAP_FAILED_def sys_mach_def ret_def)
    then show ?thesis using map_backing_file_maps by (auto simp: ret_def)
  qed
  have mp: "\<exists>s'. map_to_page_cache demo_env ?f MAP_SHARED PROT_RW 5 0 s2 = Inr (2 ^ 40, s')"
    if "same_maps (demo_cxl\<lparr>tls_logs := [], mmap_start := ms\<rparr>) (lib s2)" for s2 ms
    using that by (simp add: map_to_page_cache_def demo_os_def Let_def sys_mach_def MAP_FAILED_def record_mapping_def addr_in_range_def put_mach_def
        same_maps_def write_dependency_def write_dependency_internal_def get_dependency_fname_def)
  let ?s1 = "demo_sys\<lparr>lib := (lib demo_sys)\<lparr>mmap_start := 2 ^ 40 + 4096\<rparr>, kern := ()\<rparr>"
  have bump: "bump_mmap 4096 (lib demo_sys) = (2 ^ 40, (lib demo_sys)\<lparr>mmap_start := 2 ^ 40 + 4096\<rparr>)"
    by (simp add: bump_mmap_def uadd64_small)
  have cm: "cxlModeEnabled (lib demo_sys)" by simp
  have sa: "set_addr (2 ^ 40) \<lparr>pf_path = ''/mnt/pmem0/data'', pf_addr = 0, pf_len = 4096\<rparr> = ?f" by (simp add: set_addr_def)
  obtain s2 where s2: "map_backing_file demo_env 0 ?f ?s1 = ret s2" "same_maps (lib ?s1) (lib s2)" using mb by blast
  obtain s' where s': "map_to_page_cache demo_env ?f MAP_SHARED PROT_RW 5 0 s2 = Inr (2 ^ 40, s')"
    using mp [of "2 ^ 40 + 4096" s2] s2(2) by auto
  have "mmap demo_env 0 0 4096 PROT_RW MAP_SHARED 5 0 demo_sys = Some (Inr (2 ^ 40, s'))"
    unfolding mmap_def Let_def demo_sys_fields(3,4) fn(1) c bindX_simps prod.case bump sa b s2(1) s' using cm fn(2)
    by (simp only: if_True simp_thms bindX_simps prod.case s2(1) s' b)
  then show ?thesis by (auto simp: ret_def)
qed

theorem mmap_keeps_ranges_witness:
  "\<exists>s' md. mmap demo_env 0 0 4096 PROT_RW MAP_SHARED 5 0 demo_sys = ret (2 ^ 40, s') \<and> maps_ok (lib s') \<and>
     map_of (mapped_addr (lib s')) 5 = Some md \<and> md_range md = \<lparr>range_start = 2 ^ 40, range_end = 2 ^ 40 + 4096\<rparr>"
proof -
  obtain s' where m: "mmap demo_env 0 0 4096 PROT_RW MAP_SHARED 5 0 demo_sys = ret (2 ^ 40, s')" using demo_mmap by blast
  have "maps_ok (lib demo_sys)" by (simp add: maps_ok_def next_map_def)
  moreover have "on_tracked (en_os demo_env) (nv_fd_to_fname (en_os demo_env) 5 (kern demo_sys))" by (simp add: demo_os_def on_tracked_def)
  ultimately show ?thesis
    using mmap_keeps_ranges [OF m] m by (intro exI [of _ s']) (simp add: next_map_def MAP_FAILED_def)
qed

definition demo_mapped :: "(ram, nat, unit) sys" where
  "demo_mapped = demo_sys\<lparr>lib := (lib demo_sys)\<lparr>mmap_start := 2 ^ 40 + 8192,
     mapped_addr := [(5, \<lparr>md_fd = 5, md_range = \<lparr>range_start = 2 ^ 40, range_end = 2 ^ 40 + 4096\<rparr>, md_fpath = ''a''\<rparr>),
                     (6, \<lparr>md_fd = 6, md_range = \<lparr>range_start = 2 ^ 40 + 4096, range_end = 2 ^ 40 + 8192\<rparr>, md_fpath = ''b''\<rparr>)]\<rparr>\<rparr>"

theorem munmap_recorded_witness:
  "\<exists>s'. munmap demo_os (2 ^ 40 + 4096) 4096 demo_mapped = Inr (0, s') \<and>
     map_of (mapped_addr (lib s')) = (map_of (mapped_addr (lib demo_mapped)))(6 := None)"
proof -
  have ok: "maps_ok (lib demo_mapped)" by (simp add: demo_mapped_def maps_ok_def next_map_def md_disjoint_def)
  have "map_of (mapped_addr (lib demo_mapped)) 6 =
      Some \<lparr>md_fd = 6, md_range = \<lparr>range_start = 2 ^ 40 + 4096, range_end = 2 ^ 40 + 8192\<rparr>, md_fpath = ''b''\<rparr>"
    by (simp add: demo_mapped_def)
  from munmap_recorded [OF ok this, of "2 ^ 40 + 4096" demo_os 4096] show ?thesis by (auto simp: demo_calls)
qed

subsection \<open>The constructor\<close>

lemma resolve_all:
  assumes "resolve dlsym ns d = Inr d'"
  shows "\<forall>n. map_of (real_syms d') n = (if n \<in> set ns then Some (dlsym n) else map_of (real_syms d) n)"
    and "\<forall>n\<in>set ns. dlsym n \<noteq> 0"
proof -
  have "(\<forall>n. map_of (real_syms d') n = (if n \<in> set ns then Some (dlsym n) else map_of (real_syms d) n)) \<and> (\<forall>n\<in>set ns. dlsym n \<noteq> 0)"
    using assms by (induction ns arbitrary: d) (auto simp: Let_def guardR_eq_Inr update_conv')
  then show "\<forall>n. map_of (real_syms d') n = (if n \<in> set ns then Some (dlsym n) else map_of (real_syms d) n)"
    and "\<forall>n\<in>set ns. dlsym n \<noteq> 0" by blast+
qed

text \<open>
  The constructor of the library.  When it returns, every intercepted function has its original behind it, the tracked space is
  the non-empty interval between the two hexadecimal addresses of the environment, and nothing was counted yet.  A missing
  address ends the process.
\<close>

theorem libstoreinst_ctor_ready:
  assumes "\<not> init_dlsyms_done d"
  shows "(\<forall>d' g'. libstoreinst_ctor os dlsym (d, g) = Inr (d', g') \<longrightarrow>
      (\<forall>n\<in>set dlsym_names. map_of (real_syms d') n = Some (dlsym n) \<and> dlsym n \<noteq> 0) \<and>
      stoull 16 (get_env_str os ''PMEM_START_ADDR'' []) = Inr (start_addr g') \<and>
      stoull 16 (get_env_str os ''PMEM_END_ADDR'' []) = Inr (end_addr g') \<and>
      0 < start_addr g' \<and> start_addr g' < end_addr g' \<and> total_log_entries (ctrs g') = 0 \<and> total_bytes_wr (ctrs g') = 0) \<and>
    (nv_env_str os ''PMEM_START_ADDR'' = None \<longrightarrow> (\<exists>err. libstoreinst_ctor os dlsym (d, g) = Inl err))"
proof -
  have "(\<forall>n\<in>set dlsym_names. map_of (real_syms d') n = Some (dlsym n) \<and> dlsym n \<noteq> 0) \<and>
      stoull 16 (get_env_str os ''PMEM_START_ADDR'' []) = Inr (start_addr g') \<and>
      stoull 16 (get_env_str os ''PMEM_END_ADDR'' []) = Inr (end_addr g') \<and>
      0 < start_addr g' \<and> start_addr g' < end_addr g' \<and> total_log_entries (ctrs g') = 0 \<and> total_bytes_wr (ctrs g') = 0"
    if r: "libstoreinst_ctor os dlsym (d, g) = Inr (d', g')" for d' g'
  proof -
    have "resolve dlsym dlsym_names (d\<lparr>init_dlsyms_done := True\<rparr>) = Inr d'"
      using r assms by (auto simp: libstoreinst_ctor_def bindR_eq_Inr init_dlsyms_def)
    note res = resolve_all [OF this]
    obtain g1 where "init_addrs os (init_counters (g\<lparr>constructor_init_done := True\<rparr>)) = Inr g1"
      "g' = (init_envvars os g1)\<lparr>cxlModeEnabled := nv_env_val os ''CXL_MODE_ENABLED''\<rparr>"
      using r by (auto simp: libstoreinst_ctor_def bindR_eq_Inr)
    then show ?thesis using res
      by (auto simp: init_addrs_def init_envvars_def init_counters_def upd_ctrs_def Let_def bindR_eq_Inr guardR_eq_Inr)
  qed
  moreover have "\<exists>err. libstoreinst_ctor os dlsym (d, g) = Inl err" if "nv_env_str os ''PMEM_START_ADDR'' = None"
    using that by (cases "init_dlsyms dlsym d") (auto simp: libstoreinst_ctor_def init_addrs_def get_env_str_def)
  ultimately show ?thesis by blast
qed

definition addr_os :: "unit os" where
  "addr_os = demo_os\<lparr>nv_env_str := (\<lambda>v. if v = ''PMEM_START_ADDR'' then Some ''0x10000000000'' else
     if v = ''PMEM_END_ADDR'' then Some ''0x20000000000'' else None)\<rparr>"

theorem libstoreinst_ctor_ready_witness:
  "\<exists>d' g'. libstoreinst_ctor addr_os (\<lambda>n. 64) (\<lparr>init_dlsyms_done = False, real_syms = []\<rparr>, demo_glob) = Inr (d', g') \<and>
     map_of (real_syms d') ''mmap'' = Some 64 \<and> start_addr g' < end_addr g'"
proof -
  have s: "stoull 16 ''0x10000000000'' = Inr (2 ^ 40)" "stoull 16 ''0x20000000000'' = Inr (2 ^ 41)" 
    by (simp_all add: stoull_def str_num_def is_space_char_def digits_val_def digit_of_def Let_def)
  obtain d' where "resolve (\<lambda>n. 64) dlsym_names \<lparr>init_dlsyms_done = True, real_syms = []\<rparr> = Inr d'"
    by (simp add: dlsym_names_def Let_def)
  then obtain d' g' where r: "libstoreinst_ctor addr_os (\<lambda>n. 64) (\<lparr>init_dlsyms_done = False, real_syms = []\<rparr>, demo_glob) = Inr (d', g')"
    by (simp add: libstoreinst_ctor_def init_dlsyms_def init_addrs_def get_env_str_def addr_os_def s)
  then show ?thesis
    using libstoreinst_ctor_ready [of "\<lparr>init_dlsyms_done = False, real_syms = []\<rparr>" addr_os "\<lambda>n. 64" demo_glob]
    by (auto simp: dlsym_names_def)
qed

end
