(* ===== verification/EndToEnd.thy ===== *)
theory EndToEnd
  imports Wrappers
begin

text \<open>
  What a sequence of instrumented stores and intercepted calls leaves behind for the two ways forward: the list of entries that the next
  snapshot copies, and the log that recovery replays.  The two properties that combine them are in the root theory.
\<close>

subsection \<open>Stores and the volatile entries\<close>

text \<open>\<open>log_frame\<close>: only the log of thread \<open>t\<close> changed, and it stayed where it is.\<close>

definition log_frame :: "nat \<Rightarrow> 'z glob_scheme \<Rightarrow> 'z glob_scheme \<Rightarrow> bool" where
  "log_frame t g g' \<longleftrightarrow> length (tls_logs g') = length (tls_logs g) \<and> (\<forall>u. u \<noteq> t \<longrightarrow> tls_logs g' ! u = tls_logs g ! u) \<and>
     log_area (tls_logs g' ! t) = log_area (tls_logs g ! t) \<and> backing_file_start g' = backing_file_start g \<and>
     firstSnapshot g' = firstSnapshot g \<and> nopMsync g' = nopMsync g \<and> (storeInstEnabled g \<longrightarrow> storeInstEnabled g') \<and> same_maps g g'"

lemma log_frame_trans: "log_frame t g g' \<Longrightarrow> log_frame t g' g'' \<Longrightarrow> log_frame t g g''"
  by (auto simp: log_frame_def intro: same_maps_trans)

lemma log_range_frame:
  assumes "log_range ops t a n g = Inr g'"
  shows "log_frame t g g'"
proof -
  have fe: "log_area (fst (flush_entry ops L m)) = log_area L" for L m using flush_entry_log [of ops L m] by auto
  show ?thesis using assms log_range_maps [OF assms]
    by (cases "t < length (tls_logs g)")
      (auto simp: log_range_def log_frame_def Let_def guardR_eq_Inr case_prod_unfold set_log_def upd_ctrs_def fe list_update_beyond split: if_split_asm)
qed

definition icall_entry :: "icall \<Rightarrow> log_entry_lean_t" where
  "icall_entry c = \<lparr>lean_addr = fst (icall_range c), lean_bytes = snd (icall_range c)\<rparr>"

lemma run_icall_entries:
  assumes ok: "log_ok ops t la cap g" and fit: "icall_fits la cap c g" and run: "run_icall ops t c g = Inr g'"
  shows "log_frame t g g'" and "entries (tls_logs g' ! t) = entries (tls_logs g ! t) @ [icall_entry c]"
    and "outside_log la cap x \<Longrightarrow> \<not> inr (lean_addr (icall_entry c)) (lean_bytes (icall_entry c)) x \<Longrightarrow> cpu (mch g') x = cpu (mch g) x"
proof -
  obtain f where f: "\<And>g1. length (f g1) \<le> snd (icall_range c)"
    "run_icall ops t c g = bindR (log_range ops t (fst (icall_range c)) (snd (icall_range c)) g)
      (\<lambda>g1. Inr (upd_mch (store (fst (icall_range c)) (f g1)) g1))"
    using run_icall_logged [OF fit] by blast
  have r: "log_fits la cap (fst (icall_range c)) (snd (icall_range c)) g" using fit by simp
  obtain g1 where g1: "log_range ops t (fst (icall_range c)) (snd (icall_range c)) g = Inr g1"
    "\<And>x. outside_log la cap x \<Longrightarrow> cpu (mch g1) x = cpu (mch g) x"
    "entries (tls_logs g1 ! t) = entries (tls_logs g ! t) @ [icall_entry c]"
    by (rule log_range_ok [OF ok r]) (simp add: icall_entry_def)
  have g': "g' = upd_mch (store (fst (icall_range c)) (f g1)) g1" using run f(2) g1(1) by simp
  show "log_frame t g g'" using log_range_frame [OF g1(1)] by (simp add: g' log_frame_def upd_mch_def)
  show "entries (tls_logs g' ! t) = entries (tls_logs g ! t) @ [icall_entry c]" using g1(3) by (simp add: g' upd_mch_def)
  assume x: "outside_log la cap x" "\<not> inr (lean_addr (icall_entry c)) (lean_bytes (icall_entry c)) x"
  then have "\<not> inr (fst (icall_range c)) (length (f g1)) x" using f(1) [of g1] by (auto simp: icall_entry_def inr_def)
  then show "cpu (mch g') x = cpu (mch g) x" using g1(2) [OF x(1)] by (simp add: g' upd_mch_def wr_apply_out)
qed

lemma run_icalls_entries:
  assumes "log_ok ops t la cap g" and "icalls_fit ops t la cap cs g"
  shows "\<exists>g'. run_icalls ops t cs g = Inr g' \<and> log_ok ops t la cap g' \<and> log_frame t g g' \<and>
    entries (tls_logs g' ! t) = entries (tls_logs g ! t) @ map icall_entry cs \<and>
    (\<forall>x. outside_log la cap x \<and> (\<forall>c\<in>set cs. \<not> inr (lean_addr (icall_entry c)) (lean_bytes (icall_entry c)) x) \<longrightarrow>
       cpu (mch g') x = cpu (mch g) x)"
  using assms
proof (induction cs arbitrary: g)
  case Nil
  then show ?case by (simp add: log_frame_def)
next
  case (Cons c cs)
  have fit: "icall_fits la cap c g" using Cons.prems(2) by simp
  obtain g1 where g1: "run_icall ops t c g = Inr g1" "log_ok ops t la cap g1"
    using run_icall_undoable [OF Cons.prems(1) fit] by (metis undoable_def)
  note e = run_icall_entries [OF Cons.prems(1) fit g1(1)]
  obtain g' where g': "run_icalls ops t cs g1 = Inr g'" "log_ok ops t la cap g'" "log_frame t g1 g'"
    "entries (tls_logs g' ! t) = entries (tls_logs g1 ! t) @ map icall_entry cs"
    "\<forall>x. outside_log la cap x \<and> (\<forall>c\<in>set cs. \<not> inr (lean_addr (icall_entry c)) (lean_bytes (icall_entry c)) x) \<longrightarrow>
       cpu (mch g') x = cpu (mch g1) x"
    using Cons.IH [OF g1(2)] Cons.prems(2) g1(1) by auto
  have "log_frame t g g'" by (rule log_frame_trans [OF e(1) g'(3)])
  then show ?case using g' g1 e(2,3) by simp
qed

lemma in_work_in_snap: "in_work sa len e \<Longrightarrow> sa + len < 2 ^ 64 \<Longrightarrow> in_snap sa (snap_diff sa len) e"
  unfolding in_work_def in_snap_def snap_diff_def by (simp add: uadd64_small usub64_ge) linarith

lemma stores_keep_ready:
  assumes "snap_ready se H len g" and "log_frame t g g'"
    and "entries (tls_logs g' ! t) = entries (tls_logs g ! t) @ map icall_entry cs" and "\<forall>c\<in>set cs. in_work (start_addr g) len (icall_entry c)"
  shows "snap_ready se H len g'"
proof -
  have "snap_pre se H len u g'" if "u < length (tls_logs g')" for u
    using assms that by (cases "u = t") (auto simp: snap_ready_def snap_pre_def log_frame_def same_maps_def)
  then show ?thesis using assms(1,2) by (auto simp: snap_ready_def snap_env_ok_def log_frame_def same_maps_def)
qed

lemma stores_then_snapshot:
  assumes rd0: "snap_ready se H len g" and ok: "log_ok (se_ops se) t la cap g" and fit: "icalls_fit (se_ops se) t la cap cs g"
    and wk: "\<forall>c\<in>set cs. in_work (start_addr g) len (icall_entry c)"
    and mir: "\<forall>k<len. mirrored (cpu (mch g)) (start_addr g) (backing_file_start g) k"
    and out: "\<forall>k<len. outside_log la cap (start_addr g + k) \<and> outside_log la cap (backing_file_start g + k)"
  shows "\<exists>g1 g2. run_icalls (se_ops se) t cs g = Inr g1 \<and> log_frame t g g1 \<and> snap_ready se H len g1 \<and>
    snapshot se (start_addr g) len MS_SYNC g1 = ret (0, g2) \<and>
    (\<forall>k<len. cpu (mch g2) (backing_file_start g + k) = cpu (mch g1) (start_addr g + k) \<and>
       cpu (mch g2) (start_addr g + k) = cpu (mch g1) (start_addr g + k)) \<and>
    (\<forall>c\<in>set cs. \<forall>k. inr (lean_addr (icall_entry c)) (lean_bytes (icall_entry c)) (start_addr g + k) \<longrightarrow>
       durable (mch g2) (backing_file_start g + k))"
proof -
  let ?sa = "start_addr g" and ?pb = "backing_file_start g"
  obtain g1 where g1: "run_icalls (se_ops se) t cs g = Inr g1" "log_frame t g g1"
    "entries (tls_logs g1 ! t) = entries (tls_logs g ! t) @ map icall_entry cs"
    "\<forall>x. outside_log la cap x \<and> (\<forall>c\<in>set cs. \<not> inr (lean_addr (icall_entry c)) (lean_bytes (icall_entry c)) x) \<longrightarrow>
       cpu (mch g1) x = cpu (mch g) x"
    using run_icalls_entries [OF ok fit] by blast
  have rdy: "snap_ready se H len g1" by (rule stores_keep_ready [OF rd0 g1(2,3) wk])
  have fr: "start_addr g1 = ?sa" "backing_file_start g1 = ?pb"
    using g1(2) by (simp_all add: log_frame_def same_maps_def)
  have lay: "layout H ?sa ?pb len" using rd0 by (simp add: snap_ready_def snap_env_ok_def)
  then have b: "?sa + len < 2 ^ 64" by (simp add: layout_def)
  have t: "t < length (tls_logs g1)" using ok g1(2) by (simp add: log_ok_def log_frame_def)
  have ent: "icall_entry c \<in> set (entries (tls_logs g1 ! t))" if "c \<in> set cs" for c using that g1(3) by simp
  have sn: "in_snap ?sa (snap_diff ?sa len) (icall_entry c)" if "c \<in> set cs" for c
    using in_work_in_snap [OF _ b] wk that by blast
  have tr: "mirrored (cpu (mch g1)) ?sa ?pb k \<or> tracked ?sa len g1 k" if k: "k < len" for k
  proof (cases "\<exists>c\<in>set cs. inr (lean_addr (icall_entry c)) (lean_bytes (icall_entry c)) (?sa + k)")
    case True
    then show ?thesis using ent sn t unfolding tracked_def fr by (meson nth_mem)
  next
    case False
    have "\<not> inr (lean_addr (icall_entry c)) (lean_bytes (icall_entry c)) (?pb + k)" if "c \<in> set cs" for c
    proof -
      have "in_work ?sa len (icall_entry c)" using wk that by blast
      then show ?thesis using lay k unfolding in_work_def layout_def inr_def by linarith
    qed
    then show ?thesis using False g1(4) mir out k by (simp add: mirrored_def)
  qed
  obtain g2 where g2: "snapshot se ?sa len MS_SYNC g1 = ret (0, g2)" "snap_post H len ?sa len [0..<length (tls_logs g1)] g1 g2"
    using snapshot_run [OF rdy] by blast
  have "durable (mch g2) (?pb + k)"
    if c: "c \<in> set cs" "inr (lean_addr (icall_entry c)) (lean_bytes (icall_entry c)) (?sa + k)" for c k
  proof -
    have "entry_safe ?sa ?pb (icall_entry c) (mch g2)" using g2(2) t ent [OF c(1)] sn [OF c(1)] by (simp add: snap_post_def fr)
    moreover have "?sa \<le> lean_addr (icall_entry c)" using wk c(1) by (simp add: in_work_def)
    then have "lean_addr (icall_entry c) - ?sa \<le> k \<and> k < lean_addr (icall_entry c) - ?sa + lean_bytes (icall_entry c)"
      using c(2) unfolding inr_def by linarith
    ultimately show ?thesis unfolding entry_safe_def by blast
  qed
  then show ?thesis
    using g1(1,2) rdy g2(1) snap_post_mirrors [OF rdy g2(2), unfolded fr] snap_post_work [OF rdy g2(2), unfolded fr] tr
    by (intro exI [of _ g1] exI [of _ g2]) (auto simp: mirrored_def)
qed

subsection \<open>A crash before the next snapshot\<close>

lemma run_icall_list:
  assumes ok: "log_ok ops t la cap g" and fit: "icall_fits la cap c g" and run: "run_icall ops t c g = Inr g'"
    and en: "en \<in> set (log_list (mch g') la)"
  shows "en \<in> set (log_list (mch g) la) \<or> fst en = lean_addr (icall_entry c) \<and> length (snd en) = lean_bytes (icall_entry c)"
proof -
  obtain f where f: "\<And>g1. length (f g1) \<le> snd (icall_range c)"
    "run_icall ops t c g = bindR (log_range ops t (fst (icall_range c)) (snd (icall_range c)) g)
      (\<lambda>g1. Inr (upd_mch (store (fst (icall_range c)) (f g1)) g1))"
    using run_icall_logged [OF fit] by blast
  have r: "log_fits la cap (fst (icall_range c)) (snd (icall_range c)) g" using fit by simp
  obtain g1 where g1: "log_range ops t (fst (icall_range c)) (snd (icall_range c)) g = Inr g1" "log_ok ops t la cap g1"
    "log_list (mch g1) la = log_list (mch g) la \<or>
     log_list (mch g1) la = log_list (mch g) la @ [(fst (icall_range c), rd (cpu (mch g)) (fst (icall_range c)) (snd (icall_range c)))]"
    by (rule log_range_ok [OF ok r]) blast
  have out: "outside_log la cap x" if "inr (fst (icall_range c)) (length (f g1)) x" for x
    using that f(1) [of g1] r by (auto simp: log_fits_def outside_log_def inr_def)
  have "log_list (mch g') la = log_list (mch g1) la"
    using log_wf_store(2) [OF _ _ out] g1(1,2) f(2) run by (auto simp: log_ok_def upd_mch_def)
  then show ?thesis using en g1(3) by (auto simp: icall_entry_def)
qed

lemma run_icalls_list:
  assumes "log_ok ops t la cap g" and "icalls_fit ops t la cap cs g" and "run_icalls ops t cs g = Inr g'"
    and "en \<in> set (log_list (mch g') la)"
  shows "en \<in> set (log_list (mch g) la) \<or> (\<exists>c\<in>set cs. fst en = lean_addr (icall_entry c) \<and> length (snd en) = lean_bytes (icall_entry c))"
  using assms
proof (induction cs arbitrary: g)
  case (Cons c cs)
  have fit: "icall_fits la cap c g" using Cons.prems(2) by simp
  obtain g1 where g1: "run_icall ops t c g = Inr g1" "log_ok ops t la cap g1"
    using run_icall_undoable [OF Cons.prems(1) fit] by (metis undoable_def)
  show ?case using Cons.IH [OF g1(2)] Cons.prems(2-4) g1(1) run_icall_list [OF Cons.prems(1) fit g1(1), of en] by auto
qed simp

subsection \<open>A live file\<close>

definition demo_live :: "(ram, nat, unit) sys" where
  "demo_live = \<lparr>lib = glob.extend (demo_glob\<lparr>mapped_addr :=
       [(5, \<lparr>md_fd = 5, md_range = \<lparr>range_start = 2 ^ 40, range_end = 2 ^ 40 + 4096\<rparr>, md_fpath = ''/mnt/pmem0/data''\<rparr>)]\<rparr>)
     \<lparr>ctrlr = None, bump_off = 0\<rparr>, vram = None, kern = ()\<rparr>"

lemma demo_live_fields [simp]:
  "mch (lib demo_live) = demo_mach" "start_addr (lib demo_live) = 2 ^ 40" "backing_file_start (lib demo_live) = 2 ^ 41"
  "tls_logs (lib demo_live) = [demo_log]" "cxlModeEnabled (lib demo_live)" "storeInstEnabled (lib demo_live)" "startTracking (lib demo_live)"
  "end_addr (lib demo_live) = 2 ^ 41" "firstSnapshot (lib demo_live) = False" "nopMsync (lib demo_live) = False"
  "map_of (mapped_addr (lib demo_live)) 5 = Some \<lparr>md_fd = 5, md_range = \<lparr>range_start = 2 ^ 40, range_end = 2 ^ 40 + 4096\<rparr>, md_fpath = ''/mnt/pmem0/data''\<rparr>"
  by (simp_all add: demo_live_def demo_glob_def glob.defs)

lemma demo_live_ok: "log_ok clwb_ops 0 4096 65536 (lib demo_live)"
  using demo_log_ok by (simp add: log_ok_def) (simp add: demo_glob_def)

lemma demo_live_ready: "snap_ready demo_senv (inr 4096 24) 4096 (lib demo_live)"
proof -
  have "sort_ok (sort_key lean_addr)" by (simp add: sort_ok_def)
  then show ?thesis using clwb_ops_ok
    by (simp add: snap_ready_def snap_env_ok_def snap_pre_def layout_def inr_def demo_senv_def demo_log_def)
qed

lemma demo_live_fits: "icalls_fit clwb_ops 0 4096 65536 [Memset (2 ^ 40 + 64) 7 32] (lib demo_live)"
  by (simp add: log_fits_def log_layout_defs split: sum.split)

lemma demo_live_mirrored:
  "\<forall>k<4096. mirrored (cpu (mch (lib demo_live))) (start_addr (lib demo_live)) (backing_file_start (lib demo_live)) k"
  by (simp add: mirrored_def demo_mach_def wr_apply_out inr_def)

lemma demo_live_outside:
  "\<forall>k<4096. outside_log 4096 65536 (start_addr (lib demo_live) + k) \<and> outside_log 4096 65536 (backing_file_start (lib demo_live) + k)"
  by (simp add: outside_log_def log_layout_defs inr_def)

lemma demo_live_work: "\<forall>c\<in>set [Memset (2 ^ 40 + 64) 7 32]. in_work (start_addr (lib demo_live)) 4096 (icall_entry c)"
  by (simp add: in_work_def icall_entry_def)

end
