(* ===== verification/PmdkEmul.thy ===== *)
theory PmdkEmul
  imports EndToEnd
begin

text \<open>
  The emulation of libpmemobj (libpmdkemul/libpmdkemul.cc, libpmdkemul/ator.cc and the macros of
  libpmemobj.h): pools are memory-mapped files of Boost, transactions only count their nesting, and the end of
  the outermost one takes a snapshot of the file. \<open>managed_mapped_file\<close> is Boost code: the record \<open>mmf_impl\<close>, whose
  objects have the type \<open>'h\<close>. A null pointer is 0. The last part shows what a program of nested
  transactions leaves on the media.
\<close>

section \<open>The emulation of libpmemobj\<close>

record 'h mmf_impl =
  b_new :: "(nat \<Rightarrow> 'h option) \<Rightarrow> nat"
  b_open :: "string \<Rightarrow> nat \<Rightarrow> 'h"
  b_allocate :: "nat \<Rightarrow> 'h \<Rightarrow> (addr \<times> 'h) option"
  b_find_root :: "'h \<Rightarrow> addr"
  b_construct_root :: "'h \<Rightarrow> (addr \<times> 'h) option"
  b_address :: "'h \<Rightarrow> addr"
  b_size :: "'h \<Rightarrow> nat"

record ('h, 'd) pobj =
  plib :: "'d cxl"
  mmfs :: "nat \<Rightarrow> 'h option"
  tx_level :: nat
  tx_mmf_obj :: nat

subsection \<open>Mapped files\<close>

definition mmf_create :: "'h mmf_impl \<Rightarrow> string \<Rightarrow> nat \<Rightarrow> ('h, 'd) pobj \<Rightarrow> nat \<times> ('h, 'd) pobj" where
  "mmf_create b path bytes s =
     (let res = b_new b (mmfs s) in (res, s\<lparr>mmfs := (mmfs s)(res \<mapsto> b_open b path bytes)\<rparr>))"

definition mmf_at :: "('h, 'd) pobj \<Rightarrow> nat \<Rightarrow> 'h res" where
  "mmf_at s mmf_obj =
     guardR (mmf_obj \<noteq> 0) AssertFailed (case mmfs s mmf_obj of None \<Rightarrow> Inl NullDeref | Some h \<Rightarrow> Inr h)"

definition mmf_alloc :: "'h mmf_impl \<Rightarrow> nat \<Rightarrow> nat \<Rightarrow> ('h, 'd) pobj \<Rightarrow> (addr \<times> ('h, 'd) pobj) res" where
  "mmf_alloc b mmf_obj bytes s =
     bindR (mmf_at s mmf_obj) (\<lambda>h.
       case b_allocate b bytes h of
         None \<Rightarrow> Inl Uncaught
       | Some (a, h') \<Rightarrow> Inr (a, s\<lparr>mmfs := (mmfs s)(mmf_obj \<mapsto> h')\<rparr>))"

definition mmf_free :: "nat \<Rightarrow> addr \<Rightarrow> ('h, 'd) pobj \<Rightarrow> ('h, 'd) pobj res" where
  "mmf_free mmf_obj ptr s = guardR (mmf_obj \<noteq> 0) AssertFailed (Inr s)"

definition mmf_get_root :: "'h mmf_impl \<Rightarrow> nat \<Rightarrow> nat \<Rightarrow> ('h, 'd) pobj \<Rightarrow> addr res" where
  "mmf_get_root b mmf_obj bytes s = bindR (mmf_at s mmf_obj) (\<lambda>h. Inr (b_find_root b h))"

definition mmf_alloc_root :: "'h mmf_impl \<Rightarrow> nat \<Rightarrow> nat \<Rightarrow> ('h, 'd) pobj \<Rightarrow> (addr \<times> ('h, 'd) pobj) res" where
  "mmf_alloc_root b mmf_obj bytes s =
     bindR (mmf_at s mmf_obj) (\<lambda>h.
       case b_construct_root b h of
         None \<Rightarrow> Inl Uncaught
       | Some (a, h') \<Rightarrow> Inr (a, s\<lparr>mmfs := (mmfs s)(mmf_obj \<mapsto> h')\<rparr>))"

definition mmf_get_or_alloc_root :: "'h mmf_impl \<Rightarrow> nat \<Rightarrow> nat \<Rightarrow> ('h, 'd) pobj \<Rightarrow> (addr \<times> ('h, 'd) pobj) res" where
  "mmf_get_or_alloc_root b mmf_obj bytes s =
     guardR (mmf_obj \<noteq> 0) AssertFailed
     (bindR (mmf_get_root b mmf_obj bytes s) (\<lambda>r.
      bindR (if r = 0 then bindR (mmf_alloc_root b mmf_obj bytes s) (\<lambda>(result, s). Inr s) else Inr s) (\<lambda>s.
      bindR (mmf_get_root b mmf_obj bytes s) (\<lambda>result. Inr (result, s)))))"

definition mmf_snapshot :: "'h mmf_impl \<Rightarrow> 'd senv \<Rightarrow> nat \<Rightarrow> ('h, 'd) pobj \<Rightarrow> ('h, 'd) pobj run" where
  "mmf_snapshot b se mmf_obj s =
     bindX (Some (mmf_at s mmf_obj)) (\<lambda>h.
     bindX (snapshot se (b_address b h) (b_size b h) MS_SYNC (plib s)) (\<lambda>(r, l).
       ret (s\<lparr>plib := l\<rparr>)))"

subsection \<open>Pools and objects\<close>

record PMEMobjpool =
  pool_root :: addr
  pool_addr :: nat

record PMEMoid =
  pool_uuid_lo :: nat
  oid_off :: nat

text \<open>\<open>st\<close> is \<open>stat\<close>: the size of a file, or nothing when there is none. A null pool is \<open>None\<close>.\<close>

definition pmemobj_open ::
  "'h mmf_impl \<Rightarrow> (string \<Rightarrow> nat option) \<Rightarrow> string \<Rightarrow> ('h, 'd) pobj \<Rightarrow> PMEMobjpool option \<times> ('h, 'd) pobj" where
  "pmemobj_open b st path s =
     (case st path of
        None \<Rightarrow> (None, s)
      | Some st_size \<Rightarrow> let (q, s) = mmf_create b path st_size s in (Some \<lparr>pool_root = 0, pool_addr = q\<rparr>, s))"

definition pmemobj_create ::
  "'h mmf_impl \<Rightarrow> string \<Rightarrow> nat \<Rightarrow> ('h, 'd) pobj \<Rightarrow> PMEMobjpool option \<times> ('h, 'd) pobj" where
  "pmemobj_create b path poolsize s =
     (let (q, s) = mmf_create b path poolsize s in (Some \<lparr>pool_root = 0, pool_addr = q\<rparr>, s))"

definition pmemobj_root :: "PMEMobjpool \<Rightarrow> nat \<Rightarrow> PMEMoid" where
  "pmemobj_root pop bytes = \<lparr>pool_uuid_lo = 1, oid_off = pool_root pop\<rparr>"

definition lpo_assert :: "bool \<Rightarrow> unit res" where
  "lpo_assert cond = guardR cond ExitFailure (Inr ())"

definition pmemobj_close :: "PMEMobjpool \<Rightarrow> unit res" where
  "pmemobj_close pop = lpo_assert False"

definition pmemobj_check :: "string \<Rightarrow> string \<Rightarrow> unit res" where
  "pmemobj_check path lay = lpo_assert False"

definition pmemobj_direct :: "PMEMoid \<Rightarrow> addr" where
  "pmemobj_direct oid = oid_off oid"

definition POBJ_ROOT :: "'h mmf_impl \<Rightarrow> PMEMobjpool \<Rightarrow> nat \<Rightarrow> ('h, 'd) pobj \<Rightarrow> (PMEMoid \<times> ('h, 'd) pobj) res" where
  "POBJ_ROOT b pool bytes s =
     bindR (mmf_get_or_alloc_root b (pool_addr pool) bytes s) (\<lambda>(a, s).
       Inr (\<lparr>pool_uuid_lo = 1, oid_off = a\<rparr>, s))"

definition TOID_IS_NULL :: "PMEMoid \<Rightarrow> bool" where
  "TOID_IS_NULL oid \<longleftrightarrow> oid_off oid = 0"

definition TOID_EQUALS :: "PMEMoid \<Rightarrow> PMEMoid \<Rightarrow> bool" where
  "TOID_EQUALS lhs rhs \<longleftrightarrow> oid_off lhs = oid_off rhs \<and> pool_uuid_lo lhs = pool_uuid_lo rhs"

subsection \<open>Transactions\<close>

definition pmemobj_tx_alloc :: "'h mmf_impl \<Rightarrow> nat \<Rightarrow> ('h, 'd) pobj \<Rightarrow> (PMEMoid \<times> ('h, 'd) pobj) res" where
  "pmemobj_tx_alloc b n s =
     bindR (mmf_alloc b (tx_mmf_obj s) n s) (\<lambda>(a, s). Inr (\<lparr>pool_uuid_lo = 1, oid_off = a\<rparr>, s))"

definition pmemobj_tx_zalloc ::
  "'h mmf_impl \<Rightarrow> pmem_ops \<Rightarrow> nat \<Rightarrow> nat \<Rightarrow> ('h, 'd) pobj \<Rightarrow> (PMEMoid \<times> ('h, 'd) pobj) res" where
  "pmemobj_tx_zalloc b ops t n s =
     bindR (pmemobj_tx_alloc b n s) (\<lambda>(oid, s).
     bindR (memset ops t (oid_off oid) 0 n (plib s)) (\<lambda>l. Inr (oid, s\<lparr>plib := l\<rparr>)))"

definition pmemobj_tx_free :: "PMEMoid \<Rightarrow> ('h, 'd) pobj \<Rightarrow> (int \<times> ('h, 'd) pobj) res" where
  "pmemobj_tx_free oid s = bindR (mmf_free (tx_mmf_obj s) (oid_off oid) s) (\<lambda>s. Inr (0, s))"

definition TX_BEGIN :: "PMEMobjpool \<Rightarrow> ('h, 'd) pobj \<Rightarrow> ('h, 'd) pobj" where
  "TX_BEGIN pool s = s\<lparr>tx_mmf_obj := pool_addr pool, tx_level := uadd64 (tx_level s) 1\<rparr>"

definition TX_END :: "'h mmf_impl \<Rightarrow> 'd senv \<Rightarrow> ('h, 'd) pobj \<Rightarrow> ('h, 'd) pobj run" where
  "TX_END b se s =
     (let s1 = s\<lparr>tx_level := usub64 (tx_level s) 1\<rparr>
      in if tx_level s1 = 0
         then bindX (mmf_snapshot b se (tx_mmf_obj s1) s1) (\<lambda>s2. ret (s2\<lparr>tx_mmf_obj := 0\<rparr>))
         else ret s1)"

section \<open>Programs of nested transactions\<close>

text \<open>A program stores to the pool through the instrumented calls of Intercept, inside transactions.\<close>

datatype txp = Call icall | Tx PMEMobjpool "txp list"

fun run_txp :: "'h mmf_impl \<Rightarrow> 'd senv \<Rightarrow> nat \<Rightarrow> txp \<Rightarrow> ('h, 'd) pobj \<Rightarrow> ('h, 'd) pobj run"
  and run_txps :: "'h mmf_impl \<Rightarrow> 'd senv \<Rightarrow> nat \<Rightarrow> txp list \<Rightarrow> ('h, 'd) pobj \<Rightarrow> ('h, 'd) pobj run" where
  "run_txp b se t (Call c) s = bindX (Some (run_icall (se_ops se) t c (plib s))) (\<lambda>l. ret (s\<lparr>plib := l\<rparr>))"
| "run_txp b se t (Tx pool ps) s = bindX (run_txps b se t ps (TX_BEGIN pool s)) (TX_END b se)"
| "run_txps b se t [] s = ret s"
| "run_txps b se t (p # ps) s = bindX (run_txp b se t p s) (run_txps b se t ps)"

fun calls_of :: "txp \<Rightarrow> icall list"
  and calls_ofs :: "txp list \<Rightarrow> icall list" where
  "calls_of (Call c) = [c]"
| "calls_of (Tx pool ps) = calls_ofs ps"
| "calls_ofs [] = []"
| "calls_ofs (p # ps) = calls_of p @ calls_ofs ps"

text \<open>The pool of the last \<open>TX_BEGIN\<close> that was run, and the depth of the nesting.\<close>

fun last_pool :: "nat \<Rightarrow> txp \<Rightarrow> nat"
  and last_pools :: "nat \<Rightarrow> txp list \<Rightarrow> nat" where
  "last_pool q (Call c) = q"
| "last_pool q (Tx pool ps) = last_pools (pool_addr pool) ps"
| "last_pools q [] = q"
| "last_pools q (p # ps) = last_pools (last_pool q p) ps"

fun depth :: "txp \<Rightarrow> nat"
  and depths :: "txp list \<Rightarrow> nat" where
  "depth (Call c) = 0"
| "depth (Tx pool ps) = Suc (depths ps)"
| "depths [] = 0"
| "depths (p # ps) = max (depth p) (depths ps)"

lemma run_icalls_append: "run_icalls ops t (xs @ ys) g = bindR (run_icalls ops t xs g) (run_icalls ops t ys)"
  by (induction xs arbitrary: g) (auto simp: bindR_def split: sum.splits)

lemma nested_run:
  "0 < tx_level s \<Longrightarrow> tx_level s + depth p < 2 ^ 64 \<Longrightarrow>
     run_txp b se t p s = bindX (Some (run_icalls (se_ops se) t (calls_of p) (plib s))) (\<lambda>l.
       ret (s\<lparr>plib := l, tx_mmf_obj := last_pool (tx_mmf_obj s) p\<rparr>))"
  "0 < tx_level s' \<Longrightarrow> tx_level s' + depths ps < 2 ^ 64 \<Longrightarrow>
     run_txps b se t ps s' = bindX (Some (run_icalls (se_ops se) t (calls_ofs ps) (plib s'))) (\<lambda>l.
       ret (s'\<lparr>plib := l, tx_mmf_obj := last_pools (tx_mmf_obj s') ps\<rparr>))"
proof (induction p and ps arbitrary: s and s' rule: calls_of_calls_ofs.induct)
  case (1 c)
  then show ?case by (cases "run_icall (se_ops se) t c (plib s)") simp_all
next
  case (2 pool ps)
  have u: "uadd64 (tx_level s) 1 = Suc (tx_level s)" "usub64 (Suc (tx_level s)) 1 = tx_level s"
    using 2(3) by (simp_all add: uadd64_def usub64_ge)
  have "run_txps b se t ps (TX_BEGIN pool s) = bindX (Some (run_icalls (se_ops se) t (calls_ofs ps) (plib s))) (\<lambda>l.
      ret ((TX_BEGIN pool s)\<lparr>plib := l, tx_mmf_obj := last_pools (pool_addr pool) ps\<rparr>))"
    using 2(1) [of "TX_BEGIN pool s"] 2(2,3) u by (simp add: TX_BEGIN_def)
  then show ?case
    using 2(2) u by (cases "run_icalls (se_ops se) t (calls_ofs ps) (plib s)") (simp_all add: TX_END_def TX_BEGIN_def)
next
  case 3
  then show ?case by simp
next
  case (4 p ps)
  then show ?case
    by (cases "run_icalls (se_ops se) t (calls_of p) (plib s')") (simp_all add: run_icalls_append)
qed

lemma outermost_run:
  assumes "tx_level s = 0" and "Suc (depths ps) < 2 ^ 64"
  shows "run_txp b se t (Tx pool ps) s =
    bindX (Some (run_icalls (se_ops se) t (calls_ofs ps) (plib s))) (\<lambda>l.
    bindX (mmf_snapshot b se (last_pools (pool_addr pool) ps) (s\<lparr>plib := l, tx_mmf_obj := last_pools (pool_addr pool) ps\<rparr>)) (\<lambda>s2.
      ret (s2\<lparr>tx_mmf_obj := 0\<rparr>)))"
proof -
  let ?s = "TX_BEGIN pool s"
  have s: "tx_level ?s = 1" "tx_mmf_obj ?s = pool_addr pool" "plib ?s = plib s"
    using assms(1) by (simp_all add: TX_BEGIN_def uadd64_def)
  have u: "usub64 1 1 = 0" by (simp add: usub64_ge)
  have e: "?s\<lparr>plib := l, tx_mmf_obj := q, tx_level := 0\<rparr> = s\<lparr>plib := l, tx_mmf_obj := q\<rparr>" for l q
    using assms(1) by (simp add: TX_BEGIN_def)
  have "run_txps b se t ps ?s = bindX (Some (run_icalls (se_ops se) t (calls_ofs ps) (plib s))) (\<lambda>l.
      ret (?s\<lparr>plib := l, tx_mmf_obj := last_pools (pool_addr pool) ps\<rparr>))"
    using nested_run(2) [of ?s ps] s assms(2) by simp
  then show ?thesis
    using s u e assms(1) by (cases "run_icalls (se_ops se) t (calls_ofs ps) (plib s)") (simp_all add: TX_END_def Let_def)
qed

declare run_txp.simps(2) [simp del]

lemma calls_of_flat [simp]: "calls_ofs (map Call cs) = cs" "last_pools q (map Call cs) = q" "depths (map Call cs) = 0"
  by (induction cs) simp_all

text \<open>C30: Nested transactions flatten. Whatever the nesting of the transactions inside an outermost one, running
  it is running its stores in order inside one single transaction: the inner \<open>TX_END\<close>s take no snapshot. The pool
  that is snapshotted is the one of the last \<open>TX_BEGIN\<close> that ran, not the one of the outermost transaction.\<close>

theorem tx_nested_flat:
  assumes "tx_level s = 0" and "Suc (depths ps) < 2 ^ 64"
  shows "run_txp b se t (Tx pool ps) s =
    run_txp b se t (Tx \<lparr>pool_root = pool_root pool, pool_addr = last_pools (pool_addr pool) ps\<rparr> (map Call (calls_ofs ps))) s"
  using assms by (simp add: outermost_run)

text \<open>C15: A transaction of the emulation is durable when it ends. The outermost transaction over a pool that is
  the tracked mapping, with any nesting of transactions over the same pool and any instrumented stores inside, runs
  the stores, leaves the backing file equal to the mapping, and every stored byte of the file is on the media.\<close>

theorem tx_durable:
  assumes lv: "tx_level s = 0" and d: "Suc (depths ps) < 2 ^ 64"
    and q: "last_pools (pool_addr pool) ps = pool_addr pool" "pool_addr pool \<noteq> 0" "mmfs s (pool_addr pool) = Some h"
    and h: "b_address b h = start_addr (plib s)" "b_size b h = len"
    and rd0: "snap_ready se H len (plib s)" and ok: "log_ok (se_ops se) t la cap (plib s)"
    and fit: "icalls_fit (se_ops se) t la cap (calls_ofs ps) (plib s)"
    and wk: "\<forall>c\<in>set (calls_ofs ps). in_work (start_addr (plib s)) len (icall_entry c)"
    and mir: "\<forall>k<len. mirrored (cpu (mch (plib s))) (start_addr (plib s)) (backing_file_start (plib s)) k"
    and out: "\<forall>k<len. outside_log la cap (start_addr (plib s) + k) \<and> outside_log la cap (backing_file_start (plib s) + k)"
  shows "\<exists>g1 g2. run_icalls (se_ops se) t (calls_ofs ps) (plib s) = Inr g1 \<and>
    run_txp b se t (Tx pool ps) s = ret (s\<lparr>plib := g2, tx_mmf_obj := 0\<rparr>) \<and>
    (\<forall>k<len. cpu (mch g2) (backing_file_start (plib s) + k) = cpu (mch g1) (start_addr (plib s) + k) \<and>
       cpu (mch g2) (start_addr (plib s) + k) = cpu (mch g1) (start_addr (plib s) + k)) \<and>
    (\<forall>c\<in>set (calls_ofs ps). \<forall>k. inr (lean_addr (icall_entry c)) (lean_bytes (icall_entry c)) (start_addr (plib s) + k) \<longrightarrow>
       durable (mch g2) (backing_file_start (plib s) + k))"
proof -
  obtain g1 g2 where g: "run_icalls (se_ops se) t (calls_ofs ps) (plib s) = Inr g1"
    "snapshot se (start_addr (plib s)) len MS_SYNC g1 = ret (0, g2)"
    "\<forall>k<len. cpu (mch g2) (backing_file_start (plib s) + k) = cpu (mch g1) (start_addr (plib s) + k) \<and>
       cpu (mch g2) (start_addr (plib s) + k) = cpu (mch g1) (start_addr (plib s) + k)"
    "\<forall>c\<in>set (calls_ofs ps). \<forall>k. inr (lean_addr (icall_entry c)) (lean_bytes (icall_entry c)) (start_addr (plib s) + k) \<longrightarrow>
       durable (mch g2) (backing_file_start (plib s) + k)"
    using stores_then_snapshot [OF rd0 ok fit wk mir out] by blast
  have "run_txp b se t (Tx pool ps) s = ret (s\<lparr>plib := g2, tx_mmf_obj := 0\<rparr>)"
    unfolding outermost_run [OF lv d] using q h g(1,2) by (simp add: mmf_snapshot_def mmf_at_def)
  with g show ?thesis by blast
qed

subsection \<open>A pool of one page\<close>

definition demo_mmf :: "unit mmf_impl" where
  "demo_mmf = \<lparr>b_new = (\<lambda>m. 16), b_open = (\<lambda>path n. ()), b_allocate = (\<lambda>n h. Some (2 ^ 40 + 64, ())),
     b_find_root = (\<lambda>h. 2 ^ 40), b_construct_root = (\<lambda>h. Some (2 ^ 40, ())), b_address = (\<lambda>h. 2 ^ 40), b_size = (\<lambda>h. 4096)\<rparr>"

definition demo_pool :: PMEMobjpool where
  "demo_pool = \<lparr>pool_root = 0, pool_addr = 16\<rparr>"

definition demo_pobj :: "(unit, ram) pobj" where
  "demo_pobj = \<lparr>plib = lib demo_live, mmfs = (\<lambda>q. if q = 16 then Some () else None), tx_level = 0, tx_mmf_obj = 0\<rparr>"

definition demo_tx :: "txp list" where
  "demo_tx = [Tx demo_pool [Call (Memset (2 ^ 40 + 64) 7 32)], Tx demo_pool []]"

lemma demo_tx_simps [simp]:
  "calls_ofs demo_tx = [Memset (2 ^ 40 + 64) 7 32]" "last_pools 16 demo_tx = 16"
  "depths demo_tx = 1" "plib demo_pobj = lib demo_live" "tx_level demo_pobj = 0" "mmfs demo_pobj 16 = Some ()"
  "b_address demo_mmf h = 2 ^ 40" "b_size demo_mmf h = 4096" "pool_addr demo_pool = 16"
  by (simp_all add: demo_tx_def demo_pool_def demo_pobj_def demo_mmf_def)

theorem tx_durable_witness:
  "\<exists>g1 g2. run_icalls clwb_ops 0 [Memset (2 ^ 40 + 64) 7 32] (lib demo_live) = Inr g1 \<and>
     run_txp demo_mmf demo_senv 0 (Tx demo_pool demo_tx) demo_pobj = ret (demo_pobj\<lparr>plib := g2, tx_mmf_obj := 0\<rparr>) \<and>
     cpu (mch g2) (2 ^ 41 + 70) = cpu (mch g1) (2 ^ 40 + 70) \<and> durable (mch g2) (2 ^ 41 + 70)"
proof -
  have se: "se_ops demo_senv = clwb_ops" by (simp add: demo_senv_def)
  obtain g1 g2 where g: "run_icalls clwb_ops 0 [Memset (2 ^ 40 + 64) 7 32] (lib demo_live) = Inr g1"
    "run_txp demo_mmf demo_senv 0 (Tx demo_pool demo_tx) demo_pobj = ret (demo_pobj\<lparr>plib := g2, tx_mmf_obj := 0\<rparr>)"
    "\<forall>k<4096. cpu (mch g2) (2 ^ 41 + k) = cpu (mch g1) (2 ^ 40 + k) \<and> cpu (mch g2) (2 ^ 40 + k) = cpu (mch g1) (2 ^ 40 + k)"
    "\<forall>c\<in>set [Memset (2 ^ 40 + 64) 7 32]. \<forall>k. inr (lean_addr (icall_entry c)) (lean_bytes (icall_entry c)) (2 ^ 40 + k) \<longrightarrow>
       durable (mch g2) (2 ^ 41 + k)"
    using tx_durable [of demo_pobj demo_tx demo_pool "()" demo_mmf 4096 demo_senv "inr 4096 24" 0 4096 65536, unfolded se demo_tx_simps(1,4)]
      demo_live_ready demo_live_ok demo_live_fits demo_live_work demo_live_mirrored demo_live_outside by auto
  have "cpu (mch g2) (2 ^ 41 + 70) = cpu (mch g1) (2 ^ 40 + 70)" using g(3) [rule_format, of 70] by simp
  moreover have "durable (mch g2) (2 ^ 41 + 70)" using g(4) [rule_format, of "Memset (2 ^ 40 + 64) 7 32" 70] by (simp add: icall_entry_def inr_def)
  ultimately show ?thesis using g(1,2) by blast
qed

theorem tx_nested_flat_witness:
  "run_txp demo_mmf demo_senv 0 (Tx demo_pool demo_tx) demo_pobj =
     run_txp demo_mmf demo_senv 0 (Tx demo_pool [Call (Memset (2 ^ 40 + 64) 7 32)]) demo_pobj"
  using tx_nested_flat [of demo_pobj demo_tx demo_mmf demo_senv 0 demo_pool] by (simp add: demo_pool_def)

end
