(* ===== verification/PmBuffer.thy ===== *)
theory PmBuffer
  imports Wrappers
begin

text \<open>
  The persist buffer (libpmbuffer/libpmbuffer.cc): a file of six megabytes mapped when the library is loaded, and a
  child process that reserves the cache, zeroes the buffer and wakes the parent. The part of the constructor before
  the fork is a function; what follows is a step relation of the two processes over the shared mapping. The names of
  the environment variables are declared by the nvsl submodule and are parameters, as is what the kernel answers.
  A child that faults inside the handler of \<open>SIGSEGV\<close> runs the faulting access again, because the handler returns.
  No signal but the one of the child reaches the parent.
\<close>

section \<open>The persist buffer\<close>

definition PERST_BUF_SZ :: nat where
  "PERST_BUF_SZ = 6 * 1024 * 1024"

record 'k pb_env =
  pe_os :: "'k os"
  pe_remove :: "string \<Rightarrow> 'k \<Rightarrow> 'k option"
  pe_sigaction :: "nat \<Rightarrow> bool"
  pe_sigrt :: "nat list"
  pe_setaffinity :: "int \<Rightarrow> bool"
  pe_getcpu :: "int \<Rightarrow> int"
  pe_system :: "string \<Rightarrow> 'k \<Rightarrow> 'k"
  pe_loc_env :: string
  pe_core_env :: string
  pe_reserve_env :: string

datatype sig_handler = TmpHandler | NoAction

record 'k pbuf =
  perst_buf :: addr
  pb_mach :: mach
  pb_kern :: 'k
  handlers :: "nat \<Rightarrow> sig_handler option"

definition perst_buf_fallocate :: "'k pb_env \<Rightarrow> string \<Rightarrow> nat \<Rightarrow> 'k \<Rightarrow> 'k res" where
  "perst_buf_fallocate e path bytes k =
     (case os_file_size (pe_os e) path k of
        None \<Rightarrow> Inl Uncaught
      | Some n \<Rightarrow>
          bindR (if n \<noteq> bytes then (case pe_remove e path k of None \<Rightarrow> Inl Uncaught | Some k1 \<Rightarrow> Inr k1) else Inr k) (\<lambda>k1.
          if \<not> os_is_regular_file (pe_os e) path k1
          then let (fd, k2) = os_open (pe_os e) path (O_CREAT OR O_RDWR) k1
               in guardR (fd \<noteq> -1) ExitFailure
                 (let (r, k3) = os_lseek (pe_os e) fd (usub64 bytes 1) k2
                  in guardR (usub64 bytes 1 = nat (r mod 2 ^ 64)) ExitFailure
                    (let (w, k4) = os_write (pe_os e) fd [CHR 0x00] k3
                     in guardR (w = 1) ExitFailure (Inr k4)))
          else Inr k1))"

definition mount_perst_buf :: "'k pb_env \<Rightarrow> string \<Rightarrow> 'k pbuf \<Rightarrow> 'k pbuf res" where
  "mount_perst_buf e path s =
     guardR (path \<noteq> []) ExitFailure
     (let (fd, k) = os_open (pe_os e) path O_RDWR (pb_kern s)
      in guardR (fd \<noteq> -1) ExitFailure
        (let (a, m, k) = os_mmap (pe_os e) 0 PERST_BUF_SZ PROT_RW (MAP_SHARED_VALIDATE OR MAP_SYNC) fd 0 (pb_mach s, k)
         in Inr (s\<lparr>perst_buf := a, pb_mach := m, pb_kern := k\<rparr>)))"

definition reset_cache_reservations :: "'k pb_env \<Rightarrow> 'k \<Rightarrow> 'k" where
  "reset_cache_reservations e = pe_system e ''pqos -R''"

definition reserve_cache_cmd :: string where
  "reserve_cache_cmd = ''pqos -e '' @ [CHR 0x22] @ ''llc@0:1=0xf;llc@0:0=0x7f0'' @ [CHR 0x22] @ '' -a '' @
     [CHR 0x22] @ ''cos:1=0;cos:0=1-19;'' @ [CHR 0x22]"

definition reserve_cache :: "'k pb_env \<Rightarrow> int \<Rightarrow> nat \<Rightarrow> 'k \<Rightarrow> 'k" where
  "reserve_cache e cpuid ways = pe_system e reserve_cache_cmd"

record pmbuf_t =
  pmb_raw :: addr
  pmb_bytes :: nat

definition get_pmbuffer :: "'k pbuf \<Rightarrow> pmbuf_t res" where
  "get_pmbuffer s =
     guardR (perst_buf s \<noteq> 0) AssertFailed (Inr \<lparr>pmb_raw = perst_buf s, pmb_bytes = PERST_BUF_SZ\<rparr>)"

subsection \<open>The constructor up to the fork\<close>

fun install_rt :: "'k pb_env \<Rightarrow> nat list \<Rightarrow> 'k pbuf \<Rightarrow> 'k pbuf res" where
  "install_rt e [] s = Inr s"
| "install_rt e (i # is') s =
     guardR (pe_sigaction e i) ExitFailure (install_rt e is' (s\<lparr>handlers := (handlers s)(i \<mapsto> TmpHandler)\<rparr>))"

definition SIGSEGV :: nat where "SIGSEGV = 11"
definition SIGUSR1 :: nat where "SIGUSR1 = 10"

definition set_handler :: "'k pb_env \<Rightarrow> nat \<Rightarrow> sig_handler \<Rightarrow> 'k pbuf \<Rightarrow> 'k pbuf" where
  "set_handler e sig h s = (if pe_sigaction e sig then s\<lparr>handlers := (handlers s)(sig \<mapsto> h)\<rparr> else s)"

definition ctor_init :: "'k pb_env \<Rightarrow> 'k pbuf \<Rightarrow> 'k pbuf res" where
  "ctor_init e s =
     (let perst_buf_fname = get_env_str (pe_os e) (pe_loc_env e) []
      in bindR (install_rt e (pe_sigrt e) s) (\<lambda>s.
         let s = set_handler e SIGUSR1 NoAction (set_handler e SIGSEGV TmpHandler s)
         in bindR (perst_buf_fallocate e perst_buf_fname PERST_BUF_SZ (pb_kern s)) (\<lambda>k.
            mount_perst_buf e perst_buf_fname (s\<lparr>pb_kern := k\<rparr>))))"

subsection \<open>The child and the parent\<close>

definition bindcore :: "'k pb_env \<Rightarrow> int \<Rightarrow> unit res" where
  "bindcore e cpuid =
     guardR (pe_setaffinity e cpuid) ExitFailure (guardR (pe_getcpu e cpuid = cpuid) ExitFailure (Inr ()))"

definition child_setup :: "'k pb_env \<Rightarrow> 'k pbuf \<Rightarrow> 'k pbuf res" where
  "child_setup e s =
     bindR (stoull 10 (get_env_str (pe_os e) (pe_core_env e) ''0'')) (\<lambda>n.
     let cpuid = sint (of_nat n :: 32 word)
     in bindR (bindcore e cpuid) (\<lambda>_.
        let k = reset_cache_reservations e (pb_kern s);
            k = (if nv_env_val (pe_os e) (pe_reserve_env e) then reserve_cache e cpuid 0xf k else k)
        in Inr (s\<lparr>pb_kern := k\<rparr>)))"

datatype parent_pc = BeforePause | Paused | Completed

datatype child_pc = Setup | Zeroing | Notify | Reading nat | Dead fault

record 'k forked =
  fk_buf :: "'k pbuf"
  fk_parent :: parent_pc
  fk_child :: child_pc

definition wake :: "parent_pc \<Rightarrow> parent_pc" where
  "wake p = (if p = Paused then Completed else p)"

inductive ctor_step :: "'k pb_env \<Rightarrow> 'k forked \<Rightarrow> 'k forked \<Rightarrow> bool" for e where
  parent_pause: "fk_parent s = BeforePause \<Longrightarrow> ctor_step e s (s\<lparr>fk_parent := Paused\<rparr>)"
| child_ready: "fk_child s = Setup \<Longrightarrow> child_setup e (fk_buf s) = Inr b \<Longrightarrow>
    ctor_step e s (s\<lparr>fk_buf := b, fk_child := Zeroing\<rparr>)"
| child_dies: "fk_child s = Setup \<Longrightarrow> child_setup e (fk_buf s) = Inl f \<Longrightarrow> ctor_step e s (s\<lparr>fk_child := Dead f\<rparr>)"
| child_memset: "fk_child s = Zeroing \<Longrightarrow> perst_buf (fk_buf s) \<noteq> MAP_FAILED \<Longrightarrow>
    ctor_step e s (s\<lparr>fk_buf := (fk_buf s)\<lparr>pb_mach := c_memset (perst_buf (fk_buf s)) 0 PERST_BUF_SZ (pb_mach (fk_buf s))\<rparr>,
      fk_child := Notify\<rparr>)"
| child_segv: "fk_child s = Zeroing \<Longrightarrow> perst_buf (fk_buf s) = MAP_FAILED \<Longrightarrow> ctor_step e s s"
| child_kill: "fk_child s = Notify \<Longrightarrow>
    ctor_step e s (s\<lparr>fk_child := Reading 0, fk_parent := wake (fk_parent s)\<rparr>)"
| child_read: "fk_child s = Reading i \<Longrightarrow> ctor_step e s (s\<lparr>fk_child := Reading (uadd64 i 1)\<rparr>)"

definition fork_state :: "'k pbuf \<Rightarrow> 'k forked" where
  "fork_state b = \<lparr>fk_buf = b, fk_parent = BeforePause, fk_child = Setup\<rparr>"

abbreviation ctor_steps :: "'k pb_env \<Rightarrow> 'k forked \<Rightarrow> 'k forked \<Rightarrow> bool" where
  "ctor_steps e \<equiv> (ctor_step e)\<^sup>*\<^sup>*"

subsection \<open>The parent waits for a zeroed buffer\<close>

definition zeroed :: "'k pbuf \<Rightarrow> bool" where
  "zeroed b \<longleftrightarrow> perst_buf b \<noteq> MAP_FAILED \<and> (\<forall>i<PERST_BUF_SZ. cpu (pb_mach b) (perst_buf b + i) = 0)"

definition notified :: "child_pc \<Rightarrow> bool" where
  "notified c \<longleftrightarrow> (\<exists>i. c = Reading i)"

definition ctor_inv :: "addr \<Rightarrow> 'k forked \<Rightarrow> bool" where
  "ctor_inv a s \<longleftrightarrow> perst_buf (fk_buf s) = a \<and> (fk_child s = Notify \<or> notified (fk_child s) \<longrightarrow> zeroed (fk_buf s)) \<and>
     (fk_parent s = Completed \<longrightarrow> notified (fk_child s))"

lemma child_setup_frame: "child_setup e b = Inr b' \<Longrightarrow> perst_buf b' = perst_buf b \<and> pb_mach b' = pb_mach b"
  by (auto simp: child_setup_def bindR_eq_Inr Let_def)

lemma ctor_step_inv: "ctor_step e s s' \<Longrightarrow> ctor_inv a s \<Longrightarrow> ctor_inv a s'"
  by (induction rule: ctor_step.induct)
    (auto simp: ctor_inv_def notified_def zeroed_def wake_def c_memset_def store_def wr_def inr_def dest: child_setup_frame split: if_splits)

lemma ctor_steps_inv: "ctor_steps e s s' \<Longrightarrow> ctor_inv a s \<Longrightarrow> ctor_inv a s'"
  by (induction rule: rtranclp_induct) (auto dest: ctor_step_inv)

lemma parent_stuck: "ctor_steps e s s' \<Longrightarrow> fk_parent s = Paused \<Longrightarrow> notified (fk_child s) \<Longrightarrow>
    fk_parent s' = Paused \<and> notified (fk_child s')"
  by (induction rule: rtranclp_induct) (auto elim!: ctor_step.cases simp: notified_def)

lemma fork_inv: "ctor_inv (perst_buf b) (fork_state b)"
  by (simp add: ctor_inv_def fork_state_def notified_def)

lemma child_to_notify:
  assumes r: "child_setup e b = Inr b'" and m: "perst_buf b \<noteq> MAP_FAILED"
  shows "\<exists>b2. \<forall>p. ctor_steps e \<lparr>fk_buf = b, fk_parent = p, fk_child = Setup\<rparr> \<lparr>fk_buf = b2, fk_parent = p, fk_child = Notify\<rparr>"
proof -
  let ?b2 = "b'\<lparr>pb_mach := c_memset (perst_buf b') 0 PERST_BUF_SZ (pb_mach b')\<rparr>"
  have "ctor_steps e \<lparr>fk_buf = b, fk_parent = p, fk_child = Setup\<rparr> \<lparr>fk_buf = ?b2, fk_parent = p, fk_child = Notify\<rparr>" for p
    using ctor_step.child_ready [of "\<lparr>fk_buf = b, fk_parent = p, fk_child = Setup\<rparr>" e b'] r m child_setup_frame [OF r]
      ctor_step.child_memset [of "\<lparr>fk_buf = b', fk_parent = p, fk_child = Zeroing\<rparr>" e]
    by (simp add: converse_rtranclp_into_rtranclp)
  then show ?thesis by blast
qed

text \<open>C31: The constructor returns to the program only with a zeroed buffer: in every interleaving of the parent and
  the child, when the parent has come back from \<open>pause\<close> the mapping is valid and all of its bytes are zero.\<close>

theorem ctor_completed_zeroed:
  assumes "ctor_steps e (fork_state b) s" and "fk_parent s = Completed"
  shows "zeroed (fk_buf s) \<and> perst_buf (fk_buf s) = perst_buf b"
  using ctor_steps_inv [OF assms(1) fork_inv] assms(2) by (simp add: ctor_inv_def)

text \<open>C32: Whether the constructor returns depends on the schedule. From the same fork, with a child whose set-up succeeds
  and a valid mapping, one run completes; in another the child's signal arrives before the parent's \<open>pause\<close>, and from
  there no run ever completes.\<close>

theorem ctor_lost_wakeup:
  assumes r: "child_setup e b = Inr b'" and m: "perst_buf b \<noteq> MAP_FAILED"
  shows "(\<exists>s. ctor_steps e (fork_state b) s \<and> fk_parent s = Completed) \<and>
    (\<exists>s. ctor_steps e (fork_state b) s \<and> (\<forall>s'. ctor_steps e s s' \<longrightarrow> fk_parent s' = Paused))"
proof -
  obtain b2 where n: "ctor_steps e \<lparr>fk_buf = b, fk_parent = p, fk_child = Setup\<rparr> \<lparr>fk_buf = b2, fk_parent = p, fk_child = Notify\<rparr>" for p
    using child_to_notify [OF r m] by blast
  have k: "ctor_step e \<lparr>fk_buf = b2, fk_parent = p, fk_child = Notify\<rparr> \<lparr>fk_buf = b2, fk_parent = wake p, fk_child = Reading 0\<rparr>" for p
    using ctor_step.child_kill [of "\<lparr>fk_buf = b2, fk_parent = p, fk_child = Notify\<rparr>" e] by simp
  have p: "ctor_step e \<lparr>fk_buf = b1, fk_parent = BeforePause, fk_child = c\<rparr> \<lparr>fk_buf = b1, fk_parent = Paused, fk_child = c\<rparr>" for b1 c
    using ctor_step.parent_pause [of "\<lparr>fk_buf = b1, fk_parent = BeforePause, fk_child = c\<rparr>" e] by simp
  let ?ok = "\<lparr>fk_buf = b2, fk_parent = Completed, fk_child = Reading 0\<rparr>" and ?bad = "\<lparr>fk_buf = b2, fk_parent = Paused, fk_child = Reading 0\<rparr>"
  have "ctor_steps e (fork_state b) ?ok"
    using converse_rtranclp_into_rtranclp [OF p n] k [of Paused] by (simp add: fork_state_def wake_def rtranclp.rtrancl_into_rtrancl)
  moreover have "ctor_steps e (fork_state b) ?bad"
    using rtranclp.rtrancl_into_rtrancl [OF rtranclp.rtrancl_into_rtrancl [OF n k [of BeforePause]], unfolded wake_def] p
    by (simp add: fork_state_def)
  moreover have "\<forall>s'. ctor_steps e ?bad s' \<longrightarrow> fk_parent s' = Paused"
    using parent_stuck [of e ?bad] by (simp add: notified_def)
  moreover have "fk_parent ?ok = Completed" by simp
  ultimately show ?thesis by blast
qed

text \<open>A mapping that failed is not reported. The constructor goes on to the fork, \<open>get_pmbuffer\<close> passes its
  assertion and hands out the address \<open>MAP_FAILED\<close>, and in every interleaving the parent never comes back from the constructor.\<close>

theorem failed_mmap_hangs:
  assumes "ctor_init e s0 = Inr b" and f: "perst_buf b = MAP_FAILED" and st: "ctor_steps e (fork_state b) s"
  shows "get_pmbuffer b = Inr \<lparr>pmb_raw = MAP_FAILED, pmb_bytes = PERST_BUF_SZ\<rparr> \<and> fk_parent s \<noteq> Completed"
  using ctor_steps_inv [OF st fork_inv] f by (auto simp: ctor_inv_def zeroed_def get_pmbuffer_def MAP_FAILED_def)

lemma absent_buffer_throws:
  "os_file_size (pe_os e) path k = None \<Longrightarrow> perst_buf_fallocate e path bytes k = Inl Uncaught"
  by (simp add: perst_buf_fallocate_def)

subsection \<open>A loaded buffer\<close>

definition demo_pe :: "unit os \<Rightarrow> unit pb_env" where
  "demo_pe os = \<lparr>pe_os = os, pe_remove = (\<lambda>path k. Some k), pe_sigaction = (\<lambda>i. True), pe_sigrt = [34, 35],
     pe_setaffinity = (\<lambda>c. True), pe_getcpu = (\<lambda>c. c), pe_system = (\<lambda>c k. k), pe_loc_env = ''PERST_BUF_LOC'',
     pe_core_env = ''BIND_CORE'', pe_reserve_env = ''RESERVE_CACHE''\<rparr>"

definition demo_pos :: "addr \<Rightarrow> unit os" where
  "demo_pos a = demo_os\<lparr>os_mmap := (\<lambda>b n pr fl fd off mk. (a, mk)),
     nv_env_str := (\<lambda>v. if v = ''PERST_BUF_LOC'' then Some ''/mnt/pmem0/buf'' else None)\<rparr>"

definition demo_pb :: "addr \<Rightarrow> unit pbuf" where
  "demo_pb a = \<lparr>perst_buf = a, pb_mach = demo_mach, pb_kern = (), handlers = Map.empty\<rparr>"

lemma demo_child: "child_setup (demo_pe (demo_pos a)) (demo_pb a) = Inr (demo_pb a)"
proof -
  have "get_env_str (demo_pos a) ''BIND_CORE'' ''0'' = ''0''" by (simp add: get_env_str_def demo_pos_def)
  moreover have "stoull 10 ''0'' = Inr 0"
    by (simp add: stoull_def str_num_def digit_of_def digits_val_def is_space_char_def Let_def)
  ultimately show ?thesis
    by (simp add: child_setup_def demo_pe_def bindcore_def reset_cache_reservations_def reserve_cache_def demo_pb_def)
qed

theorem ctor_lost_wakeup_witness:
  "(\<exists>s. ctor_steps (demo_pe (demo_pos 4096)) (fork_state (demo_pb 4096)) s \<and> fk_parent s = Completed) \<and>
   (\<exists>s. ctor_steps (demo_pe (demo_pos 4096)) (fork_state (demo_pb 4096)) s \<and>
     (\<forall>s'. ctor_steps (demo_pe (demo_pos 4096)) s s' \<longrightarrow> fk_parent s' = Paused))"
  by (rule ctor_lost_wakeup [OF demo_child]) (simp add: demo_pb_def MAP_FAILED_def)

definition demo_completed :: "unit forked" where
  "demo_completed = \<lparr>fk_buf = (demo_pb 4096)\<lparr>pb_mach := c_memset 4096 0 PERST_BUF_SZ demo_mach\<rparr>, fk_parent = Completed, fk_child = Reading 0\<rparr>"

lemma demo_completes: "ctor_steps (demo_pe (demo_pos 4096)) (fork_state (demo_pb 4096)) demo_completed"
proof -
  let ?e = "demo_pe (demo_pos 4096)" and ?b = "demo_pb 4096"
  let ?z = "?b\<lparr>pb_mach := c_memset 4096 0 PERST_BUF_SZ demo_mach\<rparr>"
  have 1: "ctor_step ?e (fork_state ?b) \<lparr>fk_buf = ?b, fk_parent = Paused, fk_child = Setup\<rparr>"
    using ctor_step.parent_pause [of "fork_state ?b" ?e] by (simp add: fork_state_def)
  have 2: "ctor_step ?e \<lparr>fk_buf = ?b, fk_parent = Paused, fk_child = Setup\<rparr> \<lparr>fk_buf = ?b, fk_parent = Paused, fk_child = Zeroing\<rparr>"
    using demo_child [of 4096] ctor_step.child_ready [of "\<lparr>fk_buf = ?b, fk_parent = Paused, fk_child = Setup\<rparr>" ?e ?b] by simp
  have 3: "ctor_step ?e \<lparr>fk_buf = ?b, fk_parent = Paused, fk_child = Zeroing\<rparr> \<lparr>fk_buf = ?z, fk_parent = Paused, fk_child = Notify\<rparr>"
    using ctor_step.child_memset [of "\<lparr>fk_buf = ?b, fk_parent = Paused, fk_child = Zeroing\<rparr>" ?e]
    by (simp add: demo_pb_def MAP_FAILED_def)
  have 4: "ctor_step ?e \<lparr>fk_buf = ?z, fk_parent = Paused, fk_child = Notify\<rparr> demo_completed"
    using ctor_step.child_kill [of "\<lparr>fk_buf = ?z, fk_parent = Paused, fk_child = Notify\<rparr>" ?e] by (simp add: wake_def demo_completed_def)
  from 1 2 3 4 show ?thesis by (meson rtranclp.rtrancl_into_rtrancl rtranclp.rtrancl_refl)
qed

theorem ctor_completed_zeroed_witness: "zeroed (fk_buf demo_completed)"
  using ctor_completed_zeroed [OF demo_completes] by (simp add: demo_completed_def)

lemma demo_init:
  "ctor_init (demo_pe (demo_pos a)) (demo_pb 0) =
     Inr ((demo_pb a)\<lparr>handlers := [34 \<mapsto> TmpHandler, 35 \<mapsto> TmpHandler, SIGSEGV \<mapsto> TmpHandler, SIGUSR1 \<mapsto> NoAction]\<rparr>)"
  by (simp add: ctor_init_def demo_pe_def demo_pos_def demo_pb_def demo_os_def get_env_str_def set_handler_def
      perst_buf_fallocate_def mount_perst_buf_def PERST_BUF_SZ_def)

theorem failed_mmap_hangs_witness:
  "\<exists>b. ctor_init (demo_pe (demo_pos MAP_FAILED)) (demo_pb 0) = Inr b \<and>
     get_pmbuffer b = Inr \<lparr>pmb_raw = MAP_FAILED, pmb_bytes = PERST_BUF_SZ\<rparr>"
  using failed_mmap_hangs [OF demo_init _ rtranclp.rtrancl_refl, of MAP_FAILED] demo_init [of MAP_FAILED] by (simp add: demo_pb_def)

end
