(* ===== verification/Spec2Isabelle.thy ===== *)
theory Spec2Isabelle
  imports JobQueues MapProgram BTreePmdk BTreeTypes StoreInstPass SimpleKv ListPmdk PmdkEmul PmBuffer
begin

text \<open>
  \<^bold>\<open>The program.\<close>  The repository holds \<^emph>\<open>cxlbuf\<close>, a library that gives a program failure-atomic updates of memory-mapped files.
  A compiler pass puts a call of \<^verbatim>\<open>checkMemory\<close> before every store, and the library replaces memcpy, memmove, memset, mmap, munmap, msync,
  fsync and fdatasync (src/src/libstoreinst).  A tracked file is mapped twice: the program works on a private copy, the
  \<^emph>\<open>working copy\<close>, and the \<^emph>\<open>backing copy\<close> is on persistent memory.  Before a range of the working copy is overwritten its old contents
  are appended to the undo log of the thread; msync and fsync take a \<^emph>\<open>snapshot\<close>, which copies the logged ranges to the backing copy;
  after a crash the next process that maps the file replays the log that was active.  The backing copy can also be memory
  of a page cache over a block device (src/src/libcxlfs) or memory of a graphics card (src/src/libvram), each with a small file layer (libcxlfs.cc,
  src/src/libvramfs).  Two polling workers flush and copy in the background (bgflush.cc, src/src/libdsaemu).

  \<^bold>\<open>Conventions.\<close>  Pointers and \<^verbatim>\<open>size_t\<close> are natural numbers, and sums and differences that the code may wrap are \<open>uadd64\<close> and \<open>usub64\<close>.  Bytes and
  flag words are machine words.  A function that can end the process, fail an assertion, dereference null or throw returns \<open>fault + 'a\<close>
  (\<open>res\<close>); one whose loop may not end returns an option of that (\<open>run\<close>, \<open>None\<close> for not returning).  State is passed explicitly, in
  records with the fields of the structs and the globals.  Code that is not in the repository is a record of functions over an abstract state: the operating
  system and the helpers of the nvsl submodule (\<open>os\<close>), SPDK (\<open>spdk\<close>), NUMA and perf (\<open>numa_env\<close>, \<open>cenv\<close>), Vulkan (\<open>vk\<close>), the mapped files of
  Boost (\<open>mmf_impl\<close>), the allocators of the examples and the persistence primitives (\<open>pmem_ops\<close>).  What the code relies on of them is a predicate (\<open>pmem_ops_ok\<close>, \<open>spdk_ok\<close>, \<open>plain_spdk\<close>, \<open>vk_ok\<close>, \<open>sort_ok\<close>, \<open>nv_text_ok\<close>, \<open>tx_ok\<close>), each with
  an instance on which the witnesses run.  The build is the one of make.config: volatile log format, aligned snapshot writes, no testing
  code, and assertions on.

  \<^bold>\<open>Theories.\<close>
  \<^item> \<open>Prelude\<close>: words, byte lists, memory, faults and runs.  \<open>PMem\<close>: the machine, with what a load sees, what the media may hold and what is in flight,
    and the persistence primitives.  \<open>LibState\<close>: the structs and globals of libstoreinst.
  \<^item> \<open>WriteAhead\<close>: the locale \<open>undo_logging\<close>, the contract of an undo log.  \<open>UndoLog\<close>: log.hh and log.cc, and the interpretation of the locale.  A
    call of \<open>log_range\<close> appends one entry with the old bytes; entries are read back as written; a flush makes them durable, but for the
    tail that the code does not flush.
  \<^item> \<open>Intercept\<close>: the mem functions and \<open>checkMemory\<close>.  Any sequence of them can be undone from the log.
  \<^item> \<open>Snapshot\<close>: \<open>snapshot\<close>.  It makes the two copies equal, what it copies is durable, its counters agree, and its blocks stay near the
    logged ranges.
  \<^item> \<open>OsEnv\<close>: the interface of the kernel, number parsing and formatting.  \<open>Recovery\<close>: recovery.cc and the log files.  Replay is the undo of the
    entries of the file; the constructor of a log establishes the invariant of \<open>UndoLog\<close>; a crash during the copy of a snapshot is not undone.
  \<^item> \<open>Wrappers\<close>: the other wrappers and the constructor of the library.  Tracked mappings are disjoint.
  \<^item> \<open>BlkDev\<close>, \<open>MemBWDist\<close>, \<open>NumaBinder\<close>, \<open>Controller\<close>: the parts of libcxlfs.  What is written to a block is read back; the sampler ends or is stuck, and
    when; a fault brings the page that was asked for and changes no other, resident or not; flushing keeps all pages.
  \<^item> \<open>Vram\<close>, \<open>FdTable\<close>, \<open>CxlFs\<close>, \<open>VramFs\<close>: the graphics memory and the two file layers.  The locale \<open>region_alloc\<close> is the contract of an allocator; its
    lemma, that files are disjoint, is interpreted for both allocators.
  \<^item> \<open>JobQueues\<close>: the workers, bgflush as a step relation of two threads with an invariant by rule induction.
  \<^item> \<open>EndToEnd\<close> and this theory: stores followed by a snapshot or fsync, and stores followed by a crash and recovery.
  \<^item> \<open>StoreInstPass\<close>: the compiler pass (src/src/storeinst-pass) on functions of blocks of instructions.  On every path the emitted code does what the
    stores do with \<^verbatim>\<open>checkMemory\<close> in front of them; stores wider than eight bytes are logged only in part.
  \<^item> \<open>PmdkEmul\<close>: the emulation of libpmemobj (src/src/libpmdkemul).  Nested transactions are one flat transaction, and an outermost one is durable at its
    end.  \<open>PmBuffer\<close>: src/src/libpmbuffer, the two processes of its constructor as a step relation; it returns only with a zeroed buffer, and need
    not return.
  \<^item> \<open>BTree\<close>, \<open>BTreeInv\<close>, \<open>BTreeRemove\<close>, \<open>BTreeTypes\<close>: examples/btree.  Insertion and removal on the nodes in memory are insertion and removal in the ordered
    sequence of the items; queries and iteration read it; nodes keep their array sizes.  \<open>MapProgram\<close>: examples/map, whose sessions without removals
    are those of a sorted list.  \<open>BTreePmdk\<close>: insertion and queries of examples/map\_pmdk/btree\_map.c, which commute with an abstraction to \<open>BTree\<close>.
  \<^item> \<open>KeyValue\<close>, \<open>Containers\<close>, \<open>SimpleKv\<close>: the vector and the string of the repository and the hash map on them.  The locale \<open>kv_store\<close> is the contract of a
    key-value store and is interpreted on the hash map.
  \<^item> \<open>LinkedList\<close>, \<open>ListPmdk\<close>: the two list programs, which implement a queue of numbers; the second one does so when the objects it gets are zero.

  \<^bold>\<open>Loops.\<close>  Recursion over a list or a decreasing measure is total.  The polling loops of the block device and the sampler and the walks over
  pointers are partial functions into option, and the properties state when they return.  There is no fuel.

  \<^bold>\<open>Assumptions that limit the results.\<close>  The stores of one thread are sequential; two threads only meet in \<open>snapshot\<close>, which visits all logs, and
  in \<open>JobQueues\<close>.  The machine keeps the bytes of a store separate: a crash may tear any store.  A page of the cache is idle when it is read
  back (\<open>pg_idle\<close>), because the code does not wait for the write of an evicted page.  A mapping of the kernel changes only what the
  parameter says.  The lazy call of \<^verbatim>\<open>init_dlsyms\<close> in each wrapper is not repeated, since the constructor makes it.

  \<^bold>\<open>Not modelled.\<close>  Messages and statistics output; the code under \<^verbatim>\<open>CXLBUF_TESTING_GOODIES\<close>, \<^verbatim>\<open>TRACE_LOG_MSYNC\<close> and \<^verbatim>\<open>NO_CHECK_MEMORY\<close>; removal in the map on
  libpmemobj and its command line; the key-value example on the C++ bindings of libpmemobj; the examples that only demonstrate a system call or measure time; tests and scripts; and the vendored applications.
\<close>

text \<open>
  C1: from stores to the media.  A file is mapped, its backing copy mirrors it, and a program stores to it through any sequence of
  instrumented stores and intercepted calls.  Then \<open>fsync\<close> on its descriptor returns 0, the backing copy equals the working copy
  byte for byte, the working copy is as the program left it, and the bytes the program stored survive any crash.
\<close>

theorem stores_then_fsync:
  assumes "snap_ready (en_se e) H len (lib s)" and "log_ok (se_ops (en_se e)) t la cap (lib s)"
    and "icalls_fit (se_ops (en_se e)) t la cap cs (lib s)" and "\<forall>c\<in>set cs. in_work (start_addr (lib s)) len (icall_entry c)"
    and "\<forall>k<len. mirrored (cpu (mch (lib s))) (start_addr (lib s)) (backing_file_start (lib s)) k"
    and "\<forall>k<len. outside_log la cap (start_addr (lib s) + k) \<and> outside_log la cap (backing_file_start (lib s) + k)"
    and "map_of (mapped_addr (lib s)) fd = Some md"
    and "md_range md = \<lparr>range_start = start_addr (lib s), range_end = start_addr (lib s) + len\<rparr>"
  shows "\<exists>g1 g2. run_icalls (se_ops (en_se e)) t cs (lib s) = Inr g1 \<and> fsync e fd (s\<lparr>lib := g1\<rparr>) = ret (0, s\<lparr>lib := g2\<rparr>) \<and>
    (\<forall>k<len. cpu (mch g2) (backing_file_start (lib s) + k) = cpu (mch g1) (start_addr (lib s) + k) \<and>
       cpu (mch g2) (start_addr (lib s) + k) = cpu (mch g1) (start_addr (lib s) + k)) \<and>
    (\<forall>c\<in>set cs. \<forall>k. inr (lean_addr (icall_entry c)) (lean_bytes (icall_entry c)) (start_addr (lib s) + k) \<longrightarrow>
       durable (mch g2) (backing_file_start (lib s) + k))"
proof -
  let ?g = "lib s"
  obtain g1 g2 where g: "run_icalls (se_ops (en_se e)) t cs ?g = Inr g1" "log_frame t ?g g1" "snap_ready (en_se e) H len g1"
    "snapshot (en_se e) (start_addr ?g) len MS_SYNC g1 = ret (0, g2)"
    "\<forall>k<len. cpu (mch g2) (backing_file_start ?g + k) = cpu (mch g1) (start_addr ?g + k) \<and>
       cpu (mch g2) (start_addr ?g + k) = cpu (mch g1) (start_addr ?g + k)"
    "\<forall>c\<in>set cs. \<forall>k. inr (lean_addr (icall_entry c)) (lean_bytes (icall_entry c)) (start_addr ?g + k) \<longrightarrow>
       durable (mch g2) (backing_file_start ?g + k)"
    using stores_then_snapshot [OF assms(1-6)] by blast
  have fr: "start_addr g1 = start_addr ?g" "mapped_addr g1 = mapped_addr ?g" using g(2) by (simp_all add: log_frame_def same_maps_def)
  have "start_addr ?g + len < 2 ^ 64" using assms(1) by (simp add: snap_ready_def snap_env_ok_def layout_def)
  then have "fsync e fd (s\<lparr>lib := g1\<rparr>) = ret (0, s\<lparr>lib := g2\<rparr>)"
    using g(3,4) assms(7,8) by (simp add: fsync_def fr snapshot_range_def msync_def usub64_ge snap_ready_def snap_env_ok_def)
  then show ?thesis using g(1,5,6) by blast
qed

theorem stores_then_fsync_witness:
  "\<exists>g1 g2. run_icalls clwb_ops 0 [Memset (2 ^ 40 + 64) 7 32] (lib demo_live) = Inr g1 \<and>
     fsync demo_env 5 (demo_live\<lparr>lib := g1\<rparr>) = ret (0, demo_live\<lparr>lib := g2\<rparr>) \<and>
     cpu (mch g2) (2 ^ 41 + 70) = cpu (mch g1) (2 ^ 40 + 70) \<and> durable (mch g2) (2 ^ 41 + 70)"
proof -
  have se: "en_se demo_env = demo_senv" "se_ops demo_senv = clwb_ops" by (simp_all add: demo_env_def demo_senv_def)
  obtain g1 g2 where g: "run_icalls clwb_ops 0 [Memset (2 ^ 40 + 64) 7 32] (lib demo_live) = Inr g1"
    "fsync demo_env 5 (demo_live\<lparr>lib := g1\<rparr>) = ret (0, demo_live\<lparr>lib := g2\<rparr>)"
    "\<forall>k<4096. cpu (mch g2) (backing_file_start (lib demo_live) + k) = cpu (mch g1) (start_addr (lib demo_live) + k) \<and>
       cpu (mch g2) (start_addr (lib demo_live) + k) = cpu (mch g1) (start_addr (lib demo_live) + k)"
    "\<forall>c\<in>set [Memset (2 ^ 40 + 64) 7 32]. \<forall>k. inr (lean_addr (icall_entry c)) (lean_bytes (icall_entry c)) (start_addr (lib demo_live) + k) \<longrightarrow>
       durable (mch g2) (backing_file_start (lib demo_live) + k)"
    using stores_then_fsync [where e = demo_env and s = demo_live and fd = 5, unfolded se, OF demo_live_ready demo_live_ok demo_live_fits demo_live_work demo_live_mirrored demo_live_outside] by auto
  have "cpu (mch g2) (2 ^ 41 + 70) = cpu (mch g1) (2 ^ 40 + 70)" using g(3) [rule_format, of 70] by simp
  moreover have "durable (mch g2) (2 ^ 41 + 70)" using g(4) [rule_format, of "Memset (2 ^ 40 + 64) 7 32" 70] by (simp add: icall_entry_def inr_def)
  ultimately show ?thesis using g(1,2) by blast
qed



end
